(* ===== verification/Base.thy ===== *)
theory Base
  imports Main "HOL-Library.Word" "HOL-Library.List_Lexorder"
begin

unbundle bit_operations_syntax

text \<open>
  The prelude of the development: the machine types of the C++ sources, the result type of
  the operations that can fail or abort, and the hash maps of the sources as association
  lists.

  The sources are C++14 over stout and libprocess. An operation of type \<open>Try<T>\<close>
  returns a value or an error; a failed \<open>CHECK\<close>, a \<open>get\<close> of an empty
  \<open>Option\<close>, an \<open>at\<close> of a missing key and undefined behaviour (a shift by
  the width of its operand) end the process. All three outcomes are values of
  \<open>'a res\<close> here.
\<close>

named_theorems res_simps \<open>equations and case rules of the result type\<close>
named_theorems hm_simps \<open>lookups after updates of the hash maps\<close>

section \<open>Machine types\<close>

type_synonym byte = "8 word"
type_synonym u32 = "32 word"
type_synonym u64 = "64 word"

section \<open>Results\<close>

datatype fault =
    Undefined_Behaviour  \<comment> \<open>a shift out of range, an index out of an array\<close>
  | Check_Failed         \<comment> \<open>\<open>CHECK\<close>, \<open>CHECK_SOME\<close>, \<open>CHECK_NOTNULL\<close>\<close>
  | Option_None          \<comment> \<open>\<open>get\<close> of an \<open>Option\<close> or \<open>Try\<close> without a value\<close>
  | Key_Missing          \<comment> \<open>\<open>at\<close> of a key the map does not hold\<close>
  | Unreachable          \<comment> \<open>the \<open>UNREACHABLE\<close> macro\<close>
  | Exit_Failure         \<comment> \<open>the \<open>EXIT\<close> macro\<close>

datatype err =
    Parse_Failed
  | Wrong_Family
  | Exhausted
  | Not_Allocated
  | Unavailable
  | Overlay_Disabled
  | Prefix_Mismatch
  | Not_In_Overlay
  | Unknown_Agent
  | Not_In_State
  | Mac_Malformed
  | Mac_Not_OUI
  | Vtep_Prefix_Too_Short
  | Duplicate_Overlay
  | Reserved_Name
  | Name_Too_Long
  | Overlapping_Space
  | No_Overlays
  | Log_Dir_Failed
  | Quorum_Invalid
  | Quorum_Missing
  | Read_Failed
  | Url_Invalid
  | Timeout_Invalid

datatype 'a res = Ok 'a | Error err | Crash fault

fun bind_res :: "'a res \<Rightarrow> ('a \<Rightarrow> 'b res) \<Rightarrow> 'b res" where
  "bind_res (Ok x) f = f x"
| "bind_res (Error e) f = Error e"
| "bind_res (Crash c) f = Crash c"

fun is_ok :: "'a res \<Rightarrow> bool" where
  "is_ok (Ok x) = True"
| "is_ok (Error e) = False"
| "is_ok (Crash c) = False"

definition opt_get :: "'a option \<Rightarrow> 'a res" where
  "opt_get x = (case x of None \<Rightarrow> Crash Option_None | Some v \<Rightarrow> Ok v)"

lemma bind_res_Ok_iff [res_simps]:
  "bind_res m f = Ok y \<longleftrightarrow> (\<exists>x. m = Ok x \<and> f x = Ok y)"
  by (cases m) auto

lemma bind_res_OkE:
  assumes "bind_res m f = Ok y"
  obtains x where "m = Ok x" "f x = Ok y"
  using assms by (cases m) auto

lemma bind_res_Ok_right [simp]: "bind_res m Ok = m"
  by (cases m) auto

lemma bind_res_assoc:
  "bind_res (bind_res m f) g = bind_res m (\<lambda>x. bind_res (f x) g)"
  by (cases m) auto

lemma opt_get_simps [simp]:
  "opt_get (Some v) = Ok v" "opt_get None = Crash Option_None"
  by (simp_all add: opt_get_def)

lemma opt_get_Ok_iff [res_simps]: "opt_get x = Ok v \<longleftrightarrow> x = Some v"
  by (cases x) auto

section \<open>Hash maps\<close>

text \<open>
  \<open>hashmap<K, V>\<close> of the sources is a \<open>std::unordered_map\<close>. Where the code
  iterates over one, it is modelled as an association list in iteration order; an insertion
  appends. C++ leaves the order open, and no property below depends on it.
\<close>

definition hm_contains :: "('k \<times> 'v) list \<Rightarrow> 'k \<Rightarrow> bool" where
  "hm_contains m k \<longleftrightarrow> map_of m k \<noteq> None"

definition hm_at :: "('k \<times> 'v) list \<Rightarrow> 'k \<Rightarrow> 'v res" where
  "hm_at m k = (case map_of m k of None \<Rightarrow> Crash Key_Missing | Some v \<Rightarrow> Ok v)"

definition hm_emplace :: "('k \<times> 'v) list \<Rightarrow> 'k \<Rightarrow> 'v \<Rightarrow> ('k \<times> 'v) list" where
  "hm_emplace m k v = (if hm_contains m k then m else m @ [(k, v)])"

fun hm_update :: "('k \<times> 'v) list \<Rightarrow> 'k \<Rightarrow> 'v \<Rightarrow> ('k \<times> 'v) list" where
  "hm_update [] k v = []"
| "hm_update ((k', v') # m) k v = (if k' = k then (k, v) # m else (k', v') # hm_update m k v)"

definition hm_put :: "('k \<times> 'v) list \<Rightarrow> 'k \<Rightarrow> 'v \<Rightarrow> ('k \<times> 'v) list" where
  "hm_put m k v = (if hm_contains m k then hm_update m k v else m @ [(k, v)])"

definition hm_keys :: "('k \<times> 'v) list \<Rightarrow> 'k list" where
  "hm_keys m = map fst m"

lemma hm_contains_iff [hm_simps]: "hm_contains m k \<longleftrightarrow> k \<in> set (hm_keys m)"
  by (auto simp: hm_contains_def hm_keys_def map_of_eq_None_iff)

lemma hm_at_Ok_iff [res_simps]: "hm_at m k = Ok v \<longleftrightarrow> map_of m k = Some v"
  by (auto simp: hm_at_def split: option.splits)

lemma map_of_hm_emplace [hm_simps]:
  "map_of (hm_emplace m k v) k' =
     (if k' = k \<and> map_of m k = None then Some v else map_of m k')"
  by (auto simp: hm_emplace_def hm_contains_def map_add_def split: option.splits)

lemma map_of_hm_update [hm_simps]:
  "map_of (hm_update m k v) k' =
     (if k' = k \<and> map_of m k \<noteq> None then Some v else map_of m k')"
  by (induction m k v rule: hm_update.induct) auto

lemma map_of_hm_put [hm_simps]: "map_of (hm_put m k v) = (map_of m)(k \<mapsto> v)"
  by (auto simp: hm_put_def hm_contains_def map_of_hm_update map_add_def fun_eq_iff
      split: option.splits)

lemma keys_hm_update [hm_simps]: "hm_keys (hm_update m k v) = hm_keys m"
  by (induction m k v rule: hm_update.induct) (auto simp: hm_keys_def)

lemma distinct_hm_emplace [hm_simps]:
  "distinct (hm_keys (hm_emplace m k v)) = distinct (hm_keys m)"
  by (auto simp: hm_emplace_def hm_contains_iff hm_keys_def)

lemma distinct_hm_put [hm_simps]:
  "distinct (hm_keys (hm_put m k v)) = distinct (hm_keys m)"
  by (auto simp: hm_put_def hm_contains_iff keys_hm_update) (auto simp: hm_keys_def)

lemma hm_mem_iff:
  "distinct (hm_keys m) \<Longrightarrow> (k, v) \<in> set m \<longleftrightarrow> map_of m k = Some v"
  by (simp add: hm_keys_def)

end
