(* ===== verification/IntervalSet.thy ===== *)
theory IntervalSet
  imports Base
begin

text \<open>
  The interface to stout's \<open>IntervalSet<T>\<close> (a wrapper of
  \<open>boost::icl::interval_set\<close>), which holds the free addresses and subnets of the
  overlay master. The container is not part of this repository: its operations are a
  parameter of the model, of type \<open>iv_ops\<close>, and the locale \<open>interval_set\<close> states
  their documented behaviour. A value is the sequence of disjoint right-open intervals that
  iterating over the container yields; an interval is built from two bounds with the
  element type's \<open>operator++\<close>, which is code of this repository and so an argument of
  the locale. \<open>ref_ops\<close> is a reference implementation on sorted lists that satisfies
  the laws; witnesses evaluate it.
\<close>

section \<open>The container's data and operations\<close>

type_synonym 'e ivset = "('e \<times> 'e) list"

datatype 'e bound = Open 'e | Closed 'e

record 'e iv_ops =
  iv_insert :: "'e ivset \<Rightarrow> 'e bound \<Rightarrow> 'e bound \<Rightarrow> 'e ivset"  \<comment> \<open>\<open>s += (lo, hi)\<close>\<close>
  iv_put :: "'e ivset \<Rightarrow> 'e \<Rightarrow> 'e ivset"                        \<comment> \<open>\<open>s += x\<close>\<close>
  iv_remove :: "'e ivset \<Rightarrow> 'e \<Rightarrow> 'e ivset"                     \<comment> \<open>\<open>s -= x\<close>\<close>
  iv_contains :: "'e ivset \<Rightarrow> 'e \<Rightarrow> bool"
  iv_intersects :: "'e ivset \<Rightarrow> 'e bound \<Rightarrow> 'e bound \<Rightarrow> bool"

definition iv_lower :: "'e ivset \<Rightarrow> 'e" where
  \<comment> \<open>\<open>s.begin()->lower()\<close>, read only where the set is not empty\<close>
  "iv_lower s = fst (hd s)"

section \<open>Meaning\<close>

definition covers :: "'e::linorder ivset \<Rightarrow> 'e set" where
  "covers s = {x. \<exists>(l, u) \<in> set s. l \<le> x \<and> x < u}"

fun iv_normal :: "'e::linorder ivset \<Rightarrow> bool" where
  "iv_normal [] \<longleftrightarrow> True"
| "iv_normal ((l, u) # s) \<longleftrightarrow> l < u \<and> (\<forall>(l', u') \<in> set s. u \<le> l') \<and> iv_normal s"

text \<open>The values between two bounds, as the container's right-open intervals read them.\<close>

fun above :: "('e::linorder \<Rightarrow> 'e) \<Rightarrow> 'e bound \<Rightarrow> 'e" where
  "above succ (Open a) = succ a"
| "above succ (Closed a) = a"

fun below :: "('e::linorder \<Rightarrow> 'e) \<Rightarrow> 'e bound \<Rightarrow> 'e" where
  "below succ (Open b) = b"
| "below succ (Closed b) = succ b"

definition span :: "('e::linorder \<Rightarrow> 'e) \<Rightarrow> 'e bound \<Rightarrow> 'e bound \<Rightarrow> 'e set" where
  "span succ lo hi = {x. above succ lo \<le> x \<and> x < below succ hi}"

definition cell :: "('e::linorder \<Rightarrow> 'e) \<Rightarrow> 'e \<Rightarrow> 'e set" where
  "cell succ x = {y. x \<le> y \<and> y < succ x}"

lemma covers_Nil [simp]: "covers [] = {}"
  by (simp add: covers_def)

lemma covers_Cons: "covers ((l, u) # s) = {l..<u} \<union> covers s"
  by (auto simp: covers_def)

lemma covers_append: "covers (s @ t) = covers s \<union> covers t"
  by (auto simp: covers_def)

lemma covers_nonempty: "iv_normal s \<Longrightarrow> s \<noteq> [] \<Longrightarrow> iv_lower s \<in> covers s"
  by (cases s) (auto simp: iv_lower_def covers_def)

lemma covers_least: "iv_normal s \<Longrightarrow> x \<in> covers s \<Longrightarrow> iv_lower s \<le> x"
proof (induction s rule: iv_normal.induct)
  case 1
  then show ?case by simp
next
  case (2 l u s)
  show ?case
  proof (cases "l \<le> x \<and> x < u")
    case True
    then show ?thesis by (simp add: iv_lower_def)
  next
    case False
    with "2.prems" obtain l' u' where "(l', u') \<in> set s" "l' \<le> x"
      by (auto simp: covers_def)
    with "2.prems" show ?thesis
      by (force simp: iv_lower_def)
  qed
qed

lemma covers_empty_iff: "iv_normal s \<Longrightarrow> covers s = {} \<longleftrightarrow> s = []"
  using covers_nonempty by fastforce

section \<open>The laws\<close>

locale interval_set =
  fixes succ :: "'e::linorder \<Rightarrow> 'e"
    and ops :: "'e iv_ops"
  assumes normal_insert: "iv_normal s \<Longrightarrow> iv_normal (iv_insert ops s lo hi)"
    and covers_insert: "iv_normal s \<Longrightarrow>
      covers (iv_insert ops s lo hi) = covers s \<union> span succ lo hi"
    and normal_put: "iv_normal s \<Longrightarrow> iv_normal (iv_put ops s x)"
    and covers_put: "iv_normal s \<Longrightarrow> covers (iv_put ops s x) = covers s \<union> cell succ x"
    and normal_remove: "iv_normal s \<Longrightarrow> iv_normal (iv_remove ops s x)"
    and covers_remove: "iv_normal s \<Longrightarrow> covers (iv_remove ops s x) = covers s - cell succ x"
    and contains_iff: "iv_normal s \<Longrightarrow> iv_contains ops s x \<longleftrightarrow> x \<in> covers s"
    and intersects_iff: "iv_normal s \<Longrightarrow>
      iv_intersects ops s lo hi \<longleftrightarrow> covers s \<inter> span succ lo hi \<noteq> {}"
begin

lemmas iv_normal_ops = normal_insert normal_put normal_remove
lemmas iv_covers_ops = covers_insert covers_put covers_remove

text \<open>
  Taking the first element out: it was free, it was the least free one, and once it is below
  its own successor it is free no longer.
\<close>

lemma take_first_free: "iv_normal s \<Longrightarrow> s \<noteq> [] \<Longrightarrow> iv_lower s \<in> covers s"
  by (rule covers_nonempty)

lemma take_first_least: "iv_normal s \<Longrightarrow> x \<in> covers s \<Longrightarrow> iv_lower s \<le> x"
  by (rule covers_least)

lemma removed_not_free:
  "iv_normal s \<Longrightarrow> x < succ x \<Longrightarrow> x \<notin> covers (iv_remove ops s x)"
  by (simp add: covers_remove cell_def)

lemma removed_stays_free:
  "iv_normal s \<Longrightarrow> \<not> x < succ x \<Longrightarrow> covers (iv_remove ops s x) = covers s"
  by (auto simp: covers_remove cell_def)

lemma remove_subset: "iv_normal s \<Longrightarrow> covers (iv_remove ops s x) \<subseteq> covers s"
  by (auto simp: covers_remove)

lemma fresh_insert: "covers (iv_insert ops [] lo hi) = span succ lo hi"
  by (simp add: covers_insert)

lemma normal_fresh: "iv_normal (iv_insert ops [] lo hi)"
  by (simp add: normal_insert)

end

section \<open>A reference implementation\<close>

definition iv_cut :: "'e::linorder \<Rightarrow> 'e \<Rightarrow> 'e \<times> 'e \<Rightarrow> 'e ivset" where
  "iv_cut a b i =
     (if fst i < min (snd i) a then [(fst i, min (snd i) a)] else []) @
     (if max (fst i) b < snd i then [(max (fst i) b, snd i)] else [])"

definition iv_del :: "'e::linorder ivset \<Rightarrow> 'e \<Rightarrow> 'e \<Rightarrow> 'e ivset" where
  "iv_del s a b = concat (map (iv_cut a b) s)"

fun iv_ins :: "'e::linorder ivset \<Rightarrow> 'e \<Rightarrow> 'e \<Rightarrow> 'e ivset" where
  "iv_ins [] a b = [(a, b)]"
| "iv_ins ((l, u) # s) a b = (if a \<le> l then (a, b) # (l, u) # s else (l, u) # iv_ins s a b)"

definition ref_add :: "'e::linorder ivset \<Rightarrow> 'e \<Rightarrow> 'e \<Rightarrow> 'e ivset" where
  "ref_add s a b = (if a < b then iv_ins (iv_del s a b) a b else s)"

definition ref_sub :: "'e::linorder ivset \<Rightarrow> 'e \<Rightarrow> 'e \<Rightarrow> 'e ivset" where
  "ref_sub s a b = (if a < b then iv_del s a b else s)"

definition ref_mem :: "'e::linorder ivset \<Rightarrow> 'e \<Rightarrow> bool" where
  "ref_mem s x = list_ex (\<lambda>(l, u). l \<le> x \<and> x < u) s"

definition ref_meets :: "'e::linorder ivset \<Rightarrow> 'e \<Rightarrow> 'e \<Rightarrow> bool" where
  "ref_meets s a b = list_ex (\<lambda>(l, u). max l a < min u b) s"

definition ref_ops :: "('e::linorder \<Rightarrow> 'e) \<Rightarrow> 'e iv_ops" where
  "ref_ops succ =
    \<lparr>iv_insert = \<lambda>s lo hi. ref_add s (above succ lo) (below succ hi),
     iv_put = \<lambda>s x. ref_add s x (succ x),
     iv_remove = \<lambda>s x. ref_sub s x (succ x),
     iv_contains = ref_mem,
     iv_intersects = \<lambda>s lo hi. ref_meets s (above succ lo) (below succ hi)\<rparr>"

lemma iv_del_simps [simp]:
  "iv_del [] a b = []"
  "iv_del (i # s) a b = iv_cut a b i @ iv_del s a b"
  by (simp_all add: iv_del_def)

lemma iv_cut_bounds:
  "(l, u) \<in> set (iv_cut a b i) \<Longrightarrow> l < u \<and> fst i \<le> l \<and> u \<le> snd i \<and> (u \<le> a \<or> b \<le> l)"
  by (auto simp: iv_cut_def split: if_splits)

lemma iv_del_bounds:
  "(l, u) \<in> set (iv_del s a b) \<Longrightarrow>
   \<exists>(l', u') \<in> set s. l < u \<and> l' \<le> l \<and> u \<le> u' \<and> (u \<le> a \<or> b \<le> l)"
  by (auto simp: iv_del_def dest!: iv_cut_bounds)

lemma iv_normal_append:
  "iv_normal (s @ t) \<longleftrightarrow>
   iv_normal s \<and> iv_normal t \<and> (\<forall>(l, u) \<in> set s. \<forall>(l', u') \<in> set t. u \<le> l')"
  by (induction s rule: iv_normal.induct) auto

lemma iv_cut_normal: "a < b \<Longrightarrow> iv_normal (iv_cut a b i)"
  by (auto simp: iv_cut_def min_def max_def)

lemma iv_del_normal: "a < b \<Longrightarrow> iv_normal s \<Longrightarrow> iv_normal (iv_del s a b)"
proof (induction s rule: iv_normal.induct)
  case 1
  then show ?case by simp
next
  case (2 l u s)
  have "u' \<le> l''" if "(l', u') \<in> set (iv_cut a b (l, u))" "(l'', u'') \<in> set (iv_del s a b)"
    for l' u' l'' u''
  proof -
    from iv_cut_bounds [OF that(1)] have "u' \<le> u" by simp
    also from iv_del_bounds [OF that(2)] "2.prems" have "u \<le> l''" by force
    finally show ?thesis .
  qed
  with 2 show ?case
    by (auto simp: iv_normal_append iv_cut_normal)
qed

lemma covers_cut: "a < b \<Longrightarrow> covers (iv_cut a b i) = {fst i..<snd i} - {a..<b}"
  by (cases i) (auto simp: iv_cut_def covers_append covers_Cons)

lemma covers_del: "a < b \<Longrightarrow> covers (iv_del s a b) = covers s - {a..<b}"
proof (induction s)
  case Nil
  then show ?case by simp
next
  case (Cons i s)
  then show ?case
    by (cases i) (auto simp: covers_append covers_cut covers_Cons)
qed

lemma set_iv_ins: "set (iv_ins s a b) = insert (a, b) (set s)"
  by (induction s a b rule: iv_ins.induct) auto

lemma iv_ins_normal:
  "a < b \<Longrightarrow> iv_normal s \<Longrightarrow> \<forall>(l, u) \<in> set s. u \<le> a \<or> b \<le> l \<Longrightarrow> iv_normal (iv_ins s a b)"
proof (induction s a b rule: iv_ins.induct)
  case (1 a b)
  then show ?case by simp
next
  case (2 l u s a b)
  show ?case
  proof (cases "a \<le> l")
    case True
    with "2.prems" have "b \<le> l" by auto
    moreover have "b \<le> l'" if "(l', u') \<in> set s" for l' u'
    proof -
      from that "2.prems"(2) have "u \<le> l'" "l < u" by auto
      with \<open>b \<le> l\<close> show ?thesis by simp
    qed
    ultimately show ?thesis using True "2.prems" by auto
  next
    case False
    with "2.prems" have "u \<le> a" by force
    with False 2 show ?thesis by (auto simp: set_iv_ins)
  qed
qed

lemma ref_add_normal: "iv_normal s \<Longrightarrow> iv_normal (ref_add s a b)"
  unfolding ref_add_def
  by (auto intro!: iv_ins_normal iv_del_normal dest!: iv_del_bounds)

lemma covers_ref_add: "covers (ref_add s a b) = covers s \<union> {a..<b}"
proof (cases "a < b")
  case True
  have "covers (iv_ins t a b) = covers t \<union> {a..<b}" for t
    by (auto simp: covers_def set_iv_ins)
  with True show ?thesis by (auto simp: ref_add_def covers_del)
qed (simp add: ref_add_def)

lemma ref_sub_normal: "iv_normal s \<Longrightarrow> iv_normal (ref_sub s a b)"
  by (simp add: ref_sub_def iv_del_normal)

lemma covers_ref_sub: "covers (ref_sub s a b) = covers s - {a..<b}"
  by (simp add: ref_sub_def covers_del)

lemma ref_mem_iff: "ref_mem s x \<longleftrightarrow> x \<in> covers s"
  by (auto simp: ref_mem_def covers_def list_ex_iff)

lemma ref_meets_iff: "ref_meets s a b \<longleftrightarrow> covers s \<inter> {a..<b} \<noteq> {}"
proof
  assume "ref_meets s a b"
  then obtain i where i: "i \<in> set s" "max (fst i) a < min (snd i) b"
    by (auto simp: ref_meets_def list_ex_iff)
  then have "max (fst i) a \<in> covers s"
    by (auto simp: covers_def intro!: bexI [of _ i])
  with i show "covers s \<inter> {a..<b} \<noteq> {}" by auto
qed (force simp: ref_meets_def covers_def list_ex_iff)

lemma span_ivl: "span succ lo hi = {above succ lo..<below succ hi}"
  by (auto simp: span_def)

lemma cell_ivl: "cell succ x = {x..<succ x}"
  by (auto simp: cell_def)

lemma ref_ops_laws: "interval_set succ (ref_ops succ)"
  by unfold_locales
     (simp_all add: ref_ops_def ref_add_normal covers_ref_add ref_sub_normal covers_ref_sub
        ref_mem_iff ref_meets_iff span_ivl cell_ivl)

interpretation ref_set: interval_set succ "ref_ops succ" for succ :: "'e::linorder \<Rightarrow> 'e"
  by (rule ref_ops_laws)

end
