(* ===== verification/NetworkAddr.thy ===== *)
theory NetworkAddr
  imports IntervalSet
begin

text \<open>
  The address classes of \<open>overlay/network.hpp\<close>: \<open>overlay::IP\<close> and
  \<open>overlay::Network\<close>, with the orders and the \<open>operator++\<close> and \<open>operator--\<close>
  that the interval sets of free addresses and free subnets rest on.

  An IPv4 address is its host-order 32-bit value and an IPv6 address its 16 bytes
  (\<open>in6_addr::s6_addr\<close>). A network is an address, not necessarily the first of its
  range, and a prefix length; its netmask is always \<open>toMask(prefix, family)\<close>. The
  \<open>index_\<close> members, which only the two step operators read and write, are an explicit
  argument and result of those.
\<close>

section \<open>Addresses\<close>

datatype family = AF_INET | AF_INET6

datatype ip = V4 u32 | V6 "byte list"

fun ip_family :: "ip \<Rightarrow> family" where
  "ip_family (V4 a) = AF_INET"
| "ip_family (V6 a) = AF_INET6"

fun wf_ip :: "ip \<Rightarrow> bool" where
  "wf_ip (V4 a) \<longleftrightarrow> True"
| "wf_ip (V6 a) \<longleftrightarrow> length a = 16"

text \<open>
  \<open>operator<\<close>: addresses of one family numerically (IPv6 as \<open>memcmp\<close> on the bytes), and
  \<open>AF_INET\<close> before \<open>AF_INET6\<close>.
\<close>

fun ip_less :: "ip \<Rightarrow> ip \<Rightarrow> bool" where
  "ip_less (V4 a) (V4 b) \<longleftrightarrow> a < b"
| "ip_less (V6 a) (V6 b) \<longleftrightarrow> a < b"
| "ip_less (V4 a) (V6 b) \<longleftrightarrow> True"
| "ip_less (V6 a) (V4 b) \<longleftrightarrow> False"

instantiation ip :: linorder
begin

definition less_ip :: "ip \<Rightarrow> ip \<Rightarrow> bool" where
  "less_ip a b = ip_less a b"

definition less_eq_ip :: "ip \<Rightarrow> ip \<Rightarrow> bool" where
  "less_eq_ip a b = (a = b \<or> ip_less a b)"

instance
proof
  fix x y z :: ip
  show "(x < y) = (x \<le> y \<and> \<not> y \<le> x)"
    by (cases x; cases y) (auto simp: less_ip_def less_eq_ip_def)
  show "x \<le> x" by (simp add: less_eq_ip_def)
  show "x \<le> y \<Longrightarrow> y \<le> z \<Longrightarrow> x \<le> z"
    by (cases x; cases y; cases z) (auto simp: less_eq_ip_def)
  show "x \<le> y \<Longrightarrow> y \<le> x \<Longrightarrow> x = y"
    by (cases x; cases y) (auto simp: less_eq_ip_def)
  show "x \<le> y \<or> y \<le> x"
    by (cases x; cases y) (auto simp: less_eq_ip_def)
qed

end

lemma ip_less_simps [simp]:
  "V4 a < V4 b \<longleftrightarrow> a < b" "V6 c < V6 d \<longleftrightarrow> c < d" "V4 a < V6 c" "\<not> V6 c < V4 a"
  "V4 a \<le> V4 b \<longleftrightarrow> a \<le> b" "V6 c \<le> V6 d \<longleftrightarrow> c \<le> d" "V4 a \<le> V6 c" "\<not> V6 c \<le> V4 a"
  by (auto simp: less_ip_def less_eq_ip_def)

text \<open>
  The byte loop shared by the two IPv6 increments, over the indices below its bound, last
  first: the first byte that is not \<open>0xff\<close> is incremented; the bytes passed over keep
  their value.
\<close>

fun carry6 :: "nat \<Rightarrow> byte list \<Rightarrow> byte \<Rightarrow> byte list \<times> byte" where
  "carry6 0 a idx = (a, idx)"
| "carry6 (Suc i) a idx =
     (if a ! i \<noteq> 0xff then (a[i := a ! i + 1], of_nat i) else carry6 i a idx)"

fun ip_incr :: "ip \<Rightarrow> byte \<Rightarrow> ip \<times> byte" where
  "ip_incr (V4 a) idx = (V4 (a + 1), idx)"
| "ip_incr (V6 a) idx = (let (a', idx') = carry6 16 a idx in (V6 a', idx'))"

fun ip_decr :: "ip \<Rightarrow> byte \<Rightarrow> (ip \<times> byte) res" where
  "ip_decr (V4 a) idx = Ok (V4 (a - 1), idx)"
| "ip_decr (V6 a) idx =
     (if unat idx < 16 then
        (let b = a ! unat idx - 1
         in Ok (V6 (a[unat idx := b]), if b = 0 then idx - 1 else idx))
      else Crash Undefined_Behaviour)"

definition ip_succ :: "ip \<Rightarrow> ip" where
  "ip_succ a = fst (ip_incr a 0)"

fun ip_convert :: "ip \<Rightarrow> ip res" where
  "ip_convert (V4 a) = Ok (V4 a)"
| "ip_convert (V6 a) = Ok (V6 a)"

section \<open>Networks\<close>

datatype network = Net (naddr: ip) (nprefix: byte)

text \<open>
  \<open>Network::toMask\<close>. The IPv4 branch shifts a 32-bit value by \<open>32 - prefix\<close>, which is
  undefined for a prefix of 0 and above 32; the IPv6 loop writes past the array for a prefix
  above 128.
\<close>

definition mask4 :: "byte \<Rightarrow> u32" where
  "mask4 p = push_bit (32 - unat p) 0xffffffff"

function mask6_loop :: "nat \<Rightarrow> nat \<Rightarrow> byte list \<Rightarrow> byte list res" where
  "mask6_loop p i m =
     (if 8 \<le> p then
        (if i < 16 then mask6_loop (p - 8) (Suc i) (m[i := 0xff])
         else Crash Undefined_Behaviour)
      else if 0 < p then
        (if i < 16 then Ok (m[i := push_bit (8 - p) 0xff]) else Crash Undefined_Behaviour)
      else Ok m)"
  by pat_completeness auto
termination
  by (relation "measure (\<lambda>(p, i, m). p)") auto

declare mask6_loop.simps [simp del]

fun to_mask :: "byte \<Rightarrow> family \<Rightarrow> ip res" where
  "to_mask p AF_INET =
     (if 1 \<le> unat p \<and> unat p \<le> 32 then Ok (V4 (mask4 p)) else Crash Undefined_Behaviour)"
| "to_mask p AF_INET6 = bind_res (mask6_loop (unat p) 0 (replicate 16 0)) (\<lambda>m. Ok (V6 m))"

definition mk_network :: "ip \<Rightarrow> byte \<Rightarrow> network res" where
  "mk_network a p = bind_res (to_mask p (ip_family a)) (\<lambda>_. Ok (Net a p))"

definition netmask :: "network \<Rightarrow> ip res" where
  "netmask n = to_mask (nprefix n) (ip_family (naddr n))"

fun and6 :: "byte list \<Rightarrow> byte list \<Rightarrow> byte list" where
  "and6 a m = map2 (\<lambda>x y. x AND y) a m"

fun or_not6 :: "byte list \<Rightarrow> byte list \<Rightarrow> byte list" where
  "or_not6 a m = map2 (\<lambda>x y. x OR NOT y) a m"

definition net_begin :: "network \<Rightarrow> ip res" where
  "net_begin n = bind_res (netmask n) (\<lambda>m.
     case (naddr n, m) of
       (V4 a, V4 k) \<Rightarrow> Ok (V4 (a AND k))
     | (V6 a, V6 k) \<Rightarrow> Ok (V6 (and6 a k))
     | _ \<Rightarrow> Crash Unreachable)"

definition net_end :: "network \<Rightarrow> ip res" where
  "net_end n = bind_res (netmask n) (\<lambda>m.
     case (naddr n, m) of
       (V4 a, V4 k) \<Rightarrow> Ok (V4 (a OR NOT k))
     | (V6 a, V6 k) \<Rightarrow> Ok (V6 (or_not6 a k))
     | _ \<Rightarrow> Crash Unreachable)"

text \<open>\<open>operator<\<close>: longer prefixes first, then by address.\<close>

fun net_less :: "network \<Rightarrow> network \<Rightarrow> bool" where
  "net_less (Net a p) (Net b q) \<longleftrightarrow> (if p \<noteq> q then p > q else a < b)"

instantiation network :: linorder
begin

definition less_network :: "network \<Rightarrow> network \<Rightarrow> bool" where
  "less_network a b = net_less a b"

definition less_eq_network :: "network \<Rightarrow> network \<Rightarrow> bool" where
  "less_eq_network a b = (a = b \<or> net_less a b)"

instance
proof
  fix x y z :: network
  show "(x < y) = (x \<le> y \<and> \<not> y \<le> x)"
    by (cases x; cases y) (auto simp: less_network_def less_eq_network_def)
  show "x \<le> x" by (simp add: less_eq_network_def)
  show "x \<le> y \<Longrightarrow> y \<le> z \<Longrightarrow> x \<le> z"
    by (cases x; cases y; cases z) (auto simp: less_eq_network_def split: if_splits)
  show "x \<le> y \<Longrightarrow> y \<le> x \<Longrightarrow> x = y"
    by (cases x; cases y) (auto simp: less_eq_network_def split: if_splits)
  show "x \<le> y \<or> y \<le> x"
    by (cases x; cases y) (auto simp: less_eq_network_def)
qed

end

text \<open>\<open>operator++\<close> and \<open>operator--\<close>: the next and the previous network of the same prefix.\<close>

definition net_incr6 :: "byte \<Rightarrow> byte list \<Rightarrow> byte \<Rightarrow> byte list \<times> byte" where
  "net_incr6 p a idx =
     (let start = unat (drop_bit 3 p) in
      if p AND 7 \<noteq> 0 then
        (let bitshift = 8 - unat (p AND 7); lowerbits = drop_bit bitshift (a ! start) in
         if lowerbits AND 7 \<noteq> 7
         then (a[start := push_bit bitshift (lowerbits + 1)], of_nat start)
         else carry6 start a idx)
      else carry6 start a idx)"

fun net_incr :: "network \<Rightarrow> byte \<Rightarrow> network \<times> byte" where
  "net_incr (Net (V4 a) p) idx =
     (Net (V4 (push_bit (32 - unat p) (drop_bit (32 - unat p) a + 1))) p, idx)"
| "net_incr (Net (V6 a) p) idx = (let (a', idx') = net_incr6 p a idx in (Net (V6 a') p, idx'))"

fun net_decr :: "network \<Rightarrow> byte \<Rightarrow> (network \<times> byte) res" where
  "net_decr (Net (V4 a) p) idx =
     Ok (Net (V4 (push_bit (32 - unat p) (drop_bit (32 - unat p) a - 1))) p, idx)"
| "net_decr (Net (V6 a) p) idx =
     (if unat idx < 16 then
        (let i = unat idx;
             b = (if p AND 7 \<noteq> 0 \<and> idx = drop_bit 3 p
                  then push_bit (8 - unat (p AND 7)) (drop_bit (8 - unat (p AND 7)) (a ! i) - 1)
                  else a ! i - 1)
         in Ok (Net (V6 (a[i := b])) p, if b = 0 then idx - 1 else idx))
      else Crash Undefined_Behaviour)"

definition net_succ :: "network \<Rightarrow> network" where
  "net_succ n = fst (net_incr n 0)"

end
