(* ===== verification/NetworkFacts.thy ===== *)
theory NetworkFacts
  imports NetworkAddr
begin

text \<open>
  Facts about the address classes: which networks can be built, the IPv4 address range of a
  network as a block of addresses that share their leading bits, the step operators on IPv4
  networks, and the bytes of an IPv6 mask.
\<close>

fun wf_network :: "network \<Rightarrow> bool" where
  "wf_network (Net (V4 a) p) \<longleftrightarrow> 1 \<le> unat p \<and> unat p \<le> 32"
| "wf_network (Net (V6 a) p) \<longleftrightarrow> length a = 16 \<and> unat p \<le> 128"

section \<open>Masks\<close>

definition mask6_byte :: "nat \<Rightarrow> nat \<Rightarrow> byte" where
  "mask6_byte p i =
     (if 8 * i + 8 \<le> p then 0xff else if 8 * i < p then push_bit (8 * i + 8 - p) 0xff else 0)"

lemma mask6_loop_step:
  "8 \<le> p \<Longrightarrow> i < 16 \<Longrightarrow> mask6_loop p i m = mask6_loop (p - 8) (Suc i) (m[i := 0xff])"
  "p < 8 \<Longrightarrow> 0 < p \<Longrightarrow> i < 16 \<Longrightarrow> mask6_loop p i m = Ok (m[i := push_bit (8 - p) 0xff])"
  "mask6_loop 0 i m = Ok m"
  "0 < p \<Longrightarrow> 16 \<le> i \<Longrightarrow> mask6_loop p i m = Crash Undefined_Behaviour"
  by (simp_all add: mask6_loop.simps [of p i m] mask6_loop.simps [of 0 i m])

lemma mask6_loop_ok:
  "p + 8 * i \<le> 128 \<Longrightarrow> length m = 16 \<Longrightarrow> \<forall>j < 16. i \<le> j \<longrightarrow> m ! j = 0 \<Longrightarrow>
   \<exists>m'. mask6_loop p i m = Ok m' \<and> length m' = 16 \<and>
     (\<forall>j < 16. m' ! j = (if j < i then m ! j else mask6_byte (p + 8 * i) j))"
proof (induction p i m rule: mask6_loop.induct)
  case (1 p i m)
  show ?case
  proof (cases "8 \<le> p")
    case True
    with "1.prems" have i: "i < 16" by simp
    obtain m' where m': "mask6_loop (p - 8) (Suc i) (m[i := 0xff]) = Ok m'" "length m' = 16"
      "\<forall>j < 16. m' ! j =
         (if j < Suc i then m[i := 0xff] ! j else mask6_byte (p - 8 + 8 * Suc i) j)"
      using "1.IH" [OF True i] "1.prems" True by auto
    have p8: "p - 8 + 8 * Suc i = p + 8 * i" using True by simp
    have "m' ! j = (if j < i then m ! j else mask6_byte (p + 8 * i) j)" if "j < 16" for j
    proof -
      note eq = m'(3) [rule_format, OF that, unfolded p8]
      consider "j < i" | "j = i" | "i < j" by linarith
      then show ?thesis
      proof cases
        case 2
        with eq True "1.prems"(2) i have "m' ! j = 0xff" by simp
        with 2 True show ?thesis by (simp add: mask6_byte_def)
      qed (use eq in simp_all)
    qed
    with m'(1,2) True i show ?thesis by (simp add: mask6_loop_step)
  next
    case False
    show ?thesis
    proof (cases "p = 0")
      case True
      with "1.prems" show ?thesis
        by (auto simp: mask6_loop_step mask6_byte_def)
    next
      case p0: False
      with "1.prems" False have i: "i < 16" by simp
      have "m[i := push_bit (8 - p) 0xff] ! j =
          (if j < i then m ! j else mask6_byte (p + 8 * i) j)" if "j < 16" for j
        using that "1.prems" False p0
        by (cases "j = i") (auto simp: mask6_byte_def)
      with "1.prems" False p0 i show ?thesis
        by (simp add: mask6_loop_step)
    qed
  qed
qed

lemma mask6_loop_crash:
  "128 < p + 8 * i \<Longrightarrow> i \<le> 16 \<Longrightarrow> mask6_loop p i m = Crash Undefined_Behaviour"
proof (induction p i m rule: mask6_loop.induct)
  case (1 p i m)
  show ?case
  proof (cases "i < 16")
    case True
    with "1.prems" have "8 \<le> p" by simp
    with 1 True show ?thesis by (simp add: mask6_loop_step)
  next
    case False
    with "1.prems" show ?thesis by (simp add: mask6_loop_step)
  qed
qed

lemma to_mask6_ok:
  assumes "unat p \<le> 128"
  obtains m where "to_mask p AF_INET6 = Ok (V6 m)" "length m = 16"
    "\<And>i. i < 16 \<Longrightarrow> m ! i = mask6_byte (unat p) i"
  using mask6_loop_ok [of "unat p" 0 "replicate 16 0"] assms by auto

lemma to_mask6_crash: "128 < unat p \<Longrightarrow> to_mask p AF_INET6 = Crash Undefined_Behaviour"
  by (simp add: mask6_loop_crash)

section \<open>Which networks exist\<close>

lemma mk_network6 [simp]:
  "unat p \<le> 128 \<Longrightarrow> mk_network (V6 a) p = Ok (Net (V6 a) p)"
  by (rule to_mask6_ok [of p]) (simp_all add: mk_network_def del: to_mask.simps)

lemma mk_network6_crash:
  "128 < unat p \<Longrightarrow> mk_network (V6 a) p = Crash Undefined_Behaviour"
  by (simp add: mk_network_def mask6_loop_crash)

lemma mk_network_OkD: "mk_network a p = Ok n \<Longrightarrow> n = Net a p"
  by (auto simp: mk_network_def res_simps)

lemma mk_network4 [simp]:
  "1 \<le> unat p \<Longrightarrow> unat p \<le> 32 \<Longrightarrow> mk_network (V4 a) p = Ok (Net (V4 a) p)"
  by (simp add: mk_network_def)

lemma mk_network4_crash:
  "\<not> (1 \<le> unat p \<and> unat p \<le> 32) \<Longrightarrow> mk_network (V4 a) p = Crash Undefined_Behaviour"
  by (auto simp: mk_network_def)

lemma mk_network_iff:
  "wf_ip a \<Longrightarrow> mk_network a p = Ok n \<longleftrightarrow> n = Net a p \<and> wf_network n"
  using mk_network6 [of p] mk_network6_crash [of p]
  by (cases a; cases "unat p \<le> 128") (auto simp: mk_network_def)

lemma mk_network_not_error: "mk_network a p \<noteq> Error e"
  using mk_network6 [of p] mk_network6_crash [of p]
  by (cases a; cases "unat p \<le> 128") (auto simp: mk_network_def)

section \<open>IPv4 networks as blocks\<close>

definition host_bits :: "byte \<Rightarrow> nat" where
  "host_bits p = 32 - unat p"

definition block :: "byte \<Rightarrow> u32 \<Rightarrow> nat" where
  "block p a = unat a div 2 ^ host_bits p"

lemma mask4_bit: "bit (mask4 p) i \<longleftrightarrow> host_bits p \<le> i \<and> i < 32"
proof -
  have "(0xffffffff :: u32) = - 1" by simp
  then have "mask4 p = push_bit (host_bits p) (- 1)"
    by (simp only: mask4_def host_bits_def)
  then show ?thesis by (auto simp: bit_simps)
qed

lemma and_mask4: "a AND mask4 p = push_bit (host_bits p) (drop_bit (host_bits p) a)"
  by (rule bit_word_eqI) (auto simp: bit_simps mask4_bit)

lemma or_not_mask4: "a OR NOT (mask4 p) = a OR mask (host_bits p)"
  by (rule bit_word_eqI) (auto simp: bit_simps mask4_bit)

lemma unat_drop: "unat (drop_bit k (a :: u32)) = unat a div 2 ^ k"
  by (subst unat_drop_bit_eq) (simp add: drop_bit_eq_div)

lemma unat_and_mask4: "unat (a AND mask4 p) = block p a * 2 ^ host_bits p"
proof -
  have lt: "unat a div 2 ^ host_bits p * 2 ^ host_bits p < 2 ^ 32"
    by (rule le_less_trans [OF div_times_less_eq_dividend]) (use unsigned_less [of a, where 'a = nat] in simp)
  have "unat (push_bit k (w :: u32)) = unat w * 2 ^ k mod 2 ^ 32" for k w
    by (subst unsigned_push_bit_eq) (simp add: push_bit_eq_mult take_bit_eq_mod)
  then show ?thesis
    using lt by (simp add: and_mask4 unat_drop block_def)
qed

lemma host_bits_le: "1 \<le> unat p \<Longrightarrow> host_bits p < 32"
  by (simp add: host_bits_def)

lemma unat_or_not_mask4:
  "unat (a OR NOT (mask4 p)) = block p a * 2 ^ host_bits p + (2 ^ host_bits p - 1)"
proof -
  have "a OR NOT (mask4 p) = (a AND mask4 p) + mask (host_bits p)"
  proof -
    have "a OR NOT (mask4 p) = (a AND mask4 p) OR mask (host_bits p)"
      by (rule bit_word_eqI) (auto simp: bit_simps mask4_bit)
    also have "\<dots> = (a AND mask4 p) + mask (host_bits p)"
      by (rule disjunctive_add [symmetric]) (auto simp: bit_simps mask4_bit)
    finally show ?thesis .
  qed
  moreover have "unat (mask (host_bits p) :: u32) = 2 ^ host_bits p - 1"
  proof -
    have "min 32 (host_bits p) = host_bits p" by (simp add: host_bits_def)
    moreover have "(mask (host_bits p) :: u32) = of_nat (mask (host_bits p))"
      by (simp only: of_nat_mask_eq)
    then have "unat (mask (host_bits p) :: u32) = mask (min 32 (host_bits p))"
      by (simp add: unsigned_of_nat take_bit_of_mask del: of_nat_mask_eq)
    ultimately show ?thesis by (simp add: mask_nat_def)
  qed
  moreover have "block p a * 2 ^ host_bits p + (2 ^ host_bits p - 1) < 2 ^ 32"
  proof -
    have "(2::nat) ^ 32 = 2 ^ (32 - host_bits p) * 2 ^ host_bits p"
      by (simp add: host_bits_def flip: power_add)
    moreover from this have "block p a < 2 ^ (32 - host_bits p)"
      using unsigned_less [of a, where 'a = nat]
      by (simp add: block_def less_mult_imp_div_less)
    then have "Suc (block p a) * 2 ^ host_bits p \<le> 2 ^ (32 - host_bits p) * 2 ^ host_bits p"
      by (intro mult_le_mono1) simp
    moreover have "(0::nat) < 2 ^ host_bits p" by simp
    ultimately show ?thesis by simp
  qed
  ultimately show ?thesis
    by (simp add: unat_plus_if' unat_and_mask4)
qed

section \<open>IPv4 address ranges\<close>

lemma div_eq_iff_between:
  fixes x m b :: nat
  assumes "0 < m"
  shows "x div m = b \<longleftrightarrow> b * m \<le> x \<and> x \<le> b * m + (m - 1)"
proof -
  have "x div m = b \<longleftrightarrow> b \<le> x div m \<and> x div m < Suc b" by auto
  also have "\<dots> \<longleftrightarrow> b * m \<le> x \<and> x < Suc b * m"
    using assms by (simp only: less_eq_div_iff_mult_less_eq div_less_iff_less_mult)
  finally show ?thesis using assms by auto
qed

definition addr_range :: "network \<Rightarrow> ip set" where
  "addr_range n = {x. \<exists>b e. net_begin n = Ok b \<and> net_end n = Ok e \<and> b \<le> x \<and> x \<le> e}"

definition aligned4 :: "byte \<Rightarrow> u32 \<Rightarrow> bool" where
  "aligned4 p a \<longleftrightarrow> a AND mask4 p = a"

lemma net_begin4:
  "wf_network (Net (V4 a) p) \<Longrightarrow> net_begin (Net (V4 a) p) = Ok (V4 (a AND mask4 p))"
  by (simp add: net_begin_def netmask_def)

lemma net_end4:
  "wf_network (Net (V4 a) p) \<Longrightarrow> net_end (Net (V4 a) p) = Ok (V4 (a OR NOT (mask4 p)))"
  by (simp add: net_end_def netmask_def)

lemma in_block_iff:
  "block p c = block p a \<longleftrightarrow> a AND mask4 p \<le> c \<and> c \<le> a OR NOT (mask4 p)"
proof -
  have "block p c = b \<longleftrightarrow> b * 2 ^ host_bits p \<le> unat c \<and>
      unat c \<le> b * 2 ^ host_bits p + (2 ^ host_bits p - 1)" for b
    by (simp add: block_def div_eq_iff_between)
  then show ?thesis
    by (simp add: word_le_nat_alt unat_and_mask4 unat_or_not_mask4)
qed

lemma addr_range4:
  assumes "wf_network (Net (V4 a) p)"
  shows "addr_range (Net (V4 a) p) = {V4 c | c. block p c = block p a}"
proof -
  have "x \<in> addr_range (Net (V4 a) p) \<longleftrightarrow> (\<exists>c. x = V4 c \<and> block p c = block p a)" for x
    using assms
    by (cases x) (auto simp: addr_range_def net_begin4 net_end4 in_block_iff)
  then show ?thesis by auto
qed

lemma aligned4_iff: "aligned4 p a \<longleftrightarrow> unat a = block p a * 2 ^ host_bits p"
  by (metis aligned4_def unat_and_mask4 word_unat_eq_iff)

lemma aligned4_and_mask: "aligned4 p (a AND mask4 p)"
  by (simp add: aligned4_def ac_simps)

lemma aligned4_inj: "aligned4 p a \<Longrightarrow> aligned4 p b \<Longrightarrow> block p a = block p b \<Longrightarrow> a = b"
  by (simp add: aligned4_iff word_unat_eq_iff)

lemma block_and_mask [simp]: "block p (a AND mask4 p) = block p a"
  by (simp add: block_def unat_and_mask4)

lemma block_mono: "a \<le> b \<Longrightarrow> block p a \<le> block p b"
  by (simp add: block_def word_le_nat_alt div_le_mono)

section \<open>Steps between IPv4 networks\<close>

lemma mult_mod_bound:
  fixes s b k :: nat
  assumes "s \<le> b"
  shows "s * k mod (b * k) = (if s = b then 0 else s * k)"
  using assms by (simp add: mod_mult_mult2)

definition next4 :: "byte \<Rightarrow> u32 \<Rightarrow> u32" where
  "next4 p a = push_bit (host_bits p) (drop_bit (host_bits p) a + 1)"

lemma net_succ4: "net_succ (Net (V4 a) p) = Net (V4 (next4 p a)) p"
  by (simp add: net_succ_def next4_def host_bits_def)

lemma block_less: "block p a < 2 ^ (32 - host_bits p)"
proof -
  have "(2::nat) ^ 32 = 2 ^ (32 - host_bits p) * 2 ^ host_bits p"
    by (simp add: host_bits_def flip: power_add)
  then show ?thesis
    using unsigned_less [of a, where 'a = nat] by (simp add: block_def less_mult_imp_div_less)
qed

lemma unat_next4:
  "unat (next4 p a) =
   (if Suc (block p a) = 2 ^ (32 - host_bits p) then 0 else Suc (block p a) * 2 ^ host_bits p)"
proof -
  have pw: "(2::nat) ^ 32 = 2 ^ (32 - host_bits p) * 2 ^ host_bits p"
    by (simp add: host_bits_def flip: power_add)
  have "unat (push_bit k (w :: u32)) = unat w * 2 ^ k mod 2 ^ 32" for k w
    by (subst unsigned_push_bit_eq) (simp add: push_bit_eq_mult take_bit_eq_mod)
  moreover have "unat (drop_bit k (a :: u32) + 1) * 2 ^ k mod 2 ^ 32 =
      Suc (unat a div 2 ^ k) * 2 ^ k mod 2 ^ 32" for k
    by (simp add: unat_word_ariths unat_drop mod_mult_left_eq del: drop_bit_eq_div)
  ultimately have "unat (next4 p a) = Suc (block p a) * 2 ^ host_bits p mod 2 ^ 32"
    by (simp add: next4_def block_def)
  moreover have "Suc (block p a) \<le> 2 ^ (32 - host_bits p)"
    using block_less [of p a] by simp
  ultimately show ?thesis
    by (simp only: pw mult_mod_bound)
qed

definition last_block :: "byte \<Rightarrow> u32 \<Rightarrow> bool" where
  "last_block p a \<longleftrightarrow> Suc (block p a) = 2 ^ (32 - host_bits p)"

lemma next4_last: "last_block p a \<Longrightarrow> next4 p a = 0"
  by (simp add: last_block_def word_unat_eq_iff unat_next4)

lemma next4_aligned: "aligned4 p (next4 p a)"
proof (cases "last_block p a")
  case True
  then show ?thesis by (simp add: next4_last aligned4_def)
next
  case False
  then show ?thesis
    by (simp add: aligned4_iff block_def unat_next4 last_block_def)
qed

lemma block_next4: "\<not> last_block p a \<Longrightarrow> block p (next4 p a) = Suc (block p a)"
  by (simp add: block_def [of p "next4 p a"] unat_next4 last_block_def)

lemma less_next4_iff:
  assumes "\<not> last_block p a"
  shows "c < next4 p a \<longleftrightarrow> block p c \<le> block p a"
proof -
  have "c < next4 p a \<longleftrightarrow> unat c < Suc (block p a) * 2 ^ host_bits p"
    using assms by (simp add: word_less_nat_alt unat_next4 last_block_def)
  also have "\<dots> \<longleftrightarrow> unat c div 2 ^ host_bits p < Suc (block p a)"
    by (simp only: div_less_iff_less_mult zero_less_power zero_less_numeral)
  finally show ?thesis by (simp add: block_def less_Suc_eq_le)
qed

lemma last_block_greatest: "last_block p a \<Longrightarrow> block p c \<le> block p a"
  using block_less [of p c] by (simp add: last_block_def)

lemma aligned4_le_iff: "aligned4 p a \<Longrightarrow> a \<le> c \<longleftrightarrow> block p a \<le> block p c"
  by (simp add: word_le_nat_alt aligned4_iff block_def less_eq_div_iff_mult_less_eq)

text \<open>What lies between two IPv4 networks of one prefix, in the order of the free lists.\<close>

lemma between4_iff:
  "Net (V4 a) p \<le> y \<and> y < Net (V4 b) p \<longleftrightarrow> (\<exists>c. y = Net (V4 c) p \<and> a \<le> c \<and> c < b)"
proof (cases y)
  case (Net x q)
  then show ?thesis
    by (cases x) (auto simp: less_eq_network_def less_network_def less_ip_def)
qed

lemma cell4:
  assumes "aligned4 p a" "\<not> last_block p a"
  shows "cell net_succ (Net (V4 a) p) = {Net (V4 c) p | c. block p c = block p a}"
  using assms
  by (auto simp: cell_def net_succ4 between4_iff less_next4_iff aligned4_le_iff)

lemma cell4_last:
  assumes "last_block p a"
  shows "cell net_succ (Net (V4 a) p) = {}"
  using assms by (auto simp: cell_def net_succ4 next4_last between4_iff)

lemma span4:
  assumes "aligned4 p a" "\<not> last_block p b"
  shows "span net_succ (Closed (Net (V4 a) p)) (Closed (Net (V4 b) p)) =
    {Net (V4 c) p | c. block p a \<le> block p c \<and> block p c \<le> block p b}"
  using assms
  by (auto simp: span_def net_succ4 between4_iff less_next4_iff aligned4_le_iff)

lemma span4_last:
  assumes "last_block p b"
  shows "span net_succ (Closed (Net (V4 a) p)) (Closed (Net (V4 b) p)) = {}"
  using assms by (auto simp: span_def net_succ4 next4_last between4_iff)

text \<open>IPv4 addresses: the successor is the next address, except for the last one.\<close>

lemma ip_succ4: "ip_succ (V4 a) = V4 (a + 1)"
  by (simp add: ip_succ_def)

lemma less_plus_one:
  fixes a c :: u32
  assumes "a \<noteq> - 1"
  shows "c < a + 1 \<longleftrightarrow> c \<le> a"
proof -
  have "unat a \<noteq> 2 ^ 32 - 1"
    using assms by (simp add: word_unat_eq_iff unsigned_minus_1_eq_mask mask_nat_def)
  with unsigned_less [of a, where 'a = nat] have "unat (a + 1) = Suc (unat a)"
    by (simp add: unat_plus_if')
  then show ?thesis by (simp add: word_less_nat_alt word_le_nat_alt less_Suc_eq_le)
qed

lemma ip_between4_iff:
  "V4 a \<le> y \<and> y < V4 b \<longleftrightarrow> (\<exists>c. y = V4 c \<and> a \<le> c \<and> c < b)"
  by (cases y) auto

lemma ip_cell4: "a \<noteq> - 1 \<Longrightarrow> cell ip_succ (V4 a) = {V4 a}"
  by (auto simp: cell_def ip_succ4 ip_between4_iff less_plus_one)

lemma ip_cell4_last: "cell ip_succ (V4 (- 1)) = {}"
  by (auto simp: cell_def ip_succ4 ip_between4_iff)

lemma ip_span4_open:
  "span ip_succ (Open (V4 a)) (Open (V4 b)) = {V4 c | c. a + 1 \<le> c \<and> c < b}"
  by (auto simp: span_def ip_succ4 ip_between4_iff)

end
