(* ===== verification/Stout.thy ===== *)
theory Stout
  imports NetworkFacts
begin

text \<open>
  What the overlay modules use of stout, which is not part of this repository: the interval
  sets, the parsing and printing of addresses and networks, and the splitting of strings.
  They are the fields of a record that the model's definitions take as an argument; the
  locale \<open>stout_lib\<close> states the documented behaviour the properties rely on: the laws of
  the interval sets, that parsing inverts printing, and that parsing yields an address of the
  requested family with a prefix length of that family. \<open>ref_lib\<close> is a reference instance,
  on which the locale is interpreted and the witnesses are evaluated.
\<close>

record stout =
  ip_ivs :: "ip iv_ops"                                   \<comment> \<open>\<open>IntervalSet<IP>\<close>\<close>
  net_ivs :: "network iv_ops"                             \<comment> \<open>\<open>IntervalSet<Network>\<close>\<close>
  parse_ip :: "family \<Rightarrow> string \<Rightarrow> ip option"             \<comment> \<open>\<open>net::IP::parse\<close>\<close>
  parse_net :: "family \<Rightarrow> string \<Rightarrow> (ip \<times> byte) option"   \<comment> \<open>\<open>net::IP::Network::parse\<close>\<close>
  show_ip :: "ip \<Rightarrow> string"                               \<comment> \<open>\<open>stringify\<close>\<close>
  show_net :: "network \<Rightarrow> string"
  show_mac :: "byte list \<Rightarrow> string"
  str_split :: "string \<Rightarrow> string \<Rightarrow> string list"          \<comment> \<open>\<open>strings::split\<close>\<close>

text \<open>\<open>IP::parse\<close> and \<open>Network::parse\<close> of \<open>network.hpp\<close>, over the library's parsers.\<close>

definition ovl_ip_parse :: "stout \<Rightarrow> family \<Rightarrow> string \<Rightarrow> ip res" where
  "ovl_ip_parse lib f s =
     (case parse_ip lib f s of None \<Rightarrow> Error Parse_Failed | Some a \<Rightarrow> ip_convert a)"

definition network_parse :: "stout \<Rightarrow> family \<Rightarrow> string \<Rightarrow> network res" where
  "network_parse lib f s =
     (case parse_net lib f s of
        None \<Rightarrow> Error Parse_Failed
      | Some (a, p) \<Rightarrow> mk_network a p)"

fun max_prefix :: "family \<Rightarrow> nat" where
  "max_prefix AF_INET = 32"
| "max_prefix AF_INET6 = 128"

locale stout_lib =
  fixes lib :: stout
  assumes ip_laws: "interval_set ip_succ (ip_ivs lib)"
    and net_laws: "interval_set net_succ (net_ivs lib)"
    and parse_show_ip: "wf_ip a \<Longrightarrow> parse_ip lib (ip_family a) (show_ip lib a) = Some a"
    and parse_ip_wf: "parse_ip lib f s = Some a \<Longrightarrow> ip_family a = f \<and> wf_ip a"
    and parse_show_net: "wf_network n \<Longrightarrow>
      parse_net lib (ip_family (naddr n)) (show_net lib n) = Some (naddr n, nprefix n)"
    and parse_net_wf: "parse_net lib f s = Some (a, p) \<Longrightarrow>
      ip_family a = f \<and> wf_ip a \<and> unat p \<le> max_prefix f"

sublocale stout_lib \<subseteq> ips: interval_set ip_succ "ip_ivs lib"
  by (rule ip_laws)

sublocale stout_lib \<subseteq> nets: interval_set net_succ "net_ivs lib"
  by (rule net_laws)

lemma ip_convert_Ok [simp]: "ip_convert a = Ok a"
  by (cases a) simp_all

context stout_lib
begin

lemma network_parse_Ok:
  assumes "network_parse lib f s = Ok n"
  shows "wf_network n" "ip_family (naddr n) = f" "parse_net lib f s = Some (naddr n, nprefix n)"
proof -
  from assms obtain a p where ap: "parse_net lib f s = Some (a, p)" "mk_network a p = Ok n"
    by (auto simp: network_parse_def split: option.splits)
  with parse_net_wf [OF ap(1)] have n: "n = Net a p" "wf_network n"
    by (auto simp: mk_network_iff)
  from n(2) show "wf_network n" .
  from n(1) ap parse_net_wf [OF ap(1)]
  show "ip_family (naddr n) = f" "parse_net lib f s = Some (naddr n, nprefix n)" by simp_all
qed

lemma network_parse_show:
  assumes "wf_network n"
  shows "network_parse lib (ip_family (naddr n)) (show_net lib n) = Ok n"
proof -
  have "wf_ip (naddr n)" using assms by (cases n rule: wf_network.cases) simp_all
  then have "mk_network (naddr n) (nprefix n) = Ok n"
    using assms by (cases n) (simp add: mk_network_iff)
  then show ?thesis by (simp add: network_parse_def parse_show_net [OF assms])
qed

lemma network_parse_show4 [simp]:
  "1 \<le> unat p \<Longrightarrow> unat p \<le> 32 \<Longrightarrow>
   network_parse lib AF_INET (show_net lib (Net (V4 a) p)) = Ok (Net (V4 a) p)"
  using network_parse_show [of "Net (V4 a) p"] by simp

lemma ovl_ip_parse_show [simp]: "ovl_ip_parse lib AF_INET (show_ip lib (V4 a)) = Ok (V4 a)"
  using parse_show_ip [of "V4 a"] by (simp add: ovl_ip_parse_def)

lemma show_ip_inj: "wf_ip a \<Longrightarrow> wf_ip b \<Longrightarrow> ip_family a = ip_family b \<Longrightarrow>
    show_ip lib a = show_ip lib b \<Longrightarrow> a = b"
  by (metis parse_show_ip option.inject)

end

section \<open>A reference text format\<close>

fun ref_split :: "char \<Rightarrow> string \<Rightarrow> string list" where
  "ref_split c [] = [[]]"
| "ref_split c (x # xs) =
     (if x = c then [] # ref_split c xs
      else (case ref_split c xs of [] \<Rightarrow> [[x]] | t # ts \<Rightarrow> (x # t) # ts))"

fun ref_join :: "char \<Rightarrow> string list \<Rightarrow> string" where
  "ref_join c [] = []"
| "ref_join c [s] = s"
| "ref_join c (s # t # ss) = s @ c # ref_join c (t # ss)"

lemma ref_split_nonempty: "ref_split c s \<noteq> []"
  by (induction c s rule: ref_split.induct) (auto split: list.splits)

lemma ref_split_plain: "c \<notin> set s \<Longrightarrow> ref_split c s = [s]"
  by (induction c s rule: ref_split.induct) auto

lemma ref_split_append: "c \<notin> set s \<Longrightarrow> ref_split c (s @ c # t) = s # ref_split c t"
  by (induction s) auto

lemma ref_split_join:
  "ss \<noteq> [] \<Longrightarrow> \<forall>s \<in> set ss. c \<notin> set s \<Longrightarrow> ref_split c (ref_join c ss) = ss"
  by (induction c ss rule: ref_join.induct) (simp_all add: ref_split_plain ref_split_append)

function ref_dec :: "nat \<Rightarrow> string" where
  "ref_dec n = (if n < 10 then [char_of (48 + n)] else ref_dec (n div 10) @ [char_of (48 + n mod 10)])"
  by pat_completeness auto
termination by (relation "measure id") auto

declare ref_dec.simps [simp del]

definition ref_digit :: "char \<Rightarrow> nat option" where
  "ref_digit c = (if 48 \<le> (of_char c :: nat) \<and> (of_char c :: nat) < 58 then Some (of_char c - 48) else None)"

fun ref_num_acc :: "nat \<Rightarrow> string \<Rightarrow> nat option" where
  "ref_num_acc acc [] = Some acc"
| "ref_num_acc acc (c # cs) =
     (case ref_digit c of None \<Rightarrow> None | Some d \<Rightarrow> ref_num_acc (10 * acc + d) cs)"

definition ref_num :: "string \<Rightarrow> nat option" where
  "ref_num s = (if s = [] then None else ref_num_acc 0 s)"

lemma ref_digit_char: "d < 10 \<Longrightarrow> ref_digit (char_of (48 + d)) = Some d"
  by (simp add: ref_digit_def)

lemma ref_num_acc_append:
  "ref_num_acc acc (s @ t) =
   (case ref_num_acc acc s of None \<Rightarrow> None | Some m \<Rightarrow> ref_num_acc m t)"
  by (induction acc s rule: ref_num_acc.induct) (auto split: option.splits)

lemma ref_dec_nonempty [simp]: "ref_dec n \<noteq> []"
  by (subst ref_dec.simps) simp

lemma ref_num_acc_dec: "ref_num_acc 0 (ref_dec n) = Some n"
proof (induction n rule: ref_dec.induct)
  case (1 n)
  show ?case
  proof (cases "n < 10")
    case True
    then show ?thesis by (subst ref_dec.simps) (simp add: ref_digit_char)
  next
    case False
    then show ?thesis
      using 1 by (subst ref_dec.simps) (simp add: ref_num_acc_append ref_digit_char)
  qed
qed

lemma ref_num_dec [simp]: "ref_num (ref_dec n) = Some n"
  by (simp add: ref_num_def ref_num_acc_dec)

lemma ref_dec_chars: "c \<in> set (ref_dec n) \<Longrightarrow> \<exists>d < 10. c = char_of (48 + d :: nat)"
proof (induction n rule: ref_dec.induct)
  case (1 n)
  show ?case
  proof (cases "n < 10")
    case True
    with "1.prems" show ?thesis by (subst (asm) ref_dec.simps) auto
  next
    case False
    with 1 show ?thesis
      by (subst (asm) (2) ref_dec.simps) (auto intro: exI [of _ "n mod 10"])
  qed
qed

lemma ref_dec_no_sep:
  "CHR ''.'' \<notin> set (ref_dec n)" "CHR '':'' \<notin> set (ref_dec n)" "CHR ''/'' \<notin> set (ref_dec n)"
proof -
  have *: "(of_char c :: nat) \<ge> 48 \<and> (of_char c :: nat) < 58" if "c \<in> set (ref_dec n)" for c
    using ref_dec_chars [OF that] by auto
  show "CHR ''.'' \<notin> set (ref_dec n)" using * [of "CHR ''.''"] by auto
  show "CHR '':'' \<notin> set (ref_dec n)" using * [of "CHR '':''"] by auto
  show "CHR ''/'' \<notin> set (ref_dec n)" using * [of "CHR ''/''"] by auto
qed

definition ref_bytes :: "string list \<Rightarrow> byte list option" where
  "ref_bytes ss =
     (let ns = map ref_num ss in
      if list_all (\<lambda>x. case x of None \<Rightarrow> False | Some n \<Rightarrow> n < 256) ns
      then Some (map (\<lambda>x. of_nat (the x)) ns) else None)"

definition ref_show_bytes :: "char \<Rightarrow> byte list \<Rightarrow> string" where
  "ref_show_bytes c bs = ref_join c (map (\<lambda>b. ref_dec (unat b)) bs)"

lemma ref_bytes_dec [simp]: "ref_bytes (map (\<lambda>b. ref_dec (unat b)) bs) = Some bs"
proof -
  have "unat b < 256" for b :: byte using unsigned_less [of b, where 'a = nat] by simp
  then show ?thesis by (simp add: ref_bytes_def list_all_iff comp_def)
qed

lemma ref_split_bytes:
  assumes "bs \<noteq> []" "c = CHR ''.'' \<or> c = CHR '':''"
  shows "ref_split c (ref_show_bytes c bs) = map (\<lambda>b. ref_dec (unat b)) bs"
  unfolding ref_show_bytes_def
  using assms ref_dec_no_sep by (intro ref_split_join) auto

definition bytes_of4 :: "u32 \<Rightarrow> byte list" where
  "bytes_of4 a = [ucast (drop_bit 24 a), ucast (drop_bit 16 a), ucast (drop_bit 8 a), ucast a]"

fun of_bytes4 :: "byte list \<Rightarrow> u32" where
  "of_bytes4 [x, y, z, w] =
     push_bit 24 (ucast x) OR push_bit 16 (ucast y) OR push_bit 8 (ucast z) OR ucast w"
| "of_bytes4 _ = 0"

lemma of_bytes4_of4 [simp]: "of_bytes4 (bytes_of4 a) = a"
proof (rule bit_word_eqI)
  fix n :: nat
  assume "n < LENGTH(32)"
  then consider "n < 8" | "8 \<le> n" "n < 16" | "16 \<le> n" "n < 24" | "24 \<le> n" "n < 32" by fastforce
  then show "bit (of_bytes4 (bytes_of4 a)) n = bit a n"
    by cases (auto simp: bytes_of4_def bit_simps)
qed

fun ref_show_ip :: "ip \<Rightarrow> string" where
  "ref_show_ip (V4 a) = ref_show_bytes CHR ''.'' (bytes_of4 a)"
| "ref_show_ip (V6 bs) = ref_show_bytes CHR '':'' bs"

fun ref_parse_ip :: "family \<Rightarrow> string \<Rightarrow> ip option" where
  "ref_parse_ip AF_INET s =
     (case ref_bytes (ref_split CHR ''.'' s) of
        None \<Rightarrow> None
      | Some bs \<Rightarrow> if length bs = 4 then Some (V4 (of_bytes4 bs)) else None)"
| "ref_parse_ip AF_INET6 s =
     (case ref_bytes (ref_split CHR '':'' s) of
        None \<Rightarrow> None
      | Some bs \<Rightarrow> if length bs = 16 then Some (V6 bs) else None)"

text \<open>
  Code equations of the printing functions over the integers, which the witnesses evaluate.
\<close>

definition dec_digit :: "int \<Rightarrow> char" where
  "dec_digit k = ''0123456789'' ! nat k"

definition dec_int :: "int \<Rightarrow> string" where
  "dec_int k =
     (if k < 10 then [dec_digit k]
      else if k < 100 then [dec_digit (k div 10), dec_digit (k mod 10)]
      else [dec_digit (k div 100), dec_digit (k div 10 mod 10), dec_digit (k mod 10)])"

lemma dec_digit_nat: "n < 10 \<Longrightarrow> dec_digit (int n) = char_of (48 + n)"
proof -
  have "\<forall>n \<in> {0..<10::nat}. dec_digit (int n) = char_of (48 + n)" by code_simp
  then show "n < 10 \<Longrightarrow> dec_digit (int n) = char_of (48 + n)" by simp
qed

lemma dec_int_nat: "n < 1000 \<Longrightarrow> dec_int (int n) = ref_dec n"
proof -
  assume "n < 1000"
  have small: "ref_dec k = [dec_digit (int k)]" if "k < 10" for k
    using that by (subst ref_dec.simps) (simp add: dec_digit_nat)
  have digit: "char_of (48 + k mod 10) = dec_digit (int k mod 10)" for k :: nat
    using dec_digit_nat [of "k mod 10"] by (simp add: zmod_int)
  have two: "ref_dec k = [dec_digit (int k div 10), dec_digit (int k mod 10)]"
    if "10 \<le> k" "k < 100" for k
    using that small [of "k div 10"] by (subst ref_dec.simps) (simp add: digit zdiv_int)
  consider "n < 10" | "10 \<le> n" "n < 100" | "100 \<le> n" by linarith
  then show ?thesis
  proof cases
    case 3
    with \<open>n < 1000\<close> two [of "n div 10"] show ?thesis
      by (subst ref_dec.simps) (simp add: dec_int_def digit zdiv_int zdiv_zmult2_eq [symmetric])
  qed (simp_all add: dec_int_def small two)
qed

lemma ref_dec_byte: "ref_dec (unat b) = dec_int (uint (b :: byte))"
  using dec_int_nat [of "unat b"] unsigned_less [of b, where 'a = nat] by simp

lemma ref_show_bytes_code [code]:
  "ref_show_bytes c bs = ref_join c (map (\<lambda>b. dec_int (uint b)) bs)"
  by (simp add: ref_show_bytes_def ref_dec_byte)

lemma uint_drop_bit: "uint (drop_bit n a) = uint (a :: u32) div 2 ^ n"
proof -
  have "uint (drop_bit n a) = drop_bit n (take_bit LENGTH(32) (uint a))"
    by (rule unsigned_drop_bit_eq)
  also have "take_bit LENGTH(32) (uint a) = uint a" by (rule bintr_uint) simp
  finally show ?thesis unfolding drop_bit_eq_div .
qed

lemma ucast_byte: "uint (ucast (drop_bit n a) :: byte) = uint (a :: u32) div 2 ^ n mod 256"
proof -
  have "uint (ucast (drop_bit n a) :: byte) = take_bit 8 (uint (drop_bit n a))"
    by (simp add: unsigned_ucast_eq)
  then show ?thesis unfolding uint_drop_bit by (simp add: take_bit_eq_mod)
qed

lemma ref_show_ip_code [code]:
  "ref_show_ip (V4 a) =
     (let k = uint a in
      ref_join CHR ''.'' (map dec_int [k div 16777216 mod 256, k div 65536 mod 256, k div 256 mod 256, k mod 256]))"
  "ref_show_ip (V6 bs) = ref_show_bytes CHR '':'' bs"
  using ucast_byte [of 0 a]
  by (simp_all add: ref_show_bytes_code bytes_of4_def ucast_byte Let_def)

definition ref_show_net :: "network \<Rightarrow> string" where
  "ref_show_net n = ref_show_ip (naddr n) @ CHR ''/'' # ref_dec (unat (nprefix n))"

lemma ref_show_net_code [code]:
  "ref_show_net n = ref_show_ip (naddr n) @ CHR ''/'' # dec_int (uint (nprefix n))"
  by (simp add: ref_show_net_def ref_dec_byte)

definition ref_parse_net :: "family \<Rightarrow> string \<Rightarrow> (ip \<times> byte) option" where
  "ref_parse_net f s =
     (case ref_split CHR ''/'' s of
        [x, y] \<Rightarrow>
          (case (ref_parse_ip f x, ref_num y) of
             (Some a, Some p) \<Rightarrow> if p \<le> max_prefix f then Some (a, of_nat p) else None
           | _ \<Rightarrow> None)
      | _ \<Rightarrow> None)"

definition ref_lib :: stout where
  "ref_lib =
    \<lparr>ip_ivs = ref_ops ip_succ,
     net_ivs = ref_ops net_succ,
     parse_ip = ref_parse_ip,
     parse_net = ref_parse_net,
     show_ip = ref_show_ip,
     show_net = ref_show_net,
     show_mac = ref_show_bytes CHR '':'',
     str_split = (\<lambda>s sep. case sep of [c] \<Rightarrow> ref_split c s | _ \<Rightarrow> [s])\<rparr>"

lemma ref_parse_show_ip: "wf_ip a \<Longrightarrow> ref_parse_ip (ip_family a) (ref_show_ip a) = Some a"
proof (cases a)
  case (V4 b)
  have "bytes_of4 b \<noteq> []" "length (bytes_of4 b) = 4" by (simp_all add: bytes_of4_def)
  then show ?thesis using V4 by (simp add: ref_split_bytes)
next
  case (V6 bs)
  assume "wf_ip a"
  with V6 have "bs \<noteq> []" "length bs = 16" by auto
  then show ?thesis using V6 by (simp add: ref_split_bytes)
qed

lemma set_ref_join: "set (ref_join c ss) \<subseteq> insert c (\<Union>(set ` set ss))"
  by (induction c ss rule: ref_join.induct) auto

lemma ref_show_ip_no_slash: "CHR ''/'' \<notin> set (ref_show_ip a)"
proof -
  have "CHR ''/'' \<notin> set (ref_show_bytes c bs)" if "c = CHR ''.'' \<or> c = CHR '':''" for c bs
    using that set_ref_join [of c "map (\<lambda>b. ref_dec (unat b)) bs"] ref_dec_no_sep(3)
    by (auto simp: ref_show_bytes_def)
  then show ?thesis by (cases a) simp_all
qed

lemma ref_parse_ip_wf: "ref_parse_ip f s = Some a \<Longrightarrow> ip_family a = f \<and> wf_ip a"
  by (cases f) (auto split: option.splits if_splits)

lemma ref_split_slash:
  "ref_split CHR ''/'' (ref_show_net n) = [ref_show_ip (naddr n), ref_dec (unat (nprefix n))]"
  by (simp add: ref_show_net_def ref_split_append ref_show_ip_no_slash ref_split_plain
      ref_dec_no_sep)

lemma wf_network_parts:
  "wf_network n \<Longrightarrow> wf_ip (naddr n) \<and> unat (nprefix n) \<le> max_prefix (ip_family (naddr n))"
  by (cases n rule: wf_network.cases) simp_all

lemma ref_parse_net_wf:
  assumes "ref_parse_net f s = Some (a, p)"
  shows "ip_family a = f \<and> wf_ip a \<and> unat p \<le> max_prefix f"
proof -
  from assms obtain x m where m: "ref_parse_ip f x = Some a" "m \<le> max_prefix f" "p = of_nat m"
    by (auto simp: ref_parse_net_def split: list.splits option.splits if_splits)
  moreover have "max_prefix f < 256" by (cases f) simp_all
  ultimately show ?thesis
    using ref_parse_ip_wf [OF m(1)] by (simp add: unsigned_of_nat take_bit_nat_eq_self)
qed

lemma ref_parse_show_net:
  "wf_network n \<Longrightarrow>
   ref_parse_net (ip_family (naddr n)) (ref_show_net n) = Some (naddr n, nprefix n)"
  using wf_network_parts [of n] by (simp add: ref_parse_net_def ref_split_slash ref_parse_show_ip)

interpretation ref: stout_lib ref_lib
  by (rule stout_lib.intro)
     (simp_all add: ref_lib_def ref_ops_laws ref_parse_show_ip ref_parse_show_net
        ref_parse_ip_wf ref_parse_net_wf)

end
