(* ===== verification/FreePool.thy ===== *)
theory FreePool
  imports Base
begin

text \<open>
  The contract of the two allocators of the overlay master, the VTEP address pool
  (\<open>struct Vtep\<close>) and the subnet pool of an overlay (\<open>struct Overlay\<close>): a pool holds a
  set of free elements of a fixed universe; allocating hands out a free element and removes
  it, releasing puts an element back, reserving removes a given free element. The master
  relies on nothing else. \<open>pool_take\<close> allocates several times in a row.
\<close>

fun pool_take :: "('s \<Rightarrow> ('e \<times> 's) res) \<Rightarrow> nat \<Rightarrow> 's \<Rightarrow> ('e list \<times> 's) res" where
  "pool_take alloc 0 s = Ok ([], s)"
| "pool_take alloc (Suc n) s =
     bind_res (alloc s) (\<lambda>(x, s1). bind_res (pool_take alloc n s1) (\<lambda>(xs, s2). Ok (x # xs, s2)))"

locale free_pool =
  fixes inv :: "'s \<Rightarrow> bool"
    and ready :: "'s \<Rightarrow> bool"
    and free :: "'s \<Rightarrow> 'e set"
    and univ :: "'s \<Rightarrow> 'e set"
    and alloc :: "'s \<Rightarrow> ('e \<times> 's) res"
    and release :: "'s \<Rightarrow> 'e \<Rightarrow> 's res"
    and reserve :: "'s \<Rightarrow> 'e \<Rightarrow> 's res"
  assumes free_subset: "inv s \<Longrightarrow> free s \<subseteq> univ s"
    and alloc_exists: "inv s \<Longrightarrow> ready s \<Longrightarrow> free s \<noteq> {} \<Longrightarrow> \<exists>x s'. alloc s = Ok (x, s')"
    and alloc_spec: "inv s \<Longrightarrow> alloc s = Ok (x, s') \<Longrightarrow>
      x \<in> free s \<and> inv s' \<and> free s' = free s - {x} \<and> univ s' = univ s \<and> ready s' = ready s"
    and alloc_empty: "inv s \<Longrightarrow> ready s \<Longrightarrow> free s = {} \<Longrightarrow> alloc s = Error Exhausted"
    and release_spec: "inv s \<Longrightarrow> x \<in> univ s \<Longrightarrow> x \<notin> free s \<Longrightarrow>
      \<exists>s'. release s x = Ok s' \<and> inv s' \<and> free s' = insert x (free s) \<and> univ s' = univ s \<and>
        ready s' = ready s"
    and reserve_spec: "inv s \<Longrightarrow> x \<in> free s \<Longrightarrow>
      \<exists>s'. reserve s x = Ok s' \<and> inv s' \<and> free s' = free s - {x} \<and> univ s' = univ s \<and>
        ready s' = ready s"
    and reserve_taken: "inv s \<Longrightarrow> x \<in> univ s \<Longrightarrow> x \<notin> free s \<Longrightarrow> reserve s x = Error Unavailable"
begin

lemma alloc_then_release:
  assumes "inv s" "alloc s = Ok (x, s1)"
  shows "\<exists>s2. release s1 x = Ok s2 \<and> inv s2 \<and> free s2 = free s \<and> univ s2 = univ s"
proof -
  from alloc_spec [OF assms] free_subset [OF assms(1)]
  have "inv s1" "x \<in> univ s1" "x \<notin> free s1" "free s1 = free s - {x}" "univ s1 = univ s" "x \<in> free s"
    by auto
  with release_spec [of s1 x] show ?thesis by (metis insert_Diff)
qed

lemma owned_after_alloc:
  assumes "inv s" "alloc s = Ok (x, s')" "owned \<inter> free s = {}"
  shows "x \<notin> owned" "insert x owned \<inter> free s' = {}"
  using alloc_spec [OF assms(1,2)] assms(3) by auto

lemma take_spec:
  "inv s \<Longrightarrow> pool_take alloc n s = Ok (xs, s') \<Longrightarrow>
   inv s' \<and> length xs = n \<and> distinct xs \<and> set xs \<subseteq> free s \<and> free s' = free s - set xs \<and>
   univ s' = univ s \<and> ready s' = ready s"
proof (induction n arbitrary: s xs s')
  case 0
  then show ?case by simp
next
  case (Suc n)
  from Suc.prems(2) obtain x s1 ys where
    a: "alloc s = Ok (x, s1)" and t: "pool_take alloc n s1 = Ok (ys, s')" and xs: "xs = x # ys"
    by (auto simp: res_simps)
  from alloc_spec [OF Suc.prems(1) a] Suc.IH [OF _ t] xs show ?case by auto
qed

lemma take_succeeds:
  "inv s \<Longrightarrow> ready s \<Longrightarrow> finite (free s) \<Longrightarrow> n \<le> card (free s) \<Longrightarrow>
   \<exists>xs s'. pool_take alloc n s = Ok (xs, s')"
proof (induction n arbitrary: s)
  case 0
  then show ?case by simp
next
  case (Suc n)
  then have "free s \<noteq> {}" by auto
  with alloc_exists Suc.prems obtain x s1 where a: "alloc s = Ok (x, s1)" by blast
  note sp = alloc_spec [OF Suc.prems(1) a]
  with Suc.prems have "n \<le> card (free s1)" by auto
  with Suc.IH [of s1] sp Suc.prems obtain xs s' where "pool_take alloc n s1 = Ok (xs, s')"
    by auto
  with a show ?case by auto
qed

lemma take_exhausts:
  "inv s \<Longrightarrow> ready s \<Longrightarrow> finite (free s) \<Longrightarrow> card (free s) < n \<Longrightarrow>
   pool_take alloc n s = Error Exhausted"
proof (induction n arbitrary: s)
  case 0
  then show ?case by simp
next
  case (Suc n)
  show ?case
  proof (cases "free s = {}")
    case True
    with Suc.prems alloc_empty show ?thesis by simp
  next
    case False
    with alloc_exists Suc.prems obtain x s1 where a: "alloc s = Ok (x, s1)" by blast
    note sp = alloc_spec [OF Suc.prems(1) a]
    with Suc.prems have "card (free s1) < n" by (auto simp: card_Diff_singleton)
        (metis Suc_less_eq Suc_pred card_gt_0_iff empty_iff)
    with Suc.IH [of s1] sp Suc.prems a show ?thesis by auto
  qed
qed

end

end
