(* ===== verification/VtepPool.thy ===== *)
theory VtepPool
  imports Stout FreePool
begin

text \<open>
  \<open>struct Vtep\<close> and \<open>createMAC\<close> of \<open>overlay/master.cpp\<close>: the pool of VTEP (VXLAN tunnel
  endpoint) addresses of the cluster, one per agent, and the MAC addresses derived from them.
  The IPv4 half of the structure is an instance of the pool contract of \<open>FreePool\<close>, for the
  addresses strictly between the first and the last of the VTEP network.
\<close>

section \<open>MAC addresses\<close>

text \<open>
  \<open>sscanf(s, "%hhx", _)\<close>: white space, an optional sign, an optional \<open>0x\<close> and as many
  hexadecimal digits as follow, converted as by \<open>strtoul\<close> and stored modulo 256. Without a
  digit the conversion fails and the target keeps its value.
\<close>

definition hex_digit :: "char \<Rightarrow> int option" where
  "hex_digit c =
     (let n = of_char c :: int in
      if 48 \<le> n \<and> n \<le> 57 then Some (n - 48)
      else if 97 \<le> n \<and> n \<le> 102 then Some (n - 87)
      else if 65 \<le> n \<and> n \<le> 70 then Some (n - 55) else None)"

fun hex_digits :: "string \<Rightarrow> int list" where
  "hex_digits [] = []"
| "hex_digits (c # cs) = (case hex_digit c of None \<Rightarrow> [] | Some d \<Rightarrow> d # hex_digits cs)"

definition strtoul16 :: "string \<Rightarrow> int option" where
  "strtoul16 s =
     (let ds = hex_digits s in
      if ds = [] then None
      else Some (min (foldl (\<lambda>acc d. 16 * acc + d) 0 ds) 0xffffffffffffffff))"

fun strip_0x :: "string \<Rightarrow> string" where
  "strip_0x (z # x # cs) =
     (if z = CHR ''0'' \<and> (x = CHR ''x'' \<or> x = CHR ''X'') then cs else z # x # cs)"
| "strip_0x s = s"

definition is_space :: "char \<Rightarrow> bool" where
  "is_space c \<longleftrightarrow> (let n = of_char c :: int in n = 32 \<or> 9 \<le> n \<and> n \<le> 13)"

definition sscanf_hhx :: "string \<Rightarrow> byte option" where
  "sscanf_hhx s =
     (case dropWhile is_space s of
        [] \<Rightarrow> None
      | c # cs \<Rightarrow>
          if c = CHR ''-'' then map_option (\<lambda>n. - of_int n) (strtoul16 (strip_0x cs))
          else if c = CHR ''+'' then map_option of_int (strtoul16 (strip_0x cs))
          else map_option of_int (strtoul16 (strip_0x (c # cs))))"

text \<open>
  The array of \<open>createMAC\<close> is not initialised: \<open>junk\<close> is what it holds at first.
\<close>

fun mac_loop :: "bool \<Rightarrow> nat \<Rightarrow> string list \<Rightarrow> byte list \<Rightarrow> byte list res" where
  "mac_loop oui i [] mac = Ok mac"
| "mac_loop oui i (t # ts) mac =
     (let mac' = (case sscanf_hhx t of None \<Rightarrow> mac | Some b \<Rightarrow> mac[i := b]) in
      if oui \<and> i > 2 \<and> mac' ! i \<noteq> 0 then Error Mac_Not_OUI else mac_loop oui (Suc i) ts mac')"

definition createMAC :: "stout \<Rightarrow> byte list \<Rightarrow> string \<Rightarrow> bool \<Rightarrow> byte list res" where
  "createMAC lib junk mac oui =
     (let tokens = str_split lib mac '':'' in
      if length tokens \<noteq> 6 then Error Mac_Malformed else mac_loop oui 0 tokens junk)"

section \<open>The address pool\<close>

record vtep =
  vt_network :: network
  vt_network6 :: "network option"
  vt_oui :: "byte list"
  vt_mtu :: "u64 option"
  vt_freeIP :: "ip ivset"
  vt_freeIP6 :: "ip ivset"

definition open_range :: "stout \<Rightarrow> ip ivset \<Rightarrow> network \<Rightarrow> ip ivset res" where
  \<comment> \<open>\<open>s += (Bound<IP>::open(n.begin()), Bound<IP>::open(n.end()))\<close>\<close>
  "open_range lib s n =
     bind_res (net_begin n) (\<lambda>b. bind_res (net_end n) (\<lambda>e.
       Ok (iv_insert (ip_ivs lib) s (Open b) (Open e))))"

definition vtep_new ::
  "stout \<Rightarrow> network \<Rightarrow> network option \<Rightarrow> byte list \<Rightarrow> u64 option \<Rightarrow> vtep res" where
  "vtep_new lib net net6 oui mtu =
     bind_res (open_range lib [] net) (\<lambda>f.
     bind_res (case net6 of None \<Rightarrow> Ok [] | Some n6 \<Rightarrow> open_range lib [] n6) (\<lambda>f6.
       Ok \<lparr>vt_network = net, vt_network6 = net6, vt_oui = oui, vt_mtu = mtu,
           vt_freeIP = f, vt_freeIP6 = f6\<rparr>))"

definition allocateIP :: "stout \<Rightarrow> vtep \<Rightarrow> (network \<times> vtep) res" where
  "allocateIP lib v =
     (if vt_freeIP v = [] then Error Exhausted
      else (let ip = iv_lower (vt_freeIP v);
                v' = v\<lparr>vt_freeIP := iv_remove (ip_ivs lib) (vt_freeIP v) ip\<rparr>
            in bind_res (mk_network ip (nprefix (vt_network v))) (\<lambda>n. Ok (n, v'))))"

definition allocateIP6 :: "stout \<Rightarrow> vtep \<Rightarrow> (network \<times> vtep) res" where
  "allocateIP6 lib v =
     (if vt_freeIP6 v = [] then Error Exhausted
      else (let ip = iv_lower (vt_freeIP6 v);
                v' = v\<lparr>vt_freeIP6 := iv_remove (ip_ivs lib) (vt_freeIP6 v) ip\<rparr>
            in bind_res (opt_get (vt_network6 v)) (\<lambda>n6.
               bind_res (mk_network ip (nprefix n6)) (\<lambda>n. Ok (n, v')))))"

definition deallocateIP :: "stout \<Rightarrow> vtep \<Rightarrow> network \<Rightarrow> vtep res" where
  "deallocateIP lib v ip =
     bind_res (ip_convert (naddr ip)) (\<lambda>a.
       if iv_contains (ip_ivs lib) (vt_freeIP v) a then Error Not_Allocated
       else Ok (v\<lparr>vt_freeIP := iv_put (ip_ivs lib) (vt_freeIP v) a\<rparr>))"

definition deallocateIP6 :: "stout \<Rightarrow> vtep \<Rightarrow> network \<Rightarrow> vtep res" where
  "deallocateIP6 lib v ip6 =
     bind_res (ip_convert (naddr ip6)) (\<lambda>a.
       if iv_contains (ip_ivs lib) (vt_freeIP6 v) a then Error Not_Allocated
       else Ok (v\<lparr>vt_freeIP6 := iv_put (ip_ivs lib) (vt_freeIP6 v) a\<rparr>))"

definition vtep_reserve :: "stout \<Rightarrow> vtep \<Rightarrow> network \<Rightarrow> vtep res" where
  "vtep_reserve lib v n =
     (case naddr n of
        V6 _ \<Rightarrow> Crash Option_None
      | V4 addr \<Rightarrow>
          if \<not> iv_contains (ip_ivs lib) (vt_freeIP v) (V4 addr) then Error Unavailable
          else Ok (v\<lparr>vt_freeIP := iv_remove (ip_ivs lib) (vt_freeIP v) (V4 addr)\<rparr>))"

definition vtep_reserve6 :: "stout \<Rightarrow> vtep \<Rightarrow> network \<Rightarrow> vtep res" where
  "vtep_reserve6 lib v n =
     (case naddr n of
        V4 _ \<Rightarrow> Crash Option_None
      | V6 addr \<Rightarrow>
          if \<not> iv_contains (ip_ivs lib) (vt_freeIP6 v) (V6 addr) then Error Unavailable
          else Ok (v\<lparr>vt_freeIP6 := iv_remove (ip_ivs lib) (vt_freeIP6 v) (V6 addr)\<rparr>))"

definition generateMAC :: "vtep \<Rightarrow> ip \<Rightarrow> byte list res" where
  "generateMAC v a =
     (case a of
        V6 _ \<Rightarrow> Error Wrong_Family
      | V4 addr \<Rightarrow>
          (let nic = bytes_of4 addr; oui = vt_oui v
           in Ok [oui ! 0, oui ! 1, oui ! 2, nic ! 1, nic ! 2, nic ! 3]))"

definition vtep_reset :: "stout \<Rightarrow> vtep \<Rightarrow> vtep res" where
  "vtep_reset lib v =
     bind_res (open_range lib [] (vt_network v)) (\<lambda>f.
       let v' = v\<lparr>vt_freeIP := f\<rparr> in
       case vt_network6 v of
         None \<Rightarrow> Ok v'
       | Some n6 \<Rightarrow> bind_res (open_range lib [] n6) (\<lambda>f6. Ok (v'\<lparr>vt_freeIP6 := f6\<rparr>)))"


section \<open>The pool contract\<close>

text \<open>
  The addresses an agent can be given are those strictly between the two ends of the VTEP
  network.
\<close>

definition vtep_hosts :: "network \<Rightarrow> ip set" where
  "vtep_hosts n = {x. \<exists>b e. net_begin n = Ok b \<and> net_end n = Ok e \<and> b < x \<and> x < e}"

definition vtep_free :: "vtep \<Rightarrow> network set" where
  "vtep_free v = (\<lambda>x. Net x (nprefix (vt_network v))) ` covers (vt_freeIP v)"

definition vtep_univ :: "vtep \<Rightarrow> network set" where
  "vtep_univ v = (\<lambda>x. Net x (nprefix (vt_network v))) ` vtep_hosts (vt_network v)"

definition vtep_inv :: "vtep \<Rightarrow> bool" where
  "vtep_inv v \<longleftrightarrow>
     wf_network (vt_network v) \<and> ip_family (naddr (vt_network v)) = AF_INET \<and>
     iv_normal (vt_freeIP v) \<and> covers (vt_freeIP v) \<subseteq> vtep_hosts (vt_network v)"

lemma vtep_hosts4:
  "wf_network (Net (V4 a) p) \<Longrightarrow>
   vtep_hosts (Net (V4 a) p) = {V4 c | c. a AND mask4 p < c \<and> c < a OR NOT (mask4 p)}"
  by (auto simp: vtep_hosts_def net_begin4 net_end4 less_ip_def elim!: ip_less.elims)

lemma family4E:
  assumes "ip_family a = AF_INET"
  obtains c where "a = V4 c"
  using assms by (cases a) auto

lemma vtep_hostE:
  assumes "vtep_inv v" "x \<in> vtep_hosts (vt_network v)"
  obtains c where "x = V4 c" "c \<noteq> - 1" "cell ip_succ x = {x}"
proof -
  obtain a p where n: "vt_network v = Net (V4 a) p" "wf_network (Net (V4 a) p)"
    using assms(1) by (cases "vt_network v") (auto simp: vtep_inv_def elim: family4E)
  with assms(2) obtain c where c: "x = V4 c" "c < a OR NOT (mask4 p)" by (auto simp: vtep_hosts4)
  have "c \<noteq> - 1" using c(2) word_order.extremum_strict by blast
  with c(1) ip_cell4 that show ?thesis by simp
qed

lemma vtep_in_freeE:
  assumes "vtep_inv v" "x \<in> vtep_free v"
  obtains c where "x = Net (V4 c) (nprefix (vt_network v))" "V4 c \<in> covers (vt_freeIP v)"
    "cell ip_succ (V4 c) = {V4 c}"
  using assms by (auto simp: vtep_free_def vtep_inv_def elim!: vtep_hostE [OF assms(1)])

lemma vtep_in_univE:
  assumes "vtep_inv v" "x \<in> vtep_univ v"
  obtains c where "x = Net (V4 c) (nprefix (vt_network v))" "V4 c \<in> vtep_hosts (vt_network v)"
    "cell ip_succ (V4 c) = {V4 c}"
proof -
  from assms(2) obtain y where y: "x = Net y (nprefix (vt_network v))" "y \<in> vtep_hosts (vt_network v)"
    by (auto simp: vtep_univ_def)
  from vtep_hostE [OF assms(1) y(2)] obtain c where "y = V4 c" "cell ip_succ y = {y}" by auto
  with y that show ?thesis by simp
qed

lemma vtep_prefix: "vtep_inv v \<Longrightarrow> 1 \<le> unat (nprefix (vt_network v)) \<and> unat (nprefix (vt_network v)) \<le> 32"
  by (cases "vt_network v" rule: wf_network.cases) (auto simp: vtep_inv_def)

lemma vtep_free_update [simp]:
  "vtep_free (v\<lparr>vt_freeIP := s\<rparr>) = (\<lambda>x. Net x (nprefix (vt_network v))) ` covers s"
  "vtep_univ (v\<lparr>vt_freeIP := s\<rparr>) = vtep_univ v"
  by (simp_all add: vtep_free_def vtep_univ_def)

lemma vtep_free_mem [simp]:
  "Net c (nprefix (vt_network v)) \<in> vtep_free v \<longleftrightarrow> c \<in> covers (vt_freeIP v)"
  by (auto simp: vtep_free_def)

lemma image_Net_diff:
  "(\<lambda>x. Net x p) ` (A - B) = (\<lambda>x. Net x p) ` A - (\<lambda>x. Net x p) ` B"
  by auto

context stout_lib
begin

lemma vtep_remove:
  assumes "vtep_inv v" "V4 c \<in> covers (vt_freeIP v)"
  shows "let v' = v\<lparr>vt_freeIP := iv_remove (ip_ivs lib) (vt_freeIP v) (V4 c)\<rparr> in
    vtep_inv v' \<and> vtep_free v' = vtep_free v - {Net (V4 c) (nprefix (vt_network v))} \<and>
    vtep_univ v' = vtep_univ v"
proof -
  from assms have "Net (V4 c) (nprefix (vt_network v)) \<in> vtep_free v" by simp
  from vtep_in_freeE [OF assms(1) this] have "cell ip_succ (V4 c) = {V4 c}" by auto
  with assms show ?thesis
    by (auto simp: Let_def vtep_inv_def ips.normal_remove ips.covers_remove vtep_free_def)
qed

lemma vtep_alloc_spec:
  assumes "vtep_inv v" "allocateIP lib v = Ok (x, v')"
  shows "x \<in> vtep_free v \<and> vtep_inv v' \<and> vtep_free v' = vtep_free v - {x} \<and>
    vtep_univ v' = vtep_univ v"
proof -
  let ?ip = "iv_lower (vt_freeIP v)"
  from assms have ne: "vt_freeIP v \<noteq> []" and n: "iv_normal (vt_freeIP v)"
    by (auto simp: allocateIP_def vtep_inv_def split: if_splits)
  from covers_nonempty [OF n ne]
  have f: "Net ?ip (nprefix (vt_network v)) \<in> vtep_free v" by simp
  from vtep_in_freeE [OF assms(1) f] obtain c where
    c: "?ip = V4 c" "V4 c \<in> covers (vt_freeIP v)" by auto
  from assms(2) ne vtep_prefix [OF assms(1)] have
    "x = Net (V4 c) (nprefix (vt_network v))"
    "v' = v\<lparr>vt_freeIP := iv_remove (ip_ivs lib) (vt_freeIP v) (V4 c)\<rparr>"
    by (auto simp: allocateIP_def c(1) Let_def)
  with vtep_remove [OF assms(1) c(2)] f c(1) show ?thesis by (simp add: Let_def)
qed

lemma vtep_alloc_exists:
  assumes "vtep_inv v" "vtep_free v \<noteq> {}"
  shows "\<exists>x v'. allocateIP lib v = Ok (x, v')"
proof -
  from assms have ne: "vt_freeIP v \<noteq> []" and n: "iv_normal (vt_freeIP v)"
    by (auto simp: vtep_free_def vtep_inv_def)
  from vtep_in_freeE [OF assms(1), of "Net (iv_lower (vt_freeIP v)) (nprefix (vt_network v))"]
    covers_nonempty [OF n ne]
  obtain c where "iv_lower (vt_freeIP v) = V4 c" by auto
  with ne vtep_prefix [OF assms(1)] show ?thesis by (simp add: allocateIP_def Let_def)
qed

lemma vtep_release_spec:
  assumes "vtep_inv v" "x \<in> vtep_univ v" "x \<notin> vtep_free v"
  shows "\<exists>v'. deallocateIP lib v x = Ok v' \<and> vtep_inv v' \<and>
    vtep_free v' = insert x (vtep_free v) \<and> vtep_univ v' = vtep_univ v"
proof -
  from vtep_in_univE [OF assms(1,2)] obtain c where
    x: "x = Net (V4 c) (nprefix (vt_network v))" and h: "V4 c \<in> vtep_hosts (vt_network v)" and
    cell: "cell ip_succ (V4 c) = {V4 c}" .
  from assms(1) have n: "iv_normal (vt_freeIP v)" by (simp add: vtep_inv_def)
  from assms(3) x n have "\<not> iv_contains (ip_ivs lib) (vt_freeIP v) (V4 c)"
    by (simp add: ips.contains_iff)
  then have "deallocateIP lib v x = Ok (v\<lparr>vt_freeIP := iv_put (ip_ivs lib) (vt_freeIP v) (V4 c)\<rparr>)"
    by (simp add: deallocateIP_def x)
  with assms(1) h cell n x show ?thesis
    by (auto simp: vtep_inv_def ips.normal_put ips.covers_put vtep_free_def)
qed

lemma vtep_reserve_spec:
  assumes "vtep_inv v" "x \<in> vtep_free v"
  shows "\<exists>v'. vtep_reserve lib v x = Ok v' \<and> vtep_inv v' \<and>
    vtep_free v' = vtep_free v - {x} \<and> vtep_univ v' = vtep_univ v"
proof -
  from vtep_in_freeE [OF assms] obtain c where
    x: "x = Net (V4 c) (nprefix (vt_network v))" and c: "V4 c \<in> covers (vt_freeIP v)" .
  from assms(1) c have "iv_contains (ip_ivs lib) (vt_freeIP v) (V4 c)"
    by (simp add: ips.contains_iff vtep_inv_def)
  then have "vtep_reserve lib v x =
      Ok (v\<lparr>vt_freeIP := iv_remove (ip_ivs lib) (vt_freeIP v) (V4 c)\<rparr>)"
    by (simp add: vtep_reserve_def x)
  with vtep_remove [OF assms(1) c] x show ?thesis by (simp add: Let_def)
qed

lemma vtep_reserve_taken:
  assumes "vtep_inv v" "x \<in> vtep_univ v" "x \<notin> vtep_free v"
  shows "vtep_reserve lib v x = Error Unavailable"
proof -
  from vtep_in_univE [OF assms(1,2)] obtain c where
    x: "x = Net (V4 c) (nprefix (vt_network v))" by auto
  from assms(1,3) x show ?thesis
    by (simp add: vtep_reserve_def ips.contains_iff vtep_inv_def)
qed

lemma vtep_free_pool:
  "free_pool vtep_inv (\<lambda>v. True) vtep_free vtep_univ
     (allocateIP lib) (deallocateIP lib) (vtep_reserve lib)"
proof (rule free_pool.intro)
  show "vtep_free v \<subseteq> vtep_univ v" if "vtep_inv v" for v
    using that by (auto simp: vtep_inv_def vtep_free_def vtep_univ_def)
  show "allocateIP lib v = Error Exhausted" if "vtep_inv v" "vtep_free v = {}" for v
    using that by (simp add: vtep_inv_def vtep_free_def covers_empty_iff allocateIP_def)
qed ((simp only: simp_thms)?;
    rule vtep_alloc_exists vtep_alloc_spec vtep_release_spec vtep_reserve_spec vtep_reserve_taken;
    assumption)+

end

sublocale stout_lib \<subseteq> vpool: free_pool vtep_inv "\<lambda>v. True" vtep_free vtep_univ
  "allocateIP lib" "deallocateIP lib" "vtep_reserve lib"
  by (rule vtep_free_pool)

interpretation ref_vpool: free_pool vtep_inv "\<lambda>v. True" vtep_free vtep_univ
  "allocateIP ref_lib" "deallocateIP ref_lib" "vtep_reserve ref_lib"
  by (rule ref.vpool.free_pool_axioms)

section \<open>Properties\<close>

lemma begin_not_max: "unat p \<le> 31 \<Longrightarrow> a AND mask4 p \<noteq> - 1"
proof
  assume "unat p \<le> 31" "a AND mask4 p = - 1"
  then have "bit (a AND mask4 p) 0" by simp
  with \<open>unat p \<le> 31\<close> show False by (simp add: bit_simps mask4_bit host_bits_def)
qed

lemma plus_one_le: "(b :: u32) \<noteq> - 1 \<Longrightarrow> b + 1 \<le> c \<longleftrightarrow> b < c"
  using less_plus_one [of b c] by (metis leD leI less_plus_one)

lemma card_hosts4:
  assumes "wf_network (Net (V4 a) p)"
  shows "finite (vtep_hosts (Net (V4 a) p))" "card (vtep_hosts (Net (V4 a) p)) = 2 ^ host_bits p - 2"
proof -
  let ?b = "a AND mask4 p" and ?e = "a OR NOT (mask4 p)"
  have h: "vtep_hosts (Net (V4 a) p) = V4 ` {c. ?b < c \<and> c < ?e}"
    using vtep_hosts4 [OF assms] by auto
  have im: "unat ` {c. ?b < c \<and> c < ?e} = {unat ?b <..< unat ?e}"
  proof (rule set_eqI, rule iffI)
    fix n assume n: "n \<in> {unat ?b <..< unat ?e}"
    then have "n < 2 ^ 32" using unsigned_less [of ?e, where 'a = nat] by simp
    then have "unat (of_nat n :: u32) = n" by (simp add: unsigned_of_nat take_bit_nat_eq_self)
    with n show "n \<in> unat ` {c. ?b < c \<and> c < ?e}"
      by (intro image_eqI [of _ _ "of_nat n"]) (auto simp: word_less_nat_alt)
  qed (auto simp: word_less_nat_alt)
  have "card {c. ?b < c \<and> c < ?e} = card (unat ` {c. ?b < c \<and> c < ?e})"
    by (rule card_image [symmetric]) (simp add: inj_on_def word_unat_eq_iff)
  also have "\<dots> = 2 ^ host_bits p - 2"
    by (simp add: im unat_and_mask4 unat_or_not_mask4)
  finally show "card (vtep_hosts (Net (V4 a) p)) = 2 ^ host_bits p - 2"
    unfolding h by (subst card_image) (auto simp: inj_on_def)
  show "finite (vtep_hosts (Net (V4 a) p))" unfolding h by simp
qed

lemma card_vtep_univ:
  assumes "vtep_inv v"
  shows "finite (vtep_univ v)" "card (vtep_univ v) = 2 ^ host_bits (nprefix (vt_network v)) - 2"
proof -
  obtain a p where n: "vt_network v = Net (V4 a) p" "wf_network (Net (V4 a) p)"
    using assms by (cases "vt_network v") (auto simp: vtep_inv_def elim: family4E)
  then show "finite (vtep_univ v)" "card (vtep_univ v) = 2 ^ host_bits (nprefix (vt_network v)) - 2"
    using card_hosts4 [OF n(2)] by (simp_all add: vtep_univ_def card_image inj_on_def)
qed

context stout_lib
begin

lemma open_range4:
  assumes "wf_network (Net (V4 a) p)" "unat p \<le> 31"
  obtains f where "open_range lib [] (Net (V4 a) p) = Ok f" "iv_normal f"
    "covers f = vtep_hosts (Net (V4 a) p)"
proof
  let ?f = "iv_insert (ip_ivs lib) [] (Open (V4 (a AND mask4 p))) (Open (V4 (a OR NOT (mask4 p))))"
  show "open_range lib [] (Net (V4 a) p) = Ok ?f"
    using assms(1) by (simp add: open_range_def net_begin4 net_end4 del: wf_network.simps)
  show "iv_normal ?f" by (rule ips.normal_fresh)
  show "covers ?f = vtep_hosts (Net (V4 a) p)"
    using plus_one_le [OF begin_not_max [OF assms(2)]]
    by (simp only: ips.fresh_insert ip_span4_open vtep_hosts4 [OF assms(1)])
qed

lemma vtep_new_inv:
  assumes "vtep_new lib (Net (V4 a) p) n6 oui mtu = Ok v" "unat p \<le> 31"
  shows "vtep_inv v" "vtep_free v = vtep_univ v" "vt_network v = Net (V4 a) p" "vt_oui v = oui"
proof -
  from assms(1) have "1 \<le> unat p"
    by (auto simp: vtep_new_def open_range_def net_begin_def netmask_def res_simps split: if_splits)
  with assms(2) have w: "wf_network (Net (V4 a) p)" by simp
  obtain f where f: "open_range lib [] (Net (V4 a) p) = Ok f" "iv_normal f"
    "covers f = vtep_hosts (Net (V4 a) p)" by (rule open_range4 [OF w assms(2)])
  from assms(1) f(1) have v: "vt_network v = Net (V4 a) p" "vt_freeIP v = f" "vt_oui v = oui"
    by (auto simp: vtep_new_def res_simps)
  with f w show "vtep_inv v" "vtep_free v = vtep_univ v" "vt_network v = Net (V4 a) p" "vt_oui v = oui"
    by (simp_all add: vtep_inv_def vtep_free_def vtep_univ_def)
qed

lemma vtep_release_free:
  assumes "vtep_inv v" "x \<in> vtep_free v"
  shows "deallocateIP lib v x = Error Not_Allocated"
proof -
  from vtep_in_freeE [OF assms] obtain c where
    "x = Net (V4 c) (nprefix (vt_network v))" "V4 c \<in> covers (vt_freeIP v)" .
  with assms(1) show ?thesis by (simp add: deallocateIP_def vtep_inv_def ips.contains_iff)
qed

lemma vtep_reset_inv:
  assumes "vtep_inv v" "unat (nprefix (vt_network v)) \<le> 31" "vtep_reset lib v = Ok v'"
  shows "vtep_inv v'" "vtep_free v' = vtep_univ v" "vtep_univ v' = vtep_univ v"
proof -
  obtain a p where n: "vt_network v = Net (V4 a) p" "wf_network (Net (V4 a) p)"
    using assms by (cases "vt_network v") (auto simp: vtep_inv_def elim: family4E)
  with assms(2) obtain f where f: "open_range lib [] (vt_network v) = Ok f" "iv_normal f"
    "covers f = vtep_hosts (vt_network v)" using open_range4 [of a p] by auto
  with assms(3) have v: "vt_network v' = vt_network v" "vt_freeIP v' = f"
    by (auto simp: vtep_reset_def res_simps Let_def split: option.splits)
  with f n show "vtep_inv v'" "vtep_free v' = vtep_univ v" "vtep_univ v' = vtep_univ v"
    by (simp_all add: vtep_inv_def vtep_free_def vtep_univ_def)
qed

end

text \<open>
  C29: A VTEP pool built on an IPv4 network of prefix length at most 31 hands out
  every address strictly between the first and the last of the network exactly once: up to
  their number, consecutive allocations succeed with pairwise distinct addresses inside those
  bounds, carrying the network's prefix; beyond it, allocation reports exhaustion.
\<close>

theorem vtep_addresses_distinct:
  assumes "stout_lib lib" "vtep_new lib (Net (V4 a) p) n6 oui mtu = Ok v" "unat p \<le> 31"
  shows "if n \<le> 2 ^ (32 - unat p) - 2
    then \<exists>xs v'. pool_take (allocateIP lib) n v = Ok (xs, v') \<and> length xs = n \<and> distinct xs \<and>
      (\<forall>x \<in> set xs. \<exists>c. x = Net (V4 c) p \<and> a AND mask4 p < c \<and> c < a OR NOT (mask4 p))
    else pool_take (allocateIP lib) n v = Error Exhausted"
proof -
  note new = stout_lib.vtep_new_inv [OF assms]
  have c: "finite (vtep_free v)" "card (vtep_free v) = 2 ^ (32 - unat p) - 2"
    using card_vtep_univ [OF new(1)] new(2,3) by (simp_all add: host_bits_def)
  have w: "wf_network (Net (V4 a) p)" using new(1,3) by (simp add: vtep_inv_def)
  have u: "vtep_free v = {Net (V4 c) p | c. a AND mask4 p < c \<and> c < a OR NOT (mask4 p)}"
    using new(2,3) vtep_hosts4 [OF w] by (auto simp: vtep_univ_def)
  note pool = stout_lib.vtep_free_pool [OF assms(1)]
  note take = free_pool.take_succeeds [OF pool new(1) _ c(1)]
    free_pool.take_exhausts [OF pool new(1) _ c(1)] free_pool.take_spec [OF pool new(1)]
  show ?thesis
  proof (cases "n \<le> 2 ^ (32 - unat p) - 2")
    case True
    with take(1) c obtain xs v' where t: "pool_take (allocateIP lib) n v = Ok (xs, v')" by metis
    from take(3) [OF this] u True t show ?thesis by auto
  qed (use take(2) c in auto)
qed

theorem vtep_addresses_distinct_witness:
  "\<exists>xs v'. pool_take (allocateIP ref_lib) 5
     (\<lparr>vt_network = Net (V4 0x2C800000) 29, vt_network6 = None, vt_oui = [], vt_mtu = None,
       vt_freeIP = [(V4 0x2C800001, V4 0x2C800007)], vt_freeIP6 = []\<rparr>) = Ok (xs, v') \<and> distinct xs"
proof -
  have "vtep_new ref_lib (Net (V4 0x2C800000) 29) None [] None =
    Ok \<lparr>vt_network = Net (V4 0x2C800000) 29, vt_network6 = None, vt_oui = [], vt_mtu = None,
       vt_freeIP = [(V4 0x2C800001, V4 0x2C800007)], vt_freeIP6 = []\<rparr>"
    by code_simp
  from vtep_addresses_distinct [OF ref.stout_lib_axioms this, of 5] show ?thesis by auto
qed

text \<open>
  C32: Releasing an address that was just allocated restores the set of free
  addresses, and releasing it once more is refused.
\<close>

theorem vtep_release_restores:
  assumes "stout_lib lib" "vtep_inv v" "allocateIP lib v = Ok (x, v1)"
  shows "\<exists>v2. deallocateIP lib v1 x = Ok v2 \<and> vtep_free v2 = vtep_free v \<and>
      deallocateIP lib v2 x = Error Not_Allocated"
proof -
  note pool = stout_lib.vtep_free_pool [OF assms(1)]
  from free_pool.alloc_then_release [OF pool assms(2,3)] obtain v2 where
    v2: "deallocateIP lib v1 x = Ok v2" "vtep_inv v2" "vtep_free v2 = vtep_free v" by blast
  have "x \<in> vtep_free v2" using free_pool.alloc_spec [OF pool assms(2,3)] v2(3) by simp
  then have "deallocateIP lib v2 x = Error Not_Allocated"
    by (rule stout_lib.vtep_release_free [OF assms(1) v2(2)])
  with v2 show ?thesis by blast
qed

theorem vtep_release_restores_witness:
  "\<exists>x v1 v2. deallocateIP ref_lib v1 x = Ok v2 \<and> deallocateIP ref_lib v2 x = Error Not_Allocated"
proof -
  let ?v = "\<lparr>vt_network = Net (V4 0x2C800000) 29, vt_network6 = None, vt_oui = [], vt_mtu = None,
       vt_freeIP = [(V4 0x2C800001, V4 0x2C800007)], vt_freeIP6 = []\<rparr> :: vtep"
  have "vtep_new ref_lib (Net (V4 0x2C800000) 29) None [] None = Ok ?v" by code_simp
  from stout_lib.vtep_new_inv [OF ref.stout_lib_axioms this]
  have i: "vtep_inv ?v" by simp
  moreover have "allocateIP ref_lib ?v = Ok (Net (V4 0x2C800001) 29,
      ?v\<lparr>vt_freeIP := [(V4 0x2C800002, V4 0x2C800007)]\<rparr>)" by code_simp
  from vtep_release_restores [OF ref.stout_lib_axioms i this] show ?thesis by blast
qed

lemma bytes_of4_low:
  assumes "bytes_of4 c ! 1 = bytes_of4 d ! 1" "bytes_of4 c ! 2 = bytes_of4 d ! 2"
    "bytes_of4 c ! 3 = bytes_of4 d ! 3" "i < 24"
  shows "bit c i = bit d i"
proof -
  have "bit (ucast (drop_bit 16 c) :: byte) k = bit (ucast (drop_bit 16 d) :: byte) k"
    "bit (ucast (drop_bit 8 c) :: byte) k = bit (ucast (drop_bit 8 d) :: byte) k"
    "bit (ucast c :: byte) k = bit (ucast d :: byte) k" for k
    using assms(1-3) by (simp_all add: bytes_of4_def)
  note b = this(1) [of "i - 16"] this(2) [of "i - 8"] this(3) [of i]
  consider "i < 8" | "8 \<le> i" "i < 16" | "16 \<le> i" "i < 24" using assms(4) by linarith
  then show ?thesis using b by cases (auto simp: bit_simps)
qed

lemma block_high:
  assumes "block p c = block p d" "8 \<le> unat p" "24 \<le> i" "i < 32"
  shows "bit c i = bit d i"
proof -
  have "unat (drop_bit (host_bits p) c) = unat (drop_bit (host_bits p) d)"
    using assms(1) by (simp add: unat_drop block_def)
  then have "drop_bit (host_bits p) c = drop_bit (host_bits p) d" by (simp add: word_unat_eq_iff)
  then have "bit (drop_bit (host_bits p) c) (i - host_bits p) =
      bit (drop_bit (host_bits p) d) (i - host_bits p)" by simp
  with assms show ?thesis by (simp add: bit_simps host_bits_def)
qed

text \<open>
  C31: Two different addresses of the VTEP network get different MAC addresses, if the
  network's prefix is at least 8: the last three bytes of the address, which become the NIC
  part, then determine the address.
\<close>

theorem vtep_mac_unique:
  assumes "vtep_inv v" "8 \<le> unat (nprefix (vt_network v))" "x \<in> vtep_univ v" "y \<in> vtep_univ v"
    "generateMAC v (naddr x) = generateMAC v (naddr y)"
  shows "x = y"
proof -
  let ?p = "nprefix (vt_network v)"
  obtain a where n: "vt_network v = Net (V4 a) ?p" "wf_network (Net (V4 a) ?p)"
    using assms(1) by (cases "vt_network v") (auto simp: vtep_inv_def elim: family4E)
  from vtep_in_univE [OF assms(1,3)] obtain c where
    c: "x = Net (V4 c) ?p" "V4 c \<in> vtep_hosts (vt_network v)" .
  from vtep_in_univE [OF assms(1,4)] obtain d where
    d: "y = Net (V4 d) ?p" "V4 d \<in> vtep_hosts (vt_network v)" .
  have "block ?p c = block ?p a" "block ?p d = block ?p a"
    using c(2) d(2) vtep_hosts4 [OF n(2)] n(1) by (auto simp: in_block_iff)
  then have blk: "block ?p c = block ?p d" by simp
  have mac: "bytes_of4 c ! k = bytes_of4 d ! k" if "k \<in> {1, 2, 3}" for k
    using assms(5) c(1) d(1) that by (auto simp: generateMAC_def Let_def)
  have "c = d"
  proof (rule bit_word_eqI)
    fix i :: nat assume "i < LENGTH(32)"
    then show "bit c i = bit d i"
      using bytes_of4_low [of c d i] mac block_high [OF blk assms(2)] by (cases "i < 24") auto
  qed
  with c d show ?thesis by simp
qed

theorem vtep_mac_unique_witness:
  "generateMAC \<lparr>vt_network = Net (V4 0x2C800000) 29, vt_network6 = None, vt_oui = [1, 2, 3],
      vt_mtu = None, vt_freeIP = [(V4 0x2C800001, V4 0x2C800007)], vt_freeIP6 = []\<rparr> (V4 0x2C800001) \<noteq>
   generateMAC \<lparr>vt_network = Net (V4 0x2C800000) 29, vt_network6 = None, vt_oui = [1, 2, 3],
      vt_mtu = None, vt_freeIP = [(V4 0x2C800001, V4 0x2C800007)], vt_freeIP6 = []\<rparr> (V4 0x2C800002)"
proof -
  let ?v = "\<lparr>vt_network = Net (V4 0x2C800000) 29, vt_network6 = None, vt_oui = [1, 2, 3], vt_mtu = None,
       vt_freeIP = [(V4 0x2C800001, V4 0x2C800007)], vt_freeIP6 = []\<rparr> :: vtep"
  have "vtep_new ref_lib (Net (V4 0x2C800000) 29) None [1, 2, 3] None = Ok ?v" by code_simp
  note new = stout_lib.vtep_new_inv [OF ref.stout_lib_axioms this]
  have "Net (V4 0x2C800001) 29 \<in> vtep_univ ?v" "Net (V4 0x2C800002) 29 \<in> vtep_univ ?v"
    using new(2) by (auto simp: vtep_free_def covers_def)
  from vtep_mac_unique [OF _ _ this] new(1) show ?thesis by auto
qed

definition hex_char :: "int \<Rightarrow> char" where
  "hex_char d = char_of (if d < 10 then 48 + d else 87 + d)"

definition hex2 :: "byte \<Rightarrow> string" where
  \<comment> \<open>two lower-case hexadecimal digits, as stout prints the bytes of a MAC\<close>
  "hex2 b = [hex_char (uint b div 16), hex_char (uint b mod 16)]"

lemma of_char_hex:
  "0 \<le> d \<Longrightarrow> d < 16 \<Longrightarrow> (of_char (hex_char d) :: int) = (if d < 10 then 48 + d else 87 + d)"
  by (simp add: hex_char_def)

lemma hex_char_eq:
  assumes "0 \<le> d" "d < 16" "hex_char d = c"
  shows "48 \<le> (of_char c :: int)" "(of_char c :: int) \<le> 102"
  using of_char_hex [OF assms(1,2)] assms by auto

lemma hex_digit_char: "0 \<le> d \<Longrightarrow> d < 16 \<Longrightarrow> hex_digit (hex_char d) = Some d"
  by (simp add: hex_digit_def of_char_hex Let_def)

lemma sscanf_hex2 [simp]: "sscanf_hhx (hex2 b) = Some b"
proof -
  let ?h = "uint b div 16" and ?l = "uint b mod 16"
  have b: "0 \<le> uint b" "uint b < 256" using unsigned_less [of b, where 'a = int] by simp_all
  then have h: "0 \<le> ?h" "?h < 16" and l: "0 \<le> ?l" "?l < 16"
    by (simp_all add: pos_imp_zdiv_nonneg_iff)
  have "\<not> is_space (hex_char ?h)" using hex_char_eq [OF h refl] by (simp add: is_space_def Let_def)
  moreover have "hex_char ?h \<noteq> CHR ''-''" "hex_char ?h \<noteq> CHR ''+''"
    "hex_char ?l \<noteq> CHR ''x''"
    using hex_char_eq(1) [OF h, of "CHR ''-''"] hex_char_eq(1) [OF h, of "CHR ''+''"]
      hex_char_eq(2) [OF l, of "CHR ''x''"] by auto
  moreover have "hex_char ?l \<noteq> CHR ''X''"
  proof
    assume "hex_char ?l = CHR ''X''"
    then have "(of_char (hex_char ?l) :: int) = 88" by simp
    with of_char_hex [OF l] l show False by (auto split: if_splits)
  qed
  moreover have "strtoul16 [hex_char ?h, hex_char ?l] = Some (uint b)"
    using b by (simp add: strtoul16_def hex_digit_char [OF h] hex_digit_char [OF l])
  ultimately show ?thesis by (simp add: sscanf_hhx_def hex2_def)
qed

lemma mac_loop_length: "mac_loop oui i ts mac = Ok m \<Longrightarrow> length m = length mac"
  by (induction oui i ts mac rule: mac_loop.induct) (auto simp: Let_def split: if_splits option.splits)

lemma mac_loop_before: "mac_loop oui i ts mac = Ok m \<Longrightarrow> j < i \<Longrightarrow> m ! j = mac ! j"
  by (induction oui i ts mac rule: mac_loop.induct) (auto simp: Let_def split: if_splits option.splits)

lemma mac_loop_nth:
  "mac_loop oui i ts mac = Ok m \<Longrightarrow> i \<le> j \<Longrightarrow> j < i + length ts \<Longrightarrow> i + length ts \<le> length mac \<Longrightarrow>
   m ! j = (case sscanf_hhx (ts ! (j - i)) of None \<Rightarrow> mac ! j | Some b \<Rightarrow> b) \<and>
   (oui \<and> 2 < j \<longrightarrow> m ! j = 0)"
proof (induction oui i ts mac rule: mac_loop.induct)
  case (1 oui i mac)
  then show ?case by simp
next
  case (2 oui i t ts mac)
  let ?mac = "case sscanf_hhx t of None \<Rightarrow> mac | Some b \<Rightarrow> mac[i := b]"
  from 2(2) have r: "mac_loop oui (Suc i) ts ?mac = Ok m" "\<not> (oui \<and> i > 2 \<and> ?mac ! i \<noteq> 0)"
    by (auto simp: Let_def split: if_splits)
  have l: "length ?mac = length mac" by (simp split: option.splits)
  show ?case
  proof (cases "j = i")
    case True
    with mac_loop_before [OF r(1), of j] r(2) 2(5) show ?thesis
      by (auto split: option.splits)
  next
    case False
    with 2(3) have ij: "i < j" by simp
    then have "?mac ! j = mac ! j" by (auto split: option.splits)
    with 2(1) [OF refl r(2,1)] 2(4,5) ij l show ?thesis by (auto simp: nth_Cons' split: option.splits)
  qed
qed

text \<open>
  What \<open>createMAC\<close> accepts: the byte at each position is the hexadecimal value
  of the token there, reduced modulo 256, and for an OUI the last three bytes are zero. At a
  token without hexadecimal digits the byte is whatever the uninitialised array held.
\<close>

theorem createMAC_value:
  assumes "createMAC lib junk s oui = Ok m" "length junk = 6" "j < 6"
  shows "length m = 6 \<and>
    m ! j = (case sscanf_hhx (str_split lib s '':'' ! j) of None \<Rightarrow> junk ! j | Some b \<Rightarrow> b) \<and>
    (oui \<and> 2 < j \<longrightarrow> m ! j = 0)"
proof -
  from assms(1) have "length (str_split lib s '':'') = 6"
    "mac_loop oui 0 (str_split lib s '':'') junk = Ok m"
    by (auto simp: createMAC_def Let_def split: if_splits)
  moreover from this assms(2,3)
  have "m ! j = (case sscanf_hhx (str_split lib s '':'' ! (j - 0)) of None \<Rightarrow> junk ! j | Some b \<Rightarrow> b) \<and>
    (oui \<and> 2 < j \<longrightarrow> m ! j = 0)"
    by (intro mac_loop_nth) simp_all
  moreover from calculation(2) assms(2) have "length m = 6" by (simp add: mac_loop_length)
  ultimately show ?thesis by (metis diff_zero)
qed

theorem createMAC_value_witness:
  "\<exists>m. createMAC ref_lib [9, 9, 9, 9, 9, 9] ''70:zz:d5:0:0:00'' True = Ok m \<and> m ! 1 = 9"
proof -
  have "createMAC ref_lib [9, 9, 9, 9, 9, 9] ''70:zz:d5:0:0:00'' True = Ok [0x70, 9, 0xd5, 0, 0, 0]"
    "sscanf_hhx (str_split ref_lib ''70:zz:d5:0:0:00'' '':'' ! 1) = None"
    by code_simp+
  with createMAC_value [OF this(1), of 1] show ?thesis by auto
qed

text \<open>
  \<open>createMAC\<close> reads back the six bytes that were printed as pairs of
  hexadecimal digits, whatever the uninitialised array held, and for an OUI rejects exactly the
  addresses whose last three bytes are not all zero.
\<close>

theorem createMAC_roundtrip:
  assumes "str_split lib s '':'' = map hex2 bs" "length bs = 6" "length junk = 6"
  shows "createMAC lib junk s oui =
    (if oui \<and> (bs ! 3 \<noteq> 0 \<or> bs ! 4 \<noteq> 0 \<or> bs ! 5 \<noteq> 0) then Error Mac_Not_OUI else Ok bs)"
proof -
  from assms(2) obtain a b c d e f where bs: "bs = [a, b, c, d, e, f]"
    by (auto simp: length_Suc_conv numeral_eq_Suc)
  from assms(3) obtain a' b' c' d' e' f' where "junk = [a', b', c', d', e', f']"
    by (auto simp: length_Suc_conv numeral_eq_Suc)
  then show ?thesis using assms(1) by (auto simp: createMAC_def bs Let_def)
qed


theorem createMAC_roundtrip_witness:
  "createMAC ref_lib [9, 9, 9, 9, 9, 9] ''70:b3:d5:00:00:00'' True = Ok [0x70, 0xb3, 0xd5, 0, 0, 0]"
proof -
  have "str_split ref_lib ''70:b3:d5:00:00:00'' '':'' = map hex2 [0x70, 0xb3, 0xd5, 0, 0, 0]"
    by code_simp
  from createMAC_roundtrip [OF this] show ?thesis by simp
qed

lemma ip_succ_skips:
  assumes "length bs = 14" "b \<noteq> 0xff"
  shows "ip_succ (V6 (bs @ [b, 0xff])) = V6 (bs @ [b + 1, 0xff])"
proof -
  have "(bs @ [b, 0xff]) ! 15 = 0xff" "(bs @ [b, 0xff]) ! 14 = b"
    "(bs @ [b, 0xff])[14 := b + 1] = bs @ [b + 1, 0xff]"
    using assms(1) by (simp_all add: nth_append list_update_append)
  then show ?thesis using assms(2) by (simp add: ip_succ_def numeral_eq_Suc)
qed

lemma append_less_append [simp]: "(bs @ xs < bs @ ys) = (xs < (ys :: 'a :: linorder list))"
  by (induction bs) simp_all

lemma byte_below_max:
  assumes "(b :: byte) \<noteq> 0xff"
  shows "b < 0xff" "b < b + 1"
proof -
  have "unat b \<noteq> unat (0xff :: byte)" using assms by (metis word_unat_eq_iff)
  then have u: "unat b < 255" using unsigned_less [of b, where 'a = nat] by simp
  then show "b < 0xff" by (simp add: word_less_nat_alt)
  show "b < b + 1" using u by (simp add: word_less_nat_alt unat_word_ariths)
qed

context stout_lib
begin

lemma alloc6_removes:
  assumes "iv_normal (vt_freeIP6 v)" "allocateIP6 lib v = Ok (x, v')"
  shows "naddr x = iv_lower (vt_freeIP6 v)"
    "covers (vt_freeIP6 v') = covers (vt_freeIP6 v) - cell ip_succ (naddr x)"
proof -
  from assms(2) show x: "naddr x = iv_lower (vt_freeIP6 v)"
    by (auto simp: allocateIP6_def Let_def res_simps split: if_splits dest!: mk_network_OkD)
  from assms show "covers (vt_freeIP6 v') = covers (vt_freeIP6 v) - cell ip_succ (naddr x)"
    unfolding x by (auto simp: allocateIP6_def Let_def res_simps ips.covers_remove split: if_splits)
qed

end

text \<open>
  Allocating an IPv6 VTEP address that ends in \<open>0xff\<close> also withdraws the 255
  addresses after it, which no agent will get: \<open>operator++\<close> of an IPv6 address leaves the
  trailing \<open>0xff\<close> bytes in place when it carries.
\<close>

theorem vtep6_allocation_skips:
  assumes "stout_lib lib" "iv_normal (vt_freeIP6 v)"
    "iv_lower (vt_freeIP6 v) = V6 (bs @ [b, 0xff])" "length bs = 14" "b \<noteq> 0xff"
    "allocateIP6 lib v = Ok (x, v')" "c \<noteq> 0xff"
  shows "naddr x = V6 (bs @ [b, 0xff]) \<and> V6 (bs @ [b + 1, c]) \<notin> covers (vt_freeIP6 v')"
proof -
  note r = stout_lib.alloc6_removes [OF assms(1,2,6)]
  note byte_below_max [OF assms(7)] byte_below_max [OF assms(5)]
  then have "V6 (bs @ [b + 1, c]) \<in> cell ip_succ (naddr x)"
    using r(1) assms(3) ip_succ_skips [OF assms(4,5)]
    by (simp add: cell_def less_imp_le)
  with r assms(3) show ?thesis by simp
qed

theorem vtep6_allocation_skips_witness:
  "\<exists>x v'. allocateIP6 ref_lib \<lparr>vt_network = Net (V4 0x2C800000) 29,
       vt_network6 = Some (Net (V6 (0xfd # replicate 15 0)) 64), vt_oui = [], vt_mtu = None,
       vt_freeIP = [], vt_freeIP6 = [(V6 (0xfd # replicate 13 0 @ [0, 0xff]),
         V6 (0xfd # replicate 13 0 @ [5, 0]))]\<rparr> = Ok (x, v') \<and>
     V6 ((0xfd # replicate 13 0) @ [1, 7]) \<notin> covers (vt_freeIP6 v')"
proof -
  let ?v = "\<lparr>vt_network = Net (V4 0x2C800000) 29,
       vt_network6 = Some (Net (V6 (0xfd # replicate 15 0)) 64), vt_oui = [], vt_mtu = None,
       vt_freeIP = [], vt_freeIP6 = [(V6 (0xfd # replicate 13 0 @ [0, 0xff]),
         V6 (0xfd # replicate 13 0 @ [5, 0]))]\<rparr> :: vtep"
  let ?bs = "0xfd # replicate 13 0 :: byte list"
  have a: "is_ok (allocateIP6 ref_lib ?v)" by code_simp
  then obtain x v' where r: "allocateIP6 ref_lib ?v = Ok (x, v')"
    by (cases "allocateIP6 ref_lib ?v") auto
  have "iv_normal (vt_freeIP6 ?v)" "iv_lower (vt_freeIP6 ?v) = V6 (?bs @ [0, 0xff])"
    by code_simp+
  from vtep6_allocation_skips [OF ref.stout_lib_axioms this _ _ r, of 7] r show ?thesis by simp
qed

end
