(* ===== verification/ProtoMessages.thy ===== *)
theory ProtoMessages
  imports Base
begin

text \<open>
  The protobuf messages of \<open>overlay/overlay.proto\<close> and \<open>overlay/messages.proto\<close> as records:
  an optional field is an \<open>option\<close>, a repeated field a list, a required field its value.
  Readers of optional fields return protobuf's default where the field is not set.
\<close>

section \<open>overlay.proto\<close>

record bridge_info =
  br_name :: string
  br_ip :: "string option"
  br_ip6 :: "string option"

record vxlan_info =
  vx_vni :: u32
  vx_vtep_name :: string
  vx_vtep_ip :: string
  vx_vtep_mac :: string
  vx_vtep_ip6 :: "string option"
  vx_vtep_mtu :: "u32 option"

record backend_info =
  be_vxlan :: "vxlan_info option"

record overlay_info =
  oi_name :: string
  oi_subnet :: "string option"
  oi_prefix :: "u32 option"
  oi_subnet6 :: "string option"
  oi_prefix6 :: "u32 option"
  oi_enabled :: "bool option"

datatype overlay_status = STATUS_INVALID | STATUS_OK | STATUS_FAILED | STATUS_CONFIGURING

record overlay_state =
  os_status :: "overlay_status option"
  os_error :: "string option"

record agent_overlay_info =
  ao_info :: overlay_info
  ao_subnet :: "string option"
  ao_mesos_bridge :: "bridge_info option"
  ao_docker_bridge :: "bridge_info option"
  ao_backend :: backend_info
  ao_state :: "overlay_state option"
  ao_subnet6 :: "string option"

record agent_info =
  ai_ip :: string
  ai_overlays :: "agent_overlay_info list"
  ai_attempts :: "u32 option"

record network_config =
  nc_vtep_subnet :: string
  nc_vtep_mac_oui :: string
  nc_overlays :: "overlay_info list"
  nc_vtep_subnet6 :: "string option"
  nc_vtep_mtu :: "u32 option"

record net_state =
  ns_network :: "network_config option"
  ns_agents :: "agent_info list"

definition empty_state :: net_state where
  "empty_state = \<lparr>ns_network = None, ns_agents = []\<rparr>"

section \<open>messages.proto\<close>

record agent_network_config =
  an_allocate_subnet :: "bool option"
  an_mesos_bridge :: "bool option"
  an_docker_bridge :: "bool option"
  an_overlay_mtu :: "u32 option"
  an_command_timeout :: "u32 option"
  an_enable_ipv6 :: "bool option"

definition default_network_config :: agent_network_config where
  "default_network_config =
    \<lparr>an_allocate_subnet = None, an_mesos_bridge = None, an_docker_bridge = None,
     an_overlay_mtu = None, an_command_timeout = None, an_enable_ipv6 = None\<rparr>"

definition field_or :: "'a \<Rightarrow> 'a option \<Rightarrow> 'a" where
  "field_or d f = (case f of None \<Rightarrow> d | Some v \<Rightarrow> v)"

lemma field_or_simps [simp]: "field_or d None = d" "field_or d (Some v) = v"
  by (simp_all add: field_or_def)

definition allocate_subnet :: "agent_network_config \<Rightarrow> bool" where
  "allocate_subnet c = field_or True (an_allocate_subnet c)"

definition mesos_bridge :: "agent_network_config \<Rightarrow> bool" where
  "mesos_bridge c = field_or True (an_mesos_bridge c)"

definition docker_bridge :: "agent_network_config \<Rightarrow> bool" where
  "docker_bridge c = field_or True (an_docker_bridge c)"

definition overlay_mtu :: "agent_network_config \<Rightarrow> u32" where
  "overlay_mtu c = field_or 1420 (an_overlay_mtu c)"

definition command_timeout :: "agent_network_config \<Rightarrow> u32" where
  "command_timeout c = field_or 15000 (an_command_timeout c)"

definition enable_ipv6 :: "agent_network_config \<Rightarrow> bool" where
  "enable_ipv6 c = field_or True (an_enable_ipv6 c)"

record zookeeper_config =
  zk_url :: "string option"
  zk_quorum :: "u32 option"
  zk_session_timeout :: "u32 option"

record master_config =
  mc_zk :: "zookeeper_config option"
  mc_log_dir :: "string option"
  mc_network :: network_config
  mc_log_timeout :: "string option"

section \<open>Readers of nested messages\<close>

definition default_vxlan :: vxlan_info where
  "default_vxlan =
    \<lparr>vx_vni = 0, vx_vtep_name = '''', vx_vtep_ip = '''', vx_vtep_mac = '''',
     vx_vtep_ip6 = None, vx_vtep_mtu = None\<rparr>"

definition vxlan_of :: "backend_info \<Rightarrow> vxlan_info" where
  "vxlan_of b = field_or default_vxlan (be_vxlan b)"

definition empty_overlay_info :: "string \<Rightarrow> overlay_info" where
  "empty_overlay_info nm =
    \<lparr>oi_name = nm, oi_subnet = None, oi_prefix = None, oi_subnet6 = None, oi_prefix6 = None,
     oi_enabled = None\<rparr>"

definition default_bridge :: bridge_info where
  "default_bridge = \<lparr>br_name = '''', br_ip = None, br_ip6 = None\<rparr>"

definition ao_name :: "agent_overlay_info \<Rightarrow> string" where
  "ao_name ao = oi_name (ao_info ao)"

definition clear_state :: "agent_overlay_info \<Rightarrow> agent_overlay_info" where
  "clear_state ao = ao\<lparr>ao_state := None\<rparr>"

definition status_of :: "agent_overlay_info \<Rightarrow> overlay_status" where
  "status_of ao =
     (case ao_state ao of None \<Rightarrow> STATUS_INVALID | Some st \<Rightarrow> field_or STATUS_INVALID (os_status st))"

definition has_status :: "agent_overlay_info \<Rightarrow> bool" where
  "has_status ao = (case ao_state ao of None \<Rightarrow> False | Some st \<Rightarrow> os_status st \<noteq> None)"

definition empty_ostate :: overlay_state where
  "empty_ostate = \<lparr>os_status = None, os_error = None\<rparr>"

definition set_status :: "overlay_status \<Rightarrow> agent_overlay_info \<Rightarrow> agent_overlay_info" where
  "set_status st ao = ao\<lparr>ao_state := Some ((field_or empty_ostate (ao_state ao))\<lparr>os_status := Some st\<rparr>)\<rparr>"

lemma ao_name_clear [simp]: "ao_name (clear_state ao) = ao_name ao"
  by (simp add: ao_name_def clear_state_def)

lemma ao_name_set_status [simp]: "ao_name (set_status st ao) = ao_name ao"
  by (simp add: ao_name_def set_status_def)

lemma status_of_set [simp]: "status_of (set_status st ao) = st"
  by (simp add: status_of_def set_status_def)

lemma has_status_set [simp]: "has_status (set_status st ao)"
  by (simp add: has_status_def set_status_def)

end
