(* ===== verification/OverlayPool.thy ===== *)
theory OverlayPool
  imports Stout FreePool ProtoMessages
begin

text \<open>
  \<open>struct Overlay\<close> of \<open>overlay/master.cpp\<close>: a virtual network and the pool of its agent
  subnets, the networks of the agent prefix length inside the overlay's network. The IPv4 half
  is an instance of the pool contract of \<open>FreePool\<close>, for an agent prefix that is not shorter
  than the overlay's and an overlay that does not end at 255.255.255.255.
\<close>

section \<open>State and operations\<close>

record overlay =
  ov_name :: string
  ov_network :: "network option"
  ov_network6 :: "network option"
  ov_prefix :: "byte option"
  ov_prefix6 :: "byte option"
  ov_freeNetworks :: "network ivset"
  ov_freeNetworks6 :: "network ivset"
  ov_enabled :: bool

text \<open>
  The first and the last agent subnet of a network, which the constructor and \<open>reset\<close> compute
  alike. \<open>0xffffffff << (32 - prefix)\<close> is undefined for a prefix of 0 or above 32.
\<close>

definition subnet_ends4 :: "network \<Rightarrow> byte option \<Rightarrow> (network \<times> network) res" where
  "subnet_ends4 n prefix =
     (case naddr n of
        V6 _ \<Rightarrow> Crash Option_None
      | V4 addr \<Rightarrow>
          bind_res (netmask n) (\<lambda>m.
            case m of
              V6 _ \<Rightarrow> Crash Option_None
            | V4 startMask \<Rightarrow>
                bind_res (opt_get prefix) (\<lambda>p.
                  if \<not> (1 \<le> unat p \<and> unat p \<le> 32) then Crash Undefined_Behaviour
                  else
                    (let endMask = mask4 p;
                         startAddr = addr AND startMask;
                         endAddr = (addr OR NOT startMask) AND endMask
                     in bind_res (mk_network (V4 startAddr) p) (\<lambda>startSubnet.
                        bind_res (mk_network (V4 endAddr) p) (\<lambda>endSubnet.
                          Ok (startSubnet, endSubnet)))))))"

definition subnet_ends6 :: "network \<Rightarrow> byte option \<Rightarrow> (network \<times> network) res" where
  "subnet_ends6 n prefix6 =
     (case naddr n of
        V4 _ \<Rightarrow> Crash Option_None
      | V6 addr6 \<Rightarrow>
          bind_res (netmask n) (\<lambda>m.
            case m of
              V4 _ \<Rightarrow> Crash Option_None
            | V6 startMask6 \<Rightarrow>
                bind_res (opt_get prefix6) (\<lambda>p.
                bind_res (to_mask p AF_INET6) (\<lambda>em.
                  case em of
                    V4 _ \<Rightarrow> Crash Option_None
                  | V6 endMask6 \<Rightarrow>
                      (let startAddr6 = and6 addr6 startMask6;
                           endAddr6 = and6 (or_not6 addr6 startMask6) endMask6
                       in bind_res (mk_network (V6 startAddr6) p) (\<lambda>startSubnet.
                          bind_res (mk_network (V6 endAddr6) p) (\<lambda>endSubnet.
                            Ok (startSubnet, endSubnet))))))))"

definition overlay_new ::
  "stout \<Rightarrow> string \<Rightarrow> network option \<Rightarrow> network option \<Rightarrow> byte option \<Rightarrow> byte option \<Rightarrow>
   bool \<Rightarrow> overlay res" where
  "overlay_new lib name network network6 prefix prefix6 enabled =
     bind_res (case network of
         None \<Rightarrow> Ok []
       | Some n \<Rightarrow> bind_res (subnet_ends4 n prefix) (\<lambda>(s, e).
           Ok (iv_insert (net_ivs lib) [] (Closed s) (Closed e)))) (\<lambda>f.
     bind_res (case network6 of
         None \<Rightarrow> Ok []
       | Some n \<Rightarrow> bind_res (subnet_ends6 n prefix6) (\<lambda>(s, e).
           Ok (iv_insert (net_ivs lib) [] (Closed s) (Closed e)))) (\<lambda>f6.
       Ok \<lparr>ov_name = name, ov_network = network, ov_network6 = network6, ov_prefix = prefix,
           ov_prefix6 = prefix6, ov_freeNetworks = f, ov_freeNetworks6 = f6,
           ov_enabled = enabled\<rparr>))"

definition getOverlayInfo :: "stout \<Rightarrow> overlay \<Rightarrow> overlay_info res" where
  "getOverlayInfo lib ov =
     (let info = \<lparr>oi_name = ov_name ov, oi_subnet = None, oi_prefix = None, oi_subnet6 = None,
                  oi_prefix6 = None, oi_enabled = None\<rparr> in
      bind_res (case ov_network ov of
          None \<Rightarrow> Ok info
        | Some n \<Rightarrow> bind_res (opt_get (ov_prefix ov)) (\<lambda>p.
            Ok (info\<lparr>oi_subnet := Some (show_net lib n), oi_prefix := Some (ucast p)\<rparr>)))
        (\<lambda>info4.
      bind_res (case ov_network6 ov of
          None \<Rightarrow> Ok info4
        | Some n \<Rightarrow> bind_res (opt_get (ov_prefix6 ov)) (\<lambda>p.
            Ok (info4\<lparr>oi_subnet6 := Some (show_net lib n), oi_prefix6 := Some (ucast p)\<rparr>)))
        (\<lambda>info6.
      Ok (info6\<lparr>oi_enabled := Some (ov_enabled ov)\<rparr>))))"

definition ovl_allocate :: "stout \<Rightarrow> overlay \<Rightarrow> (network \<times> overlay) res" where
  "ovl_allocate lib ov =
     (if \<not> ov_enabled ov then Error Overlay_Disabled
      else if ov_freeNetworks ov = [] then Error Exhausted
      else (let agentSubnet = iv_lower (ov_freeNetworks ov) in
        Ok (agentSubnet,
            ov\<lparr>ov_freeNetworks := iv_remove (net_ivs lib) (ov_freeNetworks ov) agentSubnet\<rparr>)))"

definition ovl_allocate6 :: "stout \<Rightarrow> overlay \<Rightarrow> (network \<times> overlay) res" where
  "ovl_allocate6 lib ov =
     (if \<not> ov_enabled ov then Error Overlay_Disabled
      else if ov_freeNetworks6 ov = [] then Error Exhausted
      else (let agentSubnet6 = iv_lower (ov_freeNetworks6 ov) in
        Ok (agentSubnet6,
            ov\<lparr>ov_freeNetworks6 := iv_remove (net_ivs lib) (ov_freeNetworks6 ov) agentSubnet6\<rparr>)))"

definition ovl_free :: "stout \<Rightarrow> overlay \<Rightarrow> network \<Rightarrow> overlay res" where
  "ovl_free lib ov subnet =
     bind_res (opt_get (ov_prefix ov)) (\<lambda>p.
       if nprefix subnet \<noteq> p then Error Prefix_Mismatch
       else bind_res (opt_get (ov_network ov)) (\<lambda>n.
         if nprefix subnet < nprefix n then Error Not_In_Overlay
         else bind_res (mk_network (naddr subnet) p) (\<lambda>s.
           Ok (ov\<lparr>ov_freeNetworks := iv_put (net_ivs lib) (ov_freeNetworks ov) s\<rparr>))))"

definition ovl_free6 :: "stout \<Rightarrow> overlay \<Rightarrow> network \<Rightarrow> overlay res" where
  "ovl_free6 lib ov subnet6 =
     bind_res (opt_get (ov_prefix6 ov)) (\<lambda>p.
       if nprefix subnet6 \<noteq> p then Error Prefix_Mismatch
       else bind_res (opt_get (ov_network6 ov)) (\<lambda>n.
         if nprefix subnet6 < nprefix n then Error Not_In_Overlay
         else bind_res (mk_network (naddr subnet6) p) (\<lambda>s.
           Ok (ov\<lparr>ov_freeNetworks6 := iv_put (net_ivs lib) (ov_freeNetworks6 ov) s\<rparr>))))"

definition ovl_reserve :: "stout \<Rightarrow> overlay \<Rightarrow> network \<Rightarrow> overlay res" where
  "ovl_reserve lib ov subnet =
     bind_res (netmask subnet) (\<lambda>m.
       case (m, naddr subnet) of
         (V4 mk, V4 address) \<Rightarrow>
           bind_res (mk_network (V4 (address AND mk)) (nprefix subnet)) (\<lambda>s.
             if \<not> iv_contains (net_ivs lib) (ov_freeNetworks ov) s then Error Unavailable
             else Ok (ov\<lparr>ov_freeNetworks := iv_remove (net_ivs lib) (ov_freeNetworks ov) s\<rparr>))
       | _ \<Rightarrow> Crash Option_None)"

definition ovl_reserve6 :: "stout \<Rightarrow> overlay \<Rightarrow> network \<Rightarrow> overlay res" where
  "ovl_reserve6 lib ov subnet6 =
     bind_res (netmask subnet6) (\<lambda>m.
       case (m, naddr subnet6) of
         (V6 mk, V6 address) \<Rightarrow>
           bind_res (mk_network (V6 (and6 address mk)) (nprefix subnet6)) (\<lambda>s.
             if \<not> iv_contains (net_ivs lib) (ov_freeNetworks6 ov) s then Error Unavailable
             else Ok (ov\<lparr>ov_freeNetworks6 := iv_remove (net_ivs lib) (ov_freeNetworks6 ov) s\<rparr>))
       | _ \<Rightarrow> Crash Option_None)"

text \<open>\<open>reset\<close>, whose bounds are open where those of the constructor are closed.\<close>

definition ovl_reset :: "stout \<Rightarrow> overlay \<Rightarrow> overlay res" where
  "ovl_reset lib ov =
     bind_res (case ov_network ov of
         None \<Rightarrow> Ok ov
       | Some n \<Rightarrow> bind_res (subnet_ends4 n (ov_prefix ov)) (\<lambda>(s, e).
           Ok (ov\<lparr>ov_freeNetworks := iv_insert (net_ivs lib) [] (Open s) (Open e)\<rparr>))) (\<lambda>ov1.
     case ov_network6 ov of
         None \<Rightarrow> Ok ov1
       | Some n \<Rightarrow> bind_res (subnet_ends6 n (ov_prefix6 ov)) (\<lambda>(s, e).
           Ok (ov1\<lparr>ov_freeNetworks6 := iv_insert (net_ivs lib) [] (Open s) (Open e)\<rparr>)))"


section \<open>Blocks inside a network\<close>

lemma block_coarser:
  assumes "unat q \<le> unat p" "unat p \<le> 32"
  shows "block q c = block p c div 2 ^ (host_bits q - host_bits p)"
proof -
  have "host_bits q = host_bits p + (host_bits q - host_bits p)"
    using assms by (simp add: host_bits_def)
  then have "(2::nat) ^ host_bits q = 2 ^ host_bits p * 2 ^ (host_bits q - host_bits p)"
    by (metis power_add)
  then show ?thesis by (simp add: block_def div_mult2_eq)
qed

lemma block_coarser_mono:
  "unat q \<le> unat p \<Longrightarrow> unat p \<le> 32 \<Longrightarrow> block p c \<le> block p d \<Longrightarrow> block q c \<le> block q d"
  by (simp add: block_coarser div_le_mono)

lemma block_coarser_eq:
  "unat q \<le> unat p \<Longrightarrow> unat p \<le> 32 \<Longrightarrow> block p c = block p d \<Longrightarrow> block q c = block q d"
  by (simp add: block_coarser)

lemma block_or_not [simp]: "block p (a OR NOT (mask4 p)) = block p a"
  using in_block_iff [of p "a OR NOT (mask4 p)" a] in_block_iff [of p a a]
  by (metis order_refl order_trans)

lemma aligned4_coarser:
  "unat q \<le> unat p \<Longrightarrow> aligned4 p (a AND mask4 q)"
  unfolding aligned4_def
  by (rule bit_word_eqI) (auto simp: bit_simps mask4_bit host_bits_def)

lemma block_between_ends:
  assumes "unat q \<le> unat p" "unat p \<le> 32"
  shows "block p (a AND mask4 q) \<le> block p c \<and> block p c \<le> block p (a OR NOT (mask4 q)) \<longleftrightarrow>
    block q c = block q a" (is "?L = ?R")
proof
  assume ?L
  then have "block q (a AND mask4 q) \<le> block q c" "block q c \<le> block q (a OR NOT (mask4 q))"
    using block_coarser_mono [OF assms] by blast+
  then show ?R by simp
next
  assume ?R
  then show ?L using in_block_iff [of q c a] by (simp add: block_mono)
qed

text \<open>The networks of prefix \<open>p\<close> inside the network of address \<open>a\<close> and prefix \<open>q\<close>.\<close>

definition slots :: "u32 \<Rightarrow> byte \<Rightarrow> byte \<Rightarrow> network set" where
  "slots a q p = {Net (V4 c) p | c. block q c = block q a}"

lemma span_slots:
  assumes "unat q \<le> unat p" "unat p \<le> 32" "\<not> last_block p (a OR NOT (mask4 q))"
  shows "span net_succ (Closed (Net (V4 (a AND mask4 q)) p))
      (Closed (Net (V4 ((a OR NOT (mask4 q)) AND mask4 p)) p)) = slots a q p"
proof -
  have l: "\<not> last_block p ((a OR NOT (mask4 q)) AND mask4 p)"
    using assms(3) by (simp add: last_block_def)
  show ?thesis
    by (simp add: span4 [OF aligned4_coarser [OF assms(1)] l] slots_def
        block_between_ends [OF assms(1,2)])
qed

lemma slot_not_last:
  assumes "unat q \<le> unat p" "unat p \<le> 32" "\<not> last_block p (a OR NOT (mask4 q))"
    "block q c = block q a"
  shows "\<not> last_block p c"
proof
  assume "last_block p c"
  then have "block p (a OR NOT (mask4 q)) \<le> block p c" by (rule last_block_greatest)
  moreover have "block p c \<le> block p (a OR NOT (mask4 q))"
    using block_between_ends [OF assms(1,2), of a c] assms(4) by simp
  ultimately show False
    using assms(3) \<open>last_block p c\<close> by (simp add: last_block_def)
qed


section \<open>The pool contract\<close>

fun aligned_net :: "network \<Rightarrow> bool" where
  "aligned_net (Net (V4 c) p) \<longleftrightarrow> aligned4 p c"
| "aligned_net (Net (V6 c) p) \<longleftrightarrow> False"

definition fits :: "u32 \<Rightarrow> byte \<Rightarrow> byte \<Rightarrow> bool" where
  "fits a q p \<longleftrightarrow>
     1 \<le> unat q \<and> unat q \<le> unat p \<and> unat p \<le> 32 \<and> \<not> last_block p (a OR NOT (mask4 q))"

definition whole :: "byte \<Rightarrow> network set \<Rightarrow> bool" where
  \<comment> \<open>with one address of a subnet, the set has them all\<close>
  "whole p A \<longleftrightarrow>
     (\<forall>c d. block p c = block p d \<longrightarrow> Net (V4 c) p \<in> A \<longrightarrow> Net (V4 d) p \<in> A)"

definition pool4 :: "u32 \<Rightarrow> byte \<Rightarrow> byte \<Rightarrow> network ivset \<Rightarrow> bool" where
  \<comment> \<open>the free list of an overlay holds whole subnets of the overlay\<close>
  "pool4 a q p s \<longleftrightarrow>
     fits a q p \<and> iv_normal s \<and> covers s \<subseteq> slots a q p \<and> whole p (covers s)"

lemma wholeD: "whole p A \<Longrightarrow> Net (V4 c) p \<in> A \<Longrightarrow> block p d = block p c \<Longrightarrow> Net (V4 d) p \<in> A"
  unfolding whole_def by metis

lemma wholeI:
  assumes "\<And>c d. Net (V4 c) p \<in> A \<Longrightarrow> block p d = block p c \<Longrightarrow> Net (V4 d) p \<in> A"
  shows "whole p A"
  unfolding whole_def using assms by metis

lemma whole_diff: "whole p A \<Longrightarrow> whole p (A - {Net (V4 d) p | d. block p d = k})"
  by (rule wholeI) (auto intro: wholeD)

lemma whole_un: "whole p A \<Longrightarrow> whole p (A \<union> {Net (V4 d) p | d. block p d = k})"
  by (rule wholeI) (auto intro: wholeD)

lemma whole_slots: "unat q \<le> unat p \<Longrightarrow> unat p \<le> 32 \<Longrightarrow> whole p (slots a q p)"
  by (rule wholeI) (auto simp: slots_def dest!: block_coarser_eq [of q p])

definition ovl_inv :: "overlay \<Rightarrow> bool" where
  "ovl_inv ov \<longleftrightarrow>
     (case ov_network ov of
        None \<Rightarrow> ov_freeNetworks ov = []
      | Some n \<Rightarrow>
          (case (naddr n, ov_prefix ov) of
             (V4 a, Some p) \<Rightarrow> pool4 a (nprefix n) p (ov_freeNetworks ov)
           | _ \<Rightarrow> False))"

definition ovl_free_set :: "overlay \<Rightarrow> network set" where
  "ovl_free_set ov = {x \<in> covers (ov_freeNetworks ov). aligned_net x}"

definition ovl_univ :: "overlay \<Rightarrow> network set" where
  "ovl_univ ov =
     (case (ov_network ov, ov_prefix ov) of
        (Some (Net (V4 a) q), Some p) \<Rightarrow> {x \<in> slots a q p. aligned_net x}
      | _ \<Rightarrow> {})"

lemma ovl_inv_cases:
  assumes "ovl_inv ov"
  obtains "ov_network ov = None" "ov_freeNetworks ov = []"
  | a q p where "ov_network ov = Some (Net (V4 a) q)" "ov_prefix ov = Some p"
      "pool4 a q p (ov_freeNetworks ov)"
  using assms
  by (cases "ov_network ov"; cases "the (ov_network ov)")
     (auto simp: ovl_inv_def split: ip.splits option.splits)

lemma slot_cell:
  assumes "fits a q p" "aligned4 p c" "block q c = block q a"
  shows "cell net_succ (Net (V4 c) p) = {Net (V4 d) p | d. block p d = block p c}"
  using assms slot_not_last [of q p a c] by (auto simp: fits_def intro!: cell4)

lemma slots_memD: "x \<in> slots a q p \<Longrightarrow> \<exists>c. x = Net (V4 c) p \<and> block q c = block q a"
  by (auto simp: slots_def)

lemma slots_mem [simp]: "Net (V4 c) p \<in> slots a q p \<longleftrightarrow> block q c = block q a"
  by (auto simp: slots_def)

lemma pool4_lower:
  assumes "pool4 a q p s" "s \<noteq> []"
  obtains c where "iv_lower s = Net (V4 c) p" "aligned4 p c" "Net (V4 c) p \<in> covers s"
    "block q c = block q a"
proof -
  from assms have n: "iv_normal s" and sub: "covers s \<subseteq> slots a q p" by (simp_all add: pool4_def)
  from covers_nonempty [OF n assms(2)] have m: "iv_lower s \<in> covers s" .
  with sub slots_memD obtain c where c: "iv_lower s = Net (V4 c) p" "block q c = block q a" by blast
  from assms(1) have "whole p (covers s)" by (simp add: pool4_def)
  from wholeD [OF this, of c "c AND mask4 p"] m c(1)
  have "Net (V4 (c AND mask4 p)) p \<in> covers s" by simp
  from covers_least [OF n this] c(1) have "c \<le> c AND mask4 p"
    by (auto simp: less_eq_network_def less_ip_def)
  moreover have "c AND mask4 p \<le> c" using in_block_iff [of p c c] by simp
  ultimately have "aligned4 p c" by (simp add: aligned4_def)
  with c m that show ?thesis by simp
qed

lemma aligned_cell:
  assumes "aligned4 p c"
  shows "{x \<in> {Net (V4 d) p | d. block p d = block p c}. aligned_net x} = {Net (V4 c) p}"
  using assms by (auto dest: aligned4_inj)

context stout_lib
begin

lemma pool4_remove:
  assumes "pool4 a q p s" "aligned4 p c" "block q c = block q a"
  shows "pool4 a q p (iv_remove (net_ivs lib) s (Net (V4 c) p))"
    "{x \<in> covers (iv_remove (net_ivs lib) s (Net (V4 c) p)). aligned_net x} =
     {x \<in> covers s. aligned_net x} - {Net (V4 c) p}"
proof -
  from assms(1) have n: "iv_normal s" and f: "fits a q p" by (simp_all add: pool4_def)
  note c = nets.covers_remove [OF n] slot_cell [OF f assms(2,3)]
  show "pool4 a q p (iv_remove (net_ivs lib) s (Net (V4 c) p))"
    using assms(1) whole_diff [of p "covers s" "block p c"]
    by (auto simp: pool4_def c nets.normal_remove simp del: Collect_conj_eq)
  show "{x \<in> covers (iv_remove (net_ivs lib) s (Net (V4 c) p)). aligned_net x} =
     {x \<in> covers s. aligned_net x} - {Net (V4 c) p}"
    unfolding c using aligned_cell [OF assms(2)] by blast
qed

lemma pool4_put:
  assumes "pool4 a q p s" "aligned4 p c" "block q c = block q a"
  shows "pool4 a q p (iv_put (net_ivs lib) s (Net (V4 c) p))"
    "{x \<in> covers (iv_put (net_ivs lib) s (Net (V4 c) p)). aligned_net x} =
     insert (Net (V4 c) p) {x \<in> covers s. aligned_net x}"
proof -
  from assms(1) have n: "iv_normal s" and f: "fits a q p" by (simp_all add: pool4_def)
  note c = nets.covers_put [OF n] slot_cell [OF f assms(2,3)]
  have "block q d = block q a" if "block p d = block p c" for d
    using block_coarser_eq [OF _ _ that, of q] f assms(3) by (simp add: fits_def)
  then show "pool4 a q p (iv_put (net_ivs lib) s (Net (V4 c) p))"
    using assms(1) whole_un [of p "covers s" "block p c"]
    by (auto simp: pool4_def c nets.normal_put)
  show "{x \<in> covers (iv_put (net_ivs lib) s (Net (V4 c) p)). aligned_net x} =
     insert (Net (V4 c) p) {x \<in> covers s. aligned_net x}"
    unfolding c using aligned_cell [OF assms(2)] by blast
qed

lemma ovl_alloc_spec:
  assumes "ovl_inv ov" "ovl_allocate lib ov = Ok (x, ov')"
  shows "x \<in> ovl_free_set ov \<and> ovl_inv ov' \<and> ovl_free_set ov' = ovl_free_set ov - {x} \<and>
    ovl_univ ov' = ovl_univ ov \<and> ov_enabled ov' = ov_enabled ov"
  using assms(1)
proof (cases rule: ovl_inv_cases)
  case 1
  with assms(2) show ?thesis by (simp add: ovl_allocate_def split: if_splits)
next
  case (2 a q p)
  from assms(2) have ne: "ov_freeNetworks ov \<noteq> []"
    by (auto simp: ovl_allocate_def split: if_splits)
  from pool4_lower [OF 2(3) ne] obtain c where
    c: "iv_lower (ov_freeNetworks ov) = Net (V4 c) p" "aligned4 p c"
      "Net (V4 c) p \<in> covers (ov_freeNetworks ov)" "block q c = block q a" .
  from assms(2) ne c(1) have r: "x = Net (V4 c) p"
    "ov' = ov\<lparr>ov_freeNetworks := iv_remove (net_ivs lib) (ov_freeNetworks ov) x\<rparr>"
    by (auto simp: ovl_allocate_def Let_def split: if_splits)
  with 2 c pool4_remove [OF 2(3) c(2,4)] show ?thesis
    by (auto simp: ovl_inv_def ovl_free_set_def ovl_univ_def)
qed

lemma ovl_alloc_exists:
  assumes "ovl_inv ov" "ov_enabled ov" "ovl_free_set ov \<noteq> {}"
  shows "\<exists>x ov'. ovl_allocate lib ov = Ok (x, ov')"
  using assms by (auto simp: ovl_allocate_def ovl_free_set_def Let_def)

lemma ovl_alloc_empty:
  assumes "ovl_inv ov" "ov_enabled ov" "ovl_free_set ov = {}"
  shows "ovl_allocate lib ov = Error Exhausted"
  using assms(1)
proof (cases rule: ovl_inv_cases)
  case (2 a q p)
  have "ov_freeNetworks ov = []"
  proof (rule ccontr)
    assume "ov_freeNetworks ov \<noteq> []"
    from pool4_lower [OF 2(3) this] obtain c where
      "aligned4 p c" "Net (V4 c) p \<in> covers (ov_freeNetworks ov)" .
    then have "Net (V4 c) p \<in> ovl_free_set ov" by (simp add: ovl_free_set_def)
    with assms(3) show False by simp
  qed
  with assms(2) show ?thesis by (simp add: ovl_allocate_def)
qed (use assms(2) in \<open>simp add: ovl_allocate_def\<close>)

lemma ovl_univE:
  assumes "ovl_inv ov" "x \<in> ovl_univ ov"
  obtains a q p c where "ov_network ov = Some (Net (V4 a) q)" "ov_prefix ov = Some p"
    "pool4 a q p (ov_freeNetworks ov)" "x = Net (V4 c) p" "aligned4 p c" "block q c = block q a"
  using assms(1)
proof (cases rule: ovl_inv_cases)
  case 1
  with assms(2) show ?thesis by (simp add: ovl_univ_def)
next
  case (2 a q p)
  with assms(2) obtain c where "x = Net (V4 c) p" "aligned4 p c" "block q c = block q a"
    by (auto simp: ovl_univ_def slots_def)
  with 2 that show ?thesis by blast
qed

lemma ovl_free_subset: "ovl_inv ov \<Longrightarrow> ovl_free_set ov \<subseteq> ovl_univ ov"
  by (erule ovl_inv_cases) (auto simp: ovl_free_set_def ovl_univ_def pool4_def)

lemma ovl_release_spec:
  assumes "ovl_inv ov" "x \<in> ovl_univ ov"
  shows "\<exists>ov'. ovl_free lib ov x = Ok ov' \<and> ovl_inv ov' \<and>
    ovl_free_set ov' = insert x (ovl_free_set ov) \<and> ovl_univ ov' = ovl_univ ov \<and>
    ov_enabled ov' = ov_enabled ov"
proof -
  from ovl_univE [OF assms] obtain a q p c where
    o: "ov_network ov = Some (Net (V4 a) q)" "ov_prefix ov = Some p"
      "pool4 a q p (ov_freeNetworks ov)" "x = Net (V4 c) p" "aligned4 p c" "block q c = block q a" .
  from o(3) have f: "\<not> p < q" "1 \<le> unat p" "unat p \<le> 32"
    by (auto simp: pool4_def fits_def word_less_nat_alt)
  with o have "ovl_free lib ov x =
      Ok (ov\<lparr>ov_freeNetworks := iv_put (net_ivs lib) (ov_freeNetworks ov) (Net (V4 c) p)\<rparr>)"
    by (simp add: ovl_free_def)
  with o pool4_put [OF o(3,5,6)] show ?thesis
    by (auto simp: ovl_inv_def ovl_free_set_def ovl_univ_def)
qed

lemma ovl_reserve_eq:
  assumes "ovl_inv ov" "x \<in> ovl_univ ov"
  shows "ovl_reserve lib ov x =
    (if x \<in> ovl_free_set ov
     then Ok (ov\<lparr>ov_freeNetworks := iv_remove (net_ivs lib) (ov_freeNetworks ov) x\<rparr>)
     else Error Unavailable)"
proof -
  from ovl_univE [OF assms] obtain a q p c where
    o: "ov_network ov = Some (Net (V4 a) q)" "ov_prefix ov = Some p"
      "pool4 a q p (ov_freeNetworks ov)" "x = Net (V4 c) p" "aligned4 p c" "block q c = block q a" .
  then have "1 \<le> unat p" "unat p \<le> 32" "iv_normal (ov_freeNetworks ov)" "c AND mask4 p = c"
    by (auto simp: pool4_def fits_def aligned4_def)
  with o show ?thesis
    by (simp add: ovl_reserve_def netmask_def nets.contains_iff ovl_free_set_def)
qed

lemma ovl_reserve_spec:
  assumes "ovl_inv ov" "x \<in> ovl_free_set ov"
  shows "\<exists>ov'. ovl_reserve lib ov x = Ok ov' \<and> ovl_inv ov' \<and>
    ovl_free_set ov' = ovl_free_set ov - {x} \<and> ovl_univ ov' = ovl_univ ov \<and>
    ov_enabled ov' = ov_enabled ov"
proof -
  have u: "x \<in> ovl_univ ov" using ovl_free_subset [OF assms(1)] assms(2) by blast
  from ovl_univE [OF assms(1) u] obtain a q p c where
    o: "ov_network ov = Some (Net (V4 a) q)" "ov_prefix ov = Some p"
      "pool4 a q p (ov_freeNetworks ov)" "x = Net (V4 c) p" "aligned4 p c" "block q c = block q a" .
  with pool4_remove [OF o(3,5,6)] assms(2) ovl_reserve_eq [OF assms(1) u] show ?thesis
    by (auto simp: ovl_inv_def ovl_free_set_def ovl_univ_def)
qed

lemma ovl_free_pool:
  "free_pool ovl_inv ov_enabled ovl_free_set ovl_univ
     (ovl_allocate lib) (ovl_free lib) (ovl_reserve lib)"
proof (rule free_pool.intro)
  show "ovl_reserve lib ov x = Error Unavailable"
    if "ovl_inv ov" "x \<in> ovl_univ ov" "x \<notin> ovl_free_set ov" for ov x
    using that by (simp add: ovl_reserve_eq)
qed (rule ovl_free_subset ovl_alloc_exists ovl_alloc_spec ovl_alloc_empty ovl_release_spec
    ovl_reserve_spec; assumption)+

end

sublocale stout_lib \<subseteq> opool: free_pool ovl_inv ov_enabled ovl_free_set ovl_univ
  "ovl_allocate lib" "ovl_free lib" "ovl_reserve lib"
  by (rule ovl_free_pool)

interpretation ref_opool: free_pool ovl_inv ov_enabled ovl_free_set ovl_univ
  "ovl_allocate ref_lib" "ovl_free ref_lib" "ovl_reserve ref_lib"
  by (rule ref.opool.free_pool_axioms)

lemma block_of_nat:
  assumes "k < 2 ^ (32 - host_bits p)"
  shows "block p (of_nat (k * 2 ^ host_bits p)) = k" "aligned4 p (of_nat (k * 2 ^ host_bits p))"
proof -
  have "k * 2 ^ host_bits p < 2 ^ (32 - host_bits p) * 2 ^ host_bits p" using assms by simp
  also have "\<dots> = 2 ^ 32" by (simp add: host_bits_def flip: power_add)
  finally have u: "unat (of_nat (k * 2 ^ host_bits p) :: u32) = k * 2 ^ host_bits p"
    by (simp add: unsigned_of_nat take_bit_nat_eq_self del: of_nat_mult)
  then show "block p (of_nat (k * 2 ^ host_bits p)) = k" by (simp add: block_def del: of_nat_mult)
  with u show "aligned4 p (of_nat (k * 2 ^ host_bits p))" by (simp add: aligned4_iff del: of_nat_mult)
qed

lemma aligned_slots_eq:
  "{x \<in> slots a q p. aligned_net x} = (\<lambda>c. Net (V4 c) p) ` {c. aligned4 p c \<and> block q c = block q a}"
  by (auto simp: slots_def)

lemma card_aligned_slots:
  assumes "unat q \<le> unat p" "unat p \<le> 32"
  shows "card {x \<in> slots a q p. aligned_net x} = 2 ^ (unat p - unat q)"
    and "finite {x \<in> slots a q p. aligned_net x}"
proof -
  let ?A = "{c. aligned4 p c \<and> block q c = block q a}" and ?d = "host_bits q - host_bits p"
  have d: "?d = unat p - unat q" using assms by (simp add: host_bits_def)
  have "block p ` ?A = {block q a * 2 ^ ?d ..< Suc (block q a) * 2 ^ ?d}"
  proof (rule set_eqI, rule iffI)
    fix k assume k: "k \<in> {block q a * 2 ^ ?d ..< Suc (block q a) * 2 ^ ?d}"
    then have kd: "k div 2 ^ ?d = block q a"
      using div_eq_iff_between [of "2 ^ ?d" k "block q a"] by auto
    have "Suc (block q a) \<le> 2 ^ (32 - host_bits q)"
      using block_less [of q a] by (simp add: Suc_le_eq)
    then have "Suc (block q a) * 2 ^ ?d \<le> 2 ^ (32 - host_bits q) * 2 ^ ?d"
      by (rule mult_le_mono1)
    also have "\<dots> = 2 ^ (32 - host_bits p)"
      using assms by (simp add: host_bits_def flip: power_add)
    finally have "k < 2 ^ (32 - host_bits p)" using k by simp
    note n = block_of_nat [OF this]
    then have "of_nat (k * 2 ^ host_bits p) \<in> ?A"
      using kd by (simp add: block_coarser [OF assms] del: of_nat_mult)
    with n(1) show "k \<in> block p ` ?A" by (metis image_eqI)
  next
    fix k assume "k \<in> block p ` ?A"
    then have "k div 2 ^ ?d = block q a" by (auto simp: block_coarser [OF assms])
    moreover have pos: "(0::nat) < 2 ^ ?d" by simp
    ultimately have "block q a * 2 ^ ?d \<le> k" "k \<le> block q a * 2 ^ ?d + (2 ^ ?d - 1)"
      using div_eq_iff_between [OF pos] by blast+
    then show "k \<in> {block q a * 2 ^ ?d ..< Suc (block q a) * 2 ^ ?d}"
      unfolding atLeastLessThan_iff mult_Suc using pos by linarith
  qed
  moreover have "card (block p ` ?A) = card ?A"
    by (rule card_image) (auto simp: inj_on_def dest: aligned4_inj)
  ultimately have c: "card ?A = 2 ^ ?d" by simp
  show "card {x \<in> slots a q p. aligned_net x} = 2 ^ (unat p - unat q)"
    unfolding aligned_slots_eq by (subst card_image) (auto simp: inj_on_def c d)
  show "finite {x \<in> slots a q p. aligned_net x}" unfolding aligned_slots_eq by simp
qed

lemma subnet_ends4_ok:
  assumes "1 \<le> unat q" "unat q \<le> 32" "1 \<le> unat p" "unat p \<le> 32"
  shows "subnet_ends4 (Net (V4 a) q) (Some p) =
    Ok (Net (V4 (a AND mask4 q)) p, Net (V4 ((a OR NOT (mask4 q)) AND mask4 p)) p)"
  using assms by (simp add: subnet_ends4_def netmask_def)

lemma last_block_top: "last_block p ((a OR NOT (mask4 q)) AND mask4 p) = last_block p (a OR NOT (mask4 q))"
  by (simp add: last_block_def)

context stout_lib
begin

lemma overlay_new_inv:
  assumes "overlay_new lib name (Some (Net (V4 a) q)) n6 (Some p) p6 en = Ok ov"
    "fits a q p"
  shows "ovl_inv ov" "ovl_free_set ov = ovl_univ ov" "ov_enabled ov = en"
    "ovl_univ ov = {x \<in> slots a q p. aligned_net x}"
proof -
  from assms(2) have b: "1 \<le> unat q" "unat q \<le> 32" "1 \<le> unat p" "unat p \<le> 32" "unat q \<le> unat p"
    "\<not> last_block p (a OR NOT (mask4 q))"
    by (auto simp: fits_def)
  from assms(1) have v: "ov_network ov = Some (Net (V4 a) q)" "ov_prefix ov = Some p"
    "ov_enabled ov = en" "ov_freeNetworks ov = iv_insert (net_ivs lib) []
      (Closed (Net (V4 (a AND mask4 q)) p)) (Closed (Net (V4 ((a OR NOT (mask4 q)) AND mask4 p)) p))"
    by (auto simp: overlay_new_def subnet_ends4_ok [OF b(1-4)] res_simps)
  have c: "covers (ov_freeNetworks ov) = slots a q p" "iv_normal (ov_freeNetworks ov)"
    unfolding v(4) by (simp_all only: nets.normal_fresh nets.fresh_insert span_slots [OF b(5,4,6)])
  show "ovl_inv ov" using assms(2) c v whole_slots [OF b(5,4)] by (simp add: ovl_inv_def pool4_def)
  show "ovl_free_set ov = ovl_univ ov" using c v by (simp add: ovl_free_set_def ovl_univ_def)
  show "ov_enabled ov = en" by (rule v(3))
  show "ovl_univ ov = {x \<in> slots a q p. aligned_net x}" using v by (simp add: ovl_univ_def)
qed

lemma reset_free_set:
  assumes "ovl_inv ov" "ov_network ov = Some (Net (V4 a) q)" "ov_prefix ov = Some p"
    "ovl_reset lib ov = Ok ov'"
  shows "ovl_free_set ov' = ovl_univ ov -
    {Net (V4 (a AND mask4 q)) p, Net (V4 ((a OR NOT (mask4 q)) AND mask4 p)) p}"
proof -
  let ?s = "a AND mask4 q" and ?e = "(a OR NOT (mask4 q)) AND mask4 p"
  have f: "fits a q p" using assms(1-3) by (simp add: ovl_inv_def pool4_def)
  from f have b: "1 \<le> unat q" "unat q \<le> 32" "1 \<le> unat p" "unat p \<le> 32" "unat q \<le> unat p"
    "\<not> last_block p (a OR NOT (mask4 q))"
    by (auto simp: fits_def)
  have sq: "block q ?s = block q a" by simp
  have al: "aligned4 p ?s" "aligned4 p ?e" using aligned4_coarser [OF b(5)] aligned4_and_mask by auto
  from assms(2-4) have "ov_freeNetworks ov' = iv_insert (net_ivs lib) [] (Open (Net (V4 ?s) p)) (Open (Net (V4 ?e) p))"
    by (auto simp: ovl_reset_def subnet_ends4_ok [OF b(1-4)] res_simps split: option.splits prod.splits)
  then have c: "covers (ov_freeNetworks ov') = span net_succ (Open (Net (V4 ?s) p)) (Open (Net (V4 ?e) p))"
    by (simp only: nets.fresh_insert)
  have nl: "\<not> last_block p ?s" by (rule slot_not_last [OF b(5,4,6) sq])
  have iff: "next4 p ?s \<le> c \<longleftrightarrow> block p ?s < block p c" "c < ?e \<longleftrightarrow> block p c < block p ?e" for c
    using less_next4_iff [OF nl, of c] aligned4_le_iff [OF al(2), of c] by (auto simp: not_le)
  have m: "x \<in> ovl_free_set ov' \<longleftrightarrow> (\<exists>c. x = Net (V4 c) p \<and> aligned4 p c \<and>
      block p ?s < block p c \<and> block p c < block p ?e)" for x
    unfolding ovl_free_set_def c span_def using between4_iff [of "next4 p ?s" p x ?e]
    by (auto simp: net_succ4 iff)
  have u: "x \<in> ovl_univ ov \<longleftrightarrow> (\<exists>c. x = Net (V4 c) p \<and> aligned4 p c \<and>
      block p ?s \<le> block p c \<and> block p c \<le> block p ?e)" for x
    using block_between_ends [OF b(5,4), of a] assms(2,3) by (auto simp: ovl_univ_def slots_def)
  have eqs: "block p ?s = block p c \<longleftrightarrow> c = ?s" "block p c = block p ?e \<longleftrightarrow> c = ?e"
    if "aligned4 p c" for c
    using that al aligned4_inj by metis+
  show ?thesis
  proof (rule set_eqI)
    fix x
    show "x \<in> ovl_free_set ov' \<longleftrightarrow> x \<in> ovl_univ ov - {Net (V4 ?s) p, Net (V4 ?e) p}"
      unfolding m Diff_iff u by (auto simp: less_le eqs simp del: block_and_mask)
  qed
qed

end

text \<open>What is handed out: different slots of an overlay are disjoint and lie inside it.\<close>

lemma slots_disjoint:
  assumes "fits a q p" and xs: "distinct xs" "set xs \<subseteq> {x \<in> slots a q p. aligned_net x}"
  shows "(\<forall>i < length xs. nprefix (xs ! i) = p \<and> addr_range (xs ! i) \<noteq> {} \<and>
        addr_range (xs ! i) \<subseteq> addr_range (Net (V4 a) q)) \<and>
      (\<forall>i < length xs. \<forall>j < length xs. i \<noteq> j \<longrightarrow> addr_range (xs ! i) \<inter> addr_range (xs ! j) = {})"
proof -
  from assms(1) have b: "unat q \<le> unat p" "unat p \<le> 32" by (simp_all add: fits_def)
  have "\<exists>c. xs ! i = Net (V4 c) p \<and> aligned4 p c \<and> block q c = block q a" if "i < length xs" for i
    using nth_mem [OF that] xs(2) by (auto simp: slots_def)
  then obtain f where f: "\<And>i. i < length xs \<Longrightarrow>
      xs ! i = Net (V4 (f i)) p \<and> aligned4 p (f i) \<and> block q (f i) = block q a" by metis
  have r: "addr_range (xs ! i) = {V4 d | d. block p d = block p (f i)}" if "i < length xs" for i
    using f [OF that] assms(1) addr_range4 [of "f i" p] by (auto simp: fits_def)
  have w: "addr_range (Net (V4 a) q) = {V4 d | d. block q d = block q a}"
    using assms(1) by (intro addr_range4) (simp add: fits_def)
  have d: "addr_range (xs ! i) \<inter> addr_range (xs ! j) = {}" if "i < length xs" "j < length xs" "i \<noteq> j" for i j
  proof -
    have "xs ! i \<noteq> xs ! j" using xs(1) that by (simp add: nth_eq_iff_index_eq)
    with f [OF that(1)] f [OF that(2)] aligned4_inj have "block p (f i) \<noteq> block p (f j)" by metis
    with r that show ?thesis by auto
  qed
  have e: "nprefix (xs ! i) = p \<and> addr_range (xs ! i) \<noteq> {} \<and>
    addr_range (xs ! i) \<subseteq> addr_range (Net (V4 a) q)" if "i < length xs" for i
  proof (intro conjI)
    show "nprefix (xs ! i) = p" using f [OF that] by simp
    show "addr_range (xs ! i) \<noteq> {}" unfolding r [OF that] by blast
    show "addr_range (xs ! i) \<subseteq> addr_range (Net (V4 a) q)"
      unfolding r [OF that] w using block_coarser_eq [OF b, of _ "f i"] f [OF that] by auto
  qed
  show ?thesis using d e by blast
qed

section \<open>Properties\<close>

text \<open>
  C28: The subnet pool of an enabled overlay whose agent prefix \<open>p\<close> is not
  shorter than its own \<open>q\<close> hands out exactly \<open>2 ^ (p - q)\<close>
  subnets: up to that number, consecutive allocations succeed, every subnet has the agent
  prefix and lies inside the overlay, and the address ranges of any two are disjoint;
  beyond it, allocation reports exhaustion.
\<close>

theorem overlay_subnets_disjoint:
  assumes "stout_lib lib" "fits a q p"
    "overlay_new lib name (Some (Net (V4 a) q)) n6 (Some p) p6 True = Ok ov"
  shows "if n \<le> 2 ^ (unat p - unat q)
    then \<exists>xs ov'. pool_take (ovl_allocate lib) n ov = Ok (xs, ov') \<and> length xs = n \<and>
      (\<forall>i < n. nprefix (xs ! i) = p \<and> addr_range (xs ! i) \<noteq> {} \<and>
        addr_range (xs ! i) \<subseteq> addr_range (Net (V4 a) q)) \<and>
      (\<forall>i < n. \<forall>j < n. i \<noteq> j \<longrightarrow> addr_range (xs ! i) \<inter> addr_range (xs ! j) = {})
    else pool_take (ovl_allocate lib) n ov = Error Exhausted"
proof -
  note pool = stout_lib.ovl_free_pool [OF assms(1)]
  note new = stout_lib.overlay_new_inv [OF assms(1,3,2)]
  from assms(2) have b: "unat q \<le> unat p" "unat p \<le> 32" by (simp_all add: fits_def)
  have c: "finite (ovl_free_set ov)" "card (ovl_free_set ov) = 2 ^ (unat p - unat q)"
    using card_aligned_slots [OF b] by (simp_all only: new)
  note take = free_pool.take_succeeds [OF pool new(1) _ c(1)]
    free_pool.take_exhausts [OF pool new(1) _ c(1)] free_pool.take_spec [OF pool new(1)]
  show ?thesis
  proof (cases "n \<le> 2 ^ (unat p - unat q)")
    case True
    with take(1) c(2) new(3) obtain xs ov' where
      t: "pool_take (ovl_allocate lib) n ov = Ok (xs, ov')" by metis
    from take(3) [OF this] new(2,4) have
      xs: "length xs = n" "distinct xs" "set xs \<subseteq> {x \<in> slots a q p. aligned_net x}" by simp_all
    from slots_disjoint [OF assms(2) xs(2,3)] show ?thesis unfolding if_P [OF True] xs(1) using t xs(1) by blast
  next
    case False
    then have "card (ovl_free_set ov) < n" using c(2) by simp
    from take(2) [OF _ this] new(3) show ?thesis unfolding if_not_P [OF False] by simp
  qed
qed

theorem overlay_subnets_disjoint_witness:
  "\<exists>xs ov'. pool_take (ovl_allocate ref_lib) 4
     \<lparr>ov_name = ''dcos'', ov_network = Some (Net (V4 0x09000000) 22), ov_network6 = None,
      ov_prefix = Some 24, ov_prefix6 = None,
      ov_freeNetworks = [(Net (V4 0x09000000) 24, Net (V4 0x09000400) 24)],
      ov_freeNetworks6 = [], ov_enabled = True\<rparr> = Ok (xs, ov') \<and>
     addr_range (xs ! 0) \<inter> addr_range (xs ! 3) = {}"
proof -
  have n: "overlay_new ref_lib ''dcos'' (Some (Net (V4 0x09000000) 22)) None (Some 24) None True = Ok
     \<lparr>ov_name = ''dcos'', ov_network = Some (Net (V4 0x09000000) 22), ov_network6 = None,
      ov_prefix = Some 24, ov_prefix6 = None,
      ov_freeNetworks = [(Net (V4 0x09000000) 24, Net (V4 0x09000400) 24)],
      ov_freeNetworks6 = [], ov_enabled = True\<rparr>"
    by code_simp
  have f: "fits 0x09000000 22 24"
    by (simp add: fits_def last_block_def block_def host_bits_def mask4_def)
  from overlay_subnets_disjoint [OF ref.stout_lib_axioms f n, of 4] show ?thesis by fastforce
qed

text \<open>
  \<open>reset\<close> does not restore the pool that the constructor builds: the
  constructor makes every subnet of the overlay free, \<open>reset\<close> every one but
  the first and the last.
\<close>

theorem overlay_reset_loses_ends:
  assumes "stout_lib lib" "fits a q p"
    "overlay_new lib name (Some (Net (V4 a) q)) n6 (Some p) p6 True = Ok ov"
    "ovl_reset lib ov = Ok ov'"
  shows "ovl_free_set ov = ovl_univ ov \<and>
    ovl_free_set ov' = ovl_univ ov -
      {Net (V4 (a AND mask4 q)) p, Net (V4 ((a OR NOT (mask4 q)) AND mask4 p)) p}"
proof -
  note new = stout_lib.overlay_new_inv [OF assms(1,3,2)]
  from assms(3) have "ov_network ov = Some (Net (V4 a) q)" "ov_prefix ov = Some p"
    by (auto simp: overlay_new_def res_simps)
  from new(2) stout_lib.reset_free_set [OF assms(1) new(1) this assms(4)] show ?thesis by simp
qed

text \<open>
  An overlay that contains 255.255.255.255 has no subnet to give: stepping past its
  last subnet wraps to 0.0.0.0, so the interval of free subnets is empty and the first
  allocation reports exhaustion.
\<close>

theorem overlay_at_top_empty:
  assumes "stout_lib lib" "wf_network (Net (V4 a) q)" "wf_network (Net (V4 b) p)"
    "last_block p (a OR NOT (mask4 q))"
    "overlay_new lib name (Some (Net (V4 a) q)) n6 (Some p) p6 True = Ok ov"
  shows "ovl_allocate lib ov = Error Exhausted"
proof -
  note laws = stout_lib.net_laws [OF assms(1)]
  from assms(2,3) have b: "1 \<le> unat q" "unat q \<le> 32" "1 \<le> unat p" "unat p \<le> 32" by simp_all
  let ?f = "iv_insert (net_ivs lib) []
      (Closed (Net (V4 (a AND mask4 q)) p)) (Closed (Net (V4 ((a OR NOT (mask4 q)) AND mask4 p)) p))"
  from assms(5) have v: "ov_enabled ov" "ov_freeNetworks ov = ?f"
    by (auto simp: overlay_new_def subnet_ends4_ok [OF b] res_simps)
  have "covers ?f = {}"
    using span4_last [of p "(a OR NOT (mask4 q)) AND mask4 p"] assms(4)
    by (simp add: interval_set.fresh_insert [OF laws] last_block_top)
  then have "?f = []"
    using covers_empty_iff interval_set.normal_fresh [OF laws] by blast
  with v show ?thesis by (simp add: ovl_allocate_def)
qed

text \<open>
  C40: An IPv6 subnet that its own successor does not exceed is handed out again by the
  next allocation: removing it from the free list removes nothing. The witness is an
  overlay of prefix 72 with agent prefix 81, whose second and third allocation return the
  same subnet.
\<close>

theorem overlay6_repeats_subnet:
  assumes "stout_lib lib" "iv_normal (ov_freeNetworks6 ov)" "ovl_allocate6 lib ov = Ok (x, ov1)"
    "\<not> x < net_succ x"
  shows "\<exists>ov2. ovl_allocate6 lib ov1 = Ok (x, ov2)"
proof -
  note laws = stout_lib.net_laws [OF assms(1)]
  from assms(3) have x: "x = iv_lower (ov_freeNetworks6 ov)" "ov_enabled ov" "ov_freeNetworks6 ov \<noteq> []"
    "ov1 = ov\<lparr>ov_freeNetworks6 := iv_remove (net_ivs lib) (ov_freeNetworks6 ov) x\<rparr>"
    by (auto simp: ovl_allocate6_def Let_def split: if_splits)
  let ?s = "ov_freeNetworks6 ov" and ?t = "iv_remove (net_ivs lib) (ov_freeNetworks6 ov) x"
  have n: "iv_normal ?t" and c: "covers ?t = covers ?s"
    using interval_set.removed_stays_free [OF laws assms(2,4)]
      interval_set.normal_remove [OF laws assms(2)] by simp_all
  have m: "iv_lower ?s \<in> covers ?s" by (rule covers_nonempty [OF assms(2) x(3)])
  then have ne: "?t \<noteq> []" using c by auto
  have "iv_lower ?t = iv_lower ?s"
    using covers_least [OF n, of "iv_lower ?s"] covers_least [OF assms(2), of "iv_lower ?t"]
      covers_nonempty [OF n ne] m c by (simp add: antisym)
  with x ne show ?thesis by (simp add: ovl_allocate6_def Let_def)
qed


theorem overlay_reset_loses_ends_witness:
  "\<exists>ov'. ovl_reset ref_lib
     \<lparr>ov_name = ''dcos'', ov_network = Some (Net (V4 0x09000000) 22), ov_network6 = None,
      ov_prefix = Some 24, ov_prefix6 = None,
      ov_freeNetworks = [(Net (V4 0x09000000) 24, Net (V4 0x09000400) 24)],
      ov_freeNetworks6 = [], ov_enabled = True\<rparr> = Ok ov' \<and>
     Net (V4 0x09000000) 24 \<notin> ovl_free_set ov'"
proof -
  let ?ov = "\<lparr>ov_name = ''dcos'', ov_network = Some (Net (V4 0x09000000) 22), ov_network6 = None,
      ov_prefix = Some 24, ov_prefix6 = None,
      ov_freeNetworks = [(Net (V4 0x09000000) 24, Net (V4 0x09000400) 24)],
      ov_freeNetworks6 = [], ov_enabled = True\<rparr>"
  have n: "overlay_new ref_lib ''dcos'' (Some (Net (V4 0x09000000) 22)) None (Some 24) None True = Ok ?ov"
    by code_simp
  have f: "fits 0x09000000 22 24"
    by (simp add: fits_def last_block_def block_def host_bits_def mask4_def)
  have r: "ovl_reset ref_lib ?ov =
      Ok (?ov\<lparr>ov_freeNetworks := [(Net (V4 0x09000100) 24, Net (V4 0x09000300) 24)]\<rparr>)"
    by code_simp
  from overlay_reset_loses_ends [OF ref.stout_lib_axioms f n r] r show ?thesis
    by (simp add: mask4_def)
qed

theorem overlay_at_top_empty_witness:
  "\<exists>ov. overlay_new ref_lib ''top'' (Some (Net (V4 0xFFFF0000) 16)) None (Some 24) None True = Ok ov \<and>
     ovl_allocate ref_lib ov = Error Exhausted"
proof -
  have n: "overlay_new ref_lib ''top'' (Some (Net (V4 0xFFFF0000) 16)) None (Some 24) None True = Ok
     \<lparr>ov_name = ''top'', ov_network = Some (Net (V4 0xFFFF0000) 16), ov_network6 = None,
      ov_prefix = Some 24, ov_prefix6 = None, ov_freeNetworks = [], ov_freeNetworks6 = [],
      ov_enabled = True\<rparr>"
    by code_simp
  have "last_block 24 (0xFFFF0000 OR NOT (mask4 16))"
    by (simp add: last_block_def block_def host_bits_def mask4_def)
  from overlay_at_top_empty [OF ref.stout_lib_axioms _ _ this n] n show ?thesis by simp
qed

theorem overlay6_repeats_subnet_witness:
  "\<exists>x ov1 ov2 ov3. bind_res (overlay_new ref_lib ''v6'' None
       (Some (Net (V6 (0xfd # replicate 15 0)) 72)) None (Some 81) True) (ovl_allocate6 ref_lib) =
       Ok (Net (V6 (0xfd # replicate 15 0)) 81, ov1) \<and>
     ovl_allocate6 ref_lib ov1 = Ok (x, ov2) \<and> ovl_allocate6 ref_lib ov2 = Ok (x, ov3)"
proof -
  let ?ov = "\<lparr>ov_name = ''v6'', ov_network = None,
      ov_network6 = Some (Net (V6 (0xfd # replicate 15 0)) 72), ov_prefix = None, ov_prefix6 = Some 81,
      ov_freeNetworks = [], ov_freeNetworks6 = [(Net (V6 (0xfd # replicate 9 0 @ 0x80 # replicate 5 0)) 81,
        Net (V6 (0xfd # replicate 8 0 @ 0xff # replicate 6 0)) 81)], ov_enabled = True\<rparr>"
  let ?x = "Net (V6 (0xfd # replicate 9 0 @ 0x80 # replicate 5 0)) 81"
  have a: "bind_res (overlay_new ref_lib ''v6'' None
       (Some (Net (V6 (0xfd # replicate 15 0)) 72)) None (Some 81) True) (ovl_allocate6 ref_lib) =
       Ok (Net (V6 (0xfd # replicate 15 0)) 81, ?ov)"
    by code_simp
  have n: "iv_normal (ov_freeNetworks6 ?ov)" by code_simp
  have b: "ovl_allocate6 ref_lib ?ov = Ok (?x, ?ov)" by code_simp
  have c: "\<not> ?x < net_succ ?x" by code_simp
  from overlay6_repeats_subnet [OF ref.stout_lib_axioms n b c] a b show ?thesis by blast
qed

end
