(* ===== verification/AgentDB.thy ===== *)
theory AgentDB
  imports VtepPool OverlayPool
begin

text \<open>
  \<open>class Agent\<close> of \<open>overlay/master.cpp\<close>: the master's record of one agent, its backend (the
  VTEP address and MAC) and the overlays it takes part in with the subnets it was given, and
  the counters of \<open>overlay/master_metrics.hpp\<close>. \<open>addOverlays\<close> is where subnets are handed out;
  its lemmas say which subnets an agent gains and that the pools lose exactly what was tried.
\<close>

section \<open>Counters\<close>

record master_metrics =
  mm_recovering :: nat
  mm_ip_failures :: nat
  mm_ip6_failures :: nat
  mm_subnet_failures :: nat
  mm_subnet6_failures :: nat
  mm_bridge_failures :: nat
  mm_register_received :: nat
  mm_register_dropped :: nat
  mm_updates_sent :: nat
  mm_registered_received :: nat
  mm_registered_dropped :: nat
  mm_acks_sent :: nat

definition metrics0 :: master_metrics where
  "metrics0 =
    \<lparr>mm_recovering = 0, mm_ip_failures = 0, mm_ip6_failures = 0, mm_subnet_failures = 0,
     mm_subnet6_failures = 0, mm_bridge_failures = 0, mm_register_received = 0,
     mm_register_dropped = 0, mm_updates_sent = 0, mm_registered_received = 0,
     mm_registered_dropped = 0, mm_acks_sent = 0\<rparr>"

section \<open>The record of an agent\<close>

record agent =
  ag_backend :: "backend_info option"
  ag_overlays :: "(string \<times> agent_overlay_info) list"
  ag_ip :: ip

definition addOverlay :: "agent_overlay_info \<Rightarrow> agent \<Rightarrow> agent" where
  "addOverlay ao a =
     (if hm_contains (ag_overlays a) (ao_name ao) then a
      else a\<lparr>ag_overlays := hm_emplace (ag_overlays a) (ao_name ao) ao\<rparr>)"

definition getOverlays :: "agent \<Rightarrow> agent_overlay_info list" where
  "getOverlays a = map snd (ag_overlays a)"

definition clearOverlaysState :: "agent \<Rightarrow> agent" where
  "clearOverlaysState a = a\<lparr>ag_overlays := map (\<lambda>(k, ao). (k, clear_state ao)) (ag_overlays a)\<rparr>"

definition agent_create :: "stout \<Rightarrow> agent_info \<Rightarrow> agent res" where
  "agent_create lib info =
     bind_res (ovl_ip_parse lib AF_INET (ai_ip info)) (\<lambda>ip.
       let backend = (case ai_overlays info of [] \<Rightarrow> None | ao # _ \<Rightarrow> Some (ao_backend ao));
           agent0 = \<lparr>ag_backend = backend, ag_overlays = [], ag_ip = ip\<rparr>;
           agent1 = fold addOverlay (ai_overlays info) agent0
       in Ok (clearOverlaysState agent1))"

definition getBackendInfo :: "agent \<Rightarrow> backend_info res" where
  "getBackendInfo a = opt_get (ag_backend a)"

definition setBackendInfo :: "backend_info option \<Rightarrow> agent \<Rightarrow> agent" where
  "setBackendInfo b a = (case b of None \<Rightarrow> a | Some be \<Rightarrow> a\<lparr>ag_backend := Some be\<rparr>)"

definition getAgentInfo :: "stout \<Rightarrow> agent \<Rightarrow> agent_info" where
  "getAgentInfo lib a =
     \<lparr>ai_ip = show_ip lib (ag_ip a), ai_overlays = map snd (ag_overlays a), ai_attempts = None\<rparr>"

definition updateOverlayState :: "agent_overlay_info \<Rightarrow> agent \<Rightarrow> agent res" where
  \<comment> \<open>an unknown overlay is only logged before \<open>at\<close> is called on it\<close>
  "updateOverlayState ao a =
     bind_res (hm_at (ag_overlays a) (ao_name ao)) (\<lambda>old.
       Ok (a\<lparr>ag_overlays := hm_put (ag_overlays a) (ao_name ao) (set_status (status_of ao) old)\<rparr>))"

section \<open>Bridges\<close>

definition MESOS_BRIDGE_PREFIX :: string where "MESOS_BRIDGE_PREFIX = ''m-''"

definition DOCKER_BRIDGE_PREFIX :: string where "DOCKER_BRIDGE_PREFIX = ''d-''"

definition half_subnet :: "stout \<Rightarrow> family \<Rightarrow> string option \<Rightarrow> network option res" where
  \<comment> \<open>the lower half of the agent's subnet, for the Mesos bridge\<close>
  "half_subnet lib f subnet =
     (case subnet of
        None \<Rightarrow> Ok None
      | Some s \<Rightarrow>
          bind_res (network_parse lib f s) (\<lambda>n.
          bind_res (mk_network (naddr n) (nprefix n + 1)) (\<lambda>h. Ok (Some h))))"

definition allocateBridges ::
  "stout \<Rightarrow> agent_network_config \<Rightarrow> agent_overlay_info \<Rightarrow> agent_overlay_info res" where
  "allocateBridges lib cfg ao =
     (if \<not> mesos_bridge cfg \<and> \<not> docker_bridge cfg then Ok ao
      else
        bind_res (half_subnet lib AF_INET (ao_subnet ao)) (\<lambda>net4.
        bind_res (half_subnet lib AF_INET6 (ao_subnet6 ao)) (\<lambda>net6.
          let ao1 = (if mesos_bridge cfg
                then ao\<lparr>ao_mesos_bridge := Some
                       \<lparr>br_name = MESOS_BRIDGE_PREFIX @ ao_name ao,
                        br_ip = map_option (show_net lib) net4,
                        br_ip6 = map_option (show_net lib) net6\<rparr>\<rparr>
                else ao);
              ao2 = (if docker_bridge cfg
                then ao1\<lparr>ao_docker_bridge := Some
                       \<lparr>br_name = DOCKER_BRIDGE_PREFIX @ ao_name ao,
                        br_ip = map_option (\<lambda>n. show_net lib (net_succ n)) net4,
                        br_ip6 = map_option (\<lambda>n. show_net lib (net_succ n)) net6\<rparr>\<rparr>
                else ao1)
          in Ok ao2)))"

section \<open>Adding overlays to an agent\<close>

definition or_keep :: "'a \<Rightarrow> 'a res \<Rightarrow> 'a res" where
  \<comment> \<open>a call whose \<open>Try\<close> result is dropped\<close>
  "or_keep d r = (case r of Ok x \<Rightarrow> Ok x | Error _ \<Rightarrow> Ok d | Crash c \<Rightarrow> Crash c)"

definition overlay_header :: "stout \<Rightarrow> string \<Rightarrow> overlay \<Rightarrow> agent_overlay_info res" where
  "overlay_header lib name ov =
     (let info = empty_overlay_info name in
      bind_res (case ov_network ov of
          None \<Rightarrow> Ok info
        | Some n \<Rightarrow> bind_res (opt_get (ov_prefix ov)) (\<lambda>p.
            Ok (info\<lparr>oi_subnet := Some (show_net lib n), oi_prefix := Some (ucast p)\<rparr>)))
        (\<lambda>info4.
      bind_res (case ov_network6 ov of
          None \<Rightarrow> Ok info4
        | Some n \<Rightarrow> bind_res (opt_get (ov_prefix6 ov)) (\<lambda>p.
            Ok (info4\<lparr>oi_subnet6 := Some (show_net lib n), oi_prefix6 := Some (ucast p)\<rparr>)))
        (\<lambda>info6.
      Ok \<lparr>ao_info = info6, ao_subnet = None, ao_mesos_bridge = None, ao_docker_bridge = None,
          ao_backend = \<lparr>be_vxlan = None\<rparr>, ao_state = None, ao_subnet6 = None\<rparr>)))"

definition take_subnet :: "stout \<Rightarrow> overlay \<Rightarrow> (network option \<times> overlay) res" where
  "take_subnet lib ov =
     (if ov_network ov = None then Ok (None, ov)
      else bind_res (ovl_allocate lib ov) (\<lambda>(n, ov'). Ok (Some n, ov')))"

definition take_subnet6 :: "stout \<Rightarrow> overlay \<Rightarrow> (network option \<times> overlay) res" where
  "take_subnet6 lib ov =
     (if ov_network6 ov = None then Ok (None, ov)
      else bind_res (ovl_allocate6 lib ov) (\<lambda>(n, ov'). Ok (Some n, ov')))"

definition give_back :: "stout \<Rightarrow> network option \<Rightarrow> network option \<Rightarrow> overlay \<Rightarrow> overlay res" where
  "give_back lib s4 s6 ov =
     bind_res (case s4 of None \<Rightarrow> Ok ov | Some n \<Rightarrow> or_keep ov (ovl_free lib ov n)) (\<lambda>ov1.
       case s6 of None \<Rightarrow> Ok ov1 | Some n \<Rightarrow> or_keep ov1 (ovl_free6 lib ov1 n))"

text \<open>
  One round of the loop of \<open>addOverlays\<close>, for the overlay \<open>ov\<close> of name \<open>name\<close>: the overlay, the
  agent and the counters after it, and whether the agent was changed. A \<open>continue\<close> of the loop is
  an \<open>Ok\<close> here; the IPv4 subnet is not given back where the IPv6 allocation fails.
\<close>

definition add_subnets ::
  "stout \<Rightarrow> agent_network_config \<Rightarrow> backend_info \<Rightarrow> agent_overlay_info \<Rightarrow> overlay \<Rightarrow> agent \<Rightarrow>
   master_metrics \<Rightarrow> (overlay \<times> agent \<times> master_metrics \<times> bool) res" where
  "add_subnets lib cfg be ao0 ov a mm =
     (case take_subnet lib ov of
        Crash c \<Rightarrow> Crash c
      | Error _ \<Rightarrow> Ok (ov, a, mm\<lparr>mm_subnet_failures := mm_subnet_failures mm + 1\<rparr>, False)
      | Ok (s4, ov1) \<Rightarrow>
          let ao1 = ao0\<lparr>ao_subnet := map_option (show_net lib) s4\<rparr> in
          (case take_subnet6 lib ov1 of
             Crash c \<Rightarrow> Crash c
           | Error _ \<Rightarrow> Ok (ov1, a, mm\<lparr>mm_subnet6_failures := mm_subnet6_failures mm + 1\<rparr>, False)
           | Ok (s6, ov2) \<Rightarrow>
               let ao2 = ao1\<lparr>ao_subnet6 := map_option (show_net lib) s6\<rparr> in
               (case allocateBridges lib cfg ao2 of
                  Crash c \<Rightarrow> Crash c
                | Error _ \<Rightarrow>
                    bind_res (give_back lib s4 s6 ov2) (\<lambda>ov3.
                      Ok (ov3, a, mm\<lparr>mm_bridge_failures := mm_bridge_failures mm + 1\<rparr>, False))
                | Ok ao3 \<Rightarrow> Ok (ov2, addOverlay (ao3\<lparr>ao_backend := be\<rparr>) a, mm, True))))"

definition add_one ::
  "stout \<Rightarrow> agent_network_config \<Rightarrow> backend_info \<Rightarrow> string \<Rightarrow> overlay \<Rightarrow> agent \<Rightarrow> master_metrics \<Rightarrow>
   (overlay \<times> agent \<times> master_metrics \<times> bool) res" where
  "add_one lib cfg be name ov a mm =
     (if hm_contains (ag_overlays a) name then Ok (ov, a, mm, False)
      else if \<not> ov_enabled ov then Ok (ov, a, mm, False)
      else
        bind_res (overlay_header lib name ov) (\<lambda>ao0.
          if allocate_subnet cfg then add_subnets lib cfg be ao0 ov a mm
          else Ok (ov, addOverlay (ao0\<lparr>ao_backend := be\<rparr>) a, mm, True)))"

fun add_loop ::
  "stout \<Rightarrow> agent_network_config \<Rightarrow> backend_info \<Rightarrow> (string \<times> overlay) list \<Rightarrow> agent \<Rightarrow>
   master_metrics \<Rightarrow> ((string \<times> overlay) list \<times> agent \<times> master_metrics \<times> bool) res" where
  "add_loop lib cfg be [] a mm = Ok ([], a, mm, False)"
| "add_loop lib cfg be ((name, ov) # ovs) a mm =
     bind_res (add_one lib cfg be name ov a mm) (\<lambda>(ov', a1, mm1, mut1).
     bind_res (add_loop lib cfg be ovs a1 mm1) (\<lambda>(ovs', a2, mm2, mut2).
       Ok ((name, ov') # ovs', a2, mm2, mut1 \<or> mut2)))"

definition addOverlays ::
  "stout \<Rightarrow> agent_network_config \<Rightarrow> (string \<times> overlay) list \<Rightarrow> agent \<Rightarrow> master_metrics \<Rightarrow>
   ((string \<times> overlay) list \<times> agent \<times> master_metrics \<times> bool) res" where
  "addOverlays lib cfg ovs a mm =
     (case ag_backend a of
        None \<Rightarrow> Ok (ovs, a, mm, False)
      | Some be \<Rightarrow> add_loop lib cfg be ovs a mm)"

section \<open>What the operations preserve\<close>

text \<open>\<open>ovl_step ov ov'\<close>: from \<open>ov\<close> to \<open>ov'\<close> an overlay lost free subnets at most.\<close>

definition ovl_step :: "overlay \<Rightarrow> overlay \<Rightarrow> bool" where
  "ovl_step ov ov' \<longleftrightarrow>
     ov_name ov' = ov_name ov \<and> ov_network ov' = ov_network ov \<and> ov_network6 ov' = ov_network6 ov \<and>
     ov_prefix ov' = ov_prefix ov \<and> ov_prefix6 ov' = ov_prefix6 ov \<and>
     ov_enabled ov' = ov_enabled ov \<and> ovl_univ ov' = ovl_univ ov \<and>
     ovl_free_set ov' \<subseteq> ovl_free_set ov \<and> (ovl_inv ov \<longrightarrow> ovl_inv ov')"

definition pools_step :: "(string \<times> overlay) list \<Rightarrow> (string \<times> overlay) list \<Rightarrow> bool" where
  "pools_step ovs ovs' \<longleftrightarrow> list_all2 (\<lambda>(k, ov) (k', ov'). k' = k \<and> ovl_step ov ov') ovs ovs'"

lemma ovl_step_refl [simp]: "ovl_step ov ov"
  by (simp add: ovl_step_def)

lemma ovl_step_trans: "ovl_step a b \<Longrightarrow> ovl_step b c \<Longrightarrow> ovl_step a c"
  by (auto simp: ovl_step_def)

lemma pools_step_refl [simp]: "pools_step ovs ovs"
  by (induction ovs) (auto simp: pools_step_def)

lemma pools_step_keys: "pools_step ovs ovs' \<Longrightarrow> hm_keys ovs' = hm_keys ovs"
  unfolding pools_step_def hm_keys_def
  by (induction rule: list_all2_induct) auto

lemma pools_step_map:
  "pools_step ovs ovs' \<Longrightarrow> map_of ovs k = Some ov \<Longrightarrow>
   \<exists>ov'. map_of ovs' k = Some ov' \<and> ovl_step ov ov'"
  unfolding pools_step_def
  by (induction arbitrary: ov rule: list_all2_induct) (auto split: if_splits)

lemma pools_step_map':
  "pools_step ovs ovs' \<Longrightarrow> map_of ovs' k = Some ov' \<Longrightarrow>
   \<exists>ov. map_of ovs k = Some ov \<and> ovl_step ov ov'"
  unfolding pools_step_def
  by (induction arbitrary: ov' rule: list_all2_induct) (auto split: if_splits)

lemma free_set_update6 [simp]:
  "ovl_free_set (ov\<lparr>ov_freeNetworks6 := s\<rparr>) = ovl_free_set ov"
  "ovl_univ (ov\<lparr>ov_freeNetworks6 := s\<rparr>) = ovl_univ ov"
  "ovl_inv (ov\<lparr>ov_freeNetworks6 := s\<rparr>) = ovl_inv ov"
  by (simp_all add: ovl_free_set_def ovl_univ_def ovl_inv_def split: option.split ip.split)

lemma allocate_frame:
  "ovl_allocate lib ov = Ok (x, ov') \<Longrightarrow> \<exists>s. ov' = ov\<lparr>ov_freeNetworks := s\<rparr>"
  by (auto simp: ovl_allocate_def Let_def split: if_splits)

lemma allocate6_frame:
  "ovl_allocate6 lib ov = Ok (x, ov') \<Longrightarrow> \<exists>s. ov' = ov\<lparr>ov_freeNetworks6 := s\<rparr>"
  by (auto simp: ovl_allocate6_def Let_def split: if_splits)

lemma free_frame: "ovl_free lib ov x = Ok ov' \<Longrightarrow> \<exists>s. ov' = ov\<lparr>ov_freeNetworks := s\<rparr>"
  by (auto simp: ovl_free_def res_simps split: if_splits)

lemma free6_frame: "ovl_free6 lib ov x = Ok ov' \<Longrightarrow> \<exists>s. ov' = ov\<lparr>ov_freeNetworks6 := s\<rparr>"
  by (auto simp: ovl_free6_def res_simps split: if_splits)

lemma or_keep_Ok: "or_keep d r = Ok x \<Longrightarrow> r = Ok x \<or> x = d"
  by (cases r) (auto simp: or_keep_def)

text \<open>\<open>gained\<close>: an overlay entry the loop adds, with a subnet that was free and now is not.\<close>

definition gained ::
  "stout \<Rightarrow> backend_info \<Rightarrow> string \<Rightarrow> overlay \<Rightarrow> overlay \<Rightarrow> agent_overlay_info \<Rightarrow> bool" where
  "gained lib be name ov ov' ao \<longleftrightarrow>
     ao_name ao = name \<and> ao_backend ao = be \<and> ao_state ao = None \<and> ov_enabled ov \<and>
     (\<forall>s. ao_subnet ao = Some s \<longrightarrow>
        (\<exists>n. s = show_net lib n \<and> n \<in> ovl_free_set ov \<and> n \<notin> ovl_free_set ov'))"

text \<open>The entries the loop adds for a list of overlays.\<close>

definition additions ::
  "stout \<Rightarrow> backend_info \<Rightarrow> (string \<times> overlay) list \<Rightarrow> (string \<times> overlay) list \<Rightarrow> agent \<Rightarrow>
   (string \<times> agent_overlay_info) list \<Rightarrow> bool" where
  "additions lib be ovs ovs' a new \<longleftrightarrow>
     distinct (hm_keys new) \<and>
     (\<forall>(k, ao) \<in> set new. \<not> hm_contains (ag_overlays a) k \<and>
        (\<exists>ov ov'. map_of ovs k = Some ov \<and> map_of ovs' k = Some ov' \<and> gained lib be k ov ov' ao))"

lemma additions_keys: "additions lib be ovs ovs' a new \<Longrightarrow> (k, ao) \<in> set new \<Longrightarrow> k \<in> set (hm_keys ovs)"
  by (force simp: additions_def hm_keys_def dest: map_of_SomeD)

lemma additions_skip:
  assumes "additions lib be ovs ovs' a new" "k \<notin> set (hm_keys ovs)"
  shows "additions lib be ((k, ov) # ovs) ((k, ov') # ovs') a new"
proof -
  have "k' \<noteq> k" if "(k', ao) \<in> set new" for k' ao using additions_keys [OF assms(1) that] assms(2) by auto
  with assms(1) show ?thesis unfolding additions_def by force
qed

lemma additions_Cons:
  assumes "additions lib be ovs ovs' (a\<lparr>ag_overlays := ag_overlays a @ [(k, ao)]\<rparr>) new"
    "k \<notin> set (hm_keys ovs)" "\<not> hm_contains (ag_overlays a) k" "gained lib be k ov ov' ao"
  shows "additions lib be ((k, ov) # ovs) ((k, ov') # ovs') a ((k, ao) # new)"
proof -
  have "\<not> hm_contains (ag_overlays a) k'" if "\<not> hm_contains (ag_overlays a @ [(k, ao)]) k'" for k'
    using that by (auto simp: hm_contains_iff hm_keys_def)
  with assms(1) have "additions lib be ovs ovs' a new" unfolding additions_def by force
  moreover have "k \<notin> set (hm_keys new)"
    using additions_keys [OF assms(1)] assms(2) by (auto simp: hm_keys_def)
  ultimately show ?thesis using additions_skip [of lib be ovs ovs' a new k ov ov'] assms(2-4)
    by (auto simp: additions_def hm_keys_def)
qed

lemma overlay_header_Ok:
  "overlay_header lib name ov = Ok ao \<Longrightarrow>
   ao_name ao = name \<and> ao_subnet ao = None \<and> ao_subnet6 ao = None \<and> ao_state ao = None"
  by (auto simp: overlay_header_def res_simps ao_name_def Let_def empty_overlay_info_def
      split: option.splits)

lemma allocateBridges_Ok:
  "allocateBridges lib cfg ao = Ok ao' \<Longrightarrow>
   ao_name ao' = ao_name ao \<and> ao_subnet ao' = ao_subnet ao \<and> ao_subnet6 ao' = ao_subnet6 ao \<and>
   ao_state ao' = ao_state ao"
  by (auto simp: allocateBridges_def res_simps ao_name_def Let_def split: if_splits)

lemma addOverlay_absent:
  "\<not> hm_contains (ag_overlays a) (ao_name ao) \<Longrightarrow>
   addOverlay ao a = a\<lparr>ag_overlays := ag_overlays a @ [(ao_name ao, ao)]\<rparr>"
  by (simp add: addOverlay_def hm_emplace_def)

lemma gained_addOverlay:
  assumes "gained lib be name ov ov' ao" "\<not> hm_contains (ag_overlays a) name"
  shows "addOverlay ao a = a\<lparr>ag_overlays := ag_overlays a @ [(name, ao)]\<rparr>"
  using assms addOverlay_absent [of a ao] by (simp add: gained_def)

context stout_lib
begin

lemma take_subnet_spec:
  assumes "ovl_inv ov" "take_subnet lib ov = Ok (s, ov')"
  shows "ovl_step ov ov'"
    "case s of None \<Rightarrow> ov' = ov \<and> ov_network ov = None
     | Some n \<Rightarrow> n \<in> ovl_free_set ov \<and> ovl_free_set ov' = ovl_free_set ov - {n}"
proof -
  have "ovl_step ov ov' \<and> (case s of None \<Rightarrow> ov' = ov \<and> ov_network ov = None
     | Some n \<Rightarrow> n \<in> ovl_free_set ov \<and> ovl_free_set ov' = ovl_free_set ov - {n})"
  proof (cases "ov_network ov = None")
    case True
    with assms(2) show ?thesis by (auto simp: take_subnet_def)
  next
    case False
    with assms(2) obtain n where n: "ovl_allocate lib ov = Ok (n, ov')" "s = Some n"
      by (auto simp: take_subnet_def res_simps)
    from allocate_frame [OF n(1)] obtain t where t: "ov' = ov\<lparr>ov_freeNetworks := t\<rparr>" by blast
    from ovl_alloc_spec [OF assms(1) n(1)] have
      "n \<in> ovl_free_set ov" "ovl_inv ov'" "ovl_free_set ov' = ovl_free_set ov - {n}"
      "ovl_univ ov' = ovl_univ ov" by auto
    with n(2) show ?thesis by (auto simp: ovl_step_def t)
  qed
  then show "ovl_step ov ov'"
    "case s of None \<Rightarrow> ov' = ov \<and> ov_network ov = None
     | Some n \<Rightarrow> n \<in> ovl_free_set ov \<and> ovl_free_set ov' = ovl_free_set ov - {n}" by auto
qed

lemma take_subnet6_spec:
  assumes "take_subnet6 lib ov = Ok (s, ov')"
  shows "\<exists>t. ov' = ov\<lparr>ov_freeNetworks6 := t\<rparr>" "ovl_step ov ov'" "ovl_free_set ov' = ovl_free_set ov"
proof -
  show "\<exists>t. ov' = ov\<lparr>ov_freeNetworks6 := t\<rparr>"
  proof (cases "ov_network6 ov = None")
    case True
    with assms show ?thesis by (auto simp: take_subnet6_def intro!: exI [of _ "ov_freeNetworks6 ov"])
  next
    case False
    with assms allocate6_frame show ?thesis by (auto simp: take_subnet6_def res_simps)
  qed
  then show "ovl_step ov ov'" "ovl_free_set ov' = ovl_free_set ov" by (auto simp: ovl_step_def)
qed

lemma give_back_spec:
  assumes "ovl_inv ov" "take_subnet lib ov = Ok (s4, ov1)" "take_subnet6 lib ov1 = Ok (s6, ov2)"
    "give_back lib s4 s6 ov2 = Ok ov3"
  shows "ovl_step ov ov3"
proof -
  note t4 = take_subnet_spec [OF assms(1,2)] and t6 = take_subnet6_spec [OF assms(3)]
  have s2: "ovl_step ov ov2" by (rule ovl_step_trans [OF t4(1) t6(2)])
  from assms(4) obtain ov' where
    a: "(case s4 of None \<Rightarrow> Ok ov2 | Some n \<Rightarrow> or_keep ov2 (ovl_free lib ov2 n)) = Ok ov'" and
    b: "(case s6 of None \<Rightarrow> Ok ov' | Some n \<Rightarrow> or_keep ov' (ovl_free6 lib ov' n)) = Ok ov3"
    by (auto simp: give_back_def res_simps)
  have "ovl_step ov ov'"
  proof (cases "ov' = ov2")
    case False
    with a obtain n where n: "s4 = Some n" "ovl_free lib ov2 n = Ok ov'"
      by (auto split: option.splits dest: or_keep_Ok)
    from t4(2) n(1) have f: "n \<in> ovl_free_set ov" "ovl_free_set ov1 = ovl_free_set ov - {n}" by simp_all
    have "ovl_inv ov2" "n \<in> ovl_univ ov2"
      using s2 assms(1) f(1) ovl_free_subset [OF assms(1)] by (auto simp: ovl_step_def)
    from ovl_release_spec [OF this] n(2) have
      "ovl_inv ov'" "ovl_free_set ov' = insert n (ovl_free_set ov2)" "ovl_univ ov' = ovl_univ ov2"
      by auto
    with free_frame [OF n(2)] s2 f t6(3) show ?thesis by (auto simp: ovl_step_def)
  qed (use s2 in simp)
  moreover have "ovl_step ov' ov3"
    using b free6_frame by (fastforce simp: ovl_step_def split: option.splits dest: or_keep_Ok)
  ultimately show ?thesis by (rule ovl_step_trans)
qed

lemma add_subnets_cases:
  assumes "ovl_inv ov" "add_subnets lib cfg be ao0 ov a mm = Ok (ov', a', mm', mut)"
    "ao_subnet ao0 = None" "ao_state ao0 = None" "ov_enabled ov"
  shows "ovl_step ov ov' \<and>
    (if mut then \<exists>ao. gained lib be (ao_name ao0) ov ov' ao \<and> a' = addOverlay ao a else a' = a)"
proof (cases "take_subnet lib ov")
  case (Ok t4)
  then obtain s4 ov1 where t4: "take_subnet lib ov = Ok (s4, ov1)" by (cases t4) auto
  let ?ao1 = "ao0\<lparr>ao_subnet := map_option (show_net lib) s4\<rparr>"
  note p4 = take_subnet_spec [OF assms(1) t4]
  show ?thesis
  proof (cases "take_subnet6 lib ov1")
    case (Ok t6)
    then obtain s6 ov2 where t6: "take_subnet6 lib ov1 = Ok (s6, ov2)" by (cases t6) auto
    let ?ao2 = "?ao1\<lparr>ao_subnet6 := map_option (show_net lib) s6\<rparr>"
    note p6 = take_subnet6_spec [OF t6]
    show ?thesis
    proof (cases "allocateBridges lib cfg ?ao2")
      case (Ok ao3)
      note b = allocateBridges_Ok [OF Ok]
      from assms(2) t4 t6 Ok have r: "ov' = ov2" "mut" "a' = addOverlay (ao3\<lparr>ao_backend := be\<rparr>) a"
        by (auto simp: add_subnets_def)
      have st: "ovl_step ov ov2" by (rule ovl_step_trans [OF p4(1) p6(2)])
      have "gained lib be (ao_name ao0) ov ov2 (ao3\<lparr>ao_backend := be\<rparr>)"
        using b p4(2) p6(3) assms(4,5) by (auto simp: gained_def ao_name_def split: option.splits)
      with st r show ?thesis by auto
    next
      case (Error e)
      with assms(2) t4 t6 have "give_back lib s4 s6 ov2 = Ok ov'" "\<not> mut" "a' = a"
        by (auto simp: add_subnets_def res_simps)
      with give_back_spec [OF assms(1) t4 t6] show ?thesis by simp
    qed (use assms(2) t4 t6 in \<open>simp add: add_subnets_def\<close>)
  qed (use assms(2) t4 p4(1) in \<open>auto simp: add_subnets_def\<close>)
qed (use assms(2) in \<open>auto simp: add_subnets_def\<close>)

lemma add_one_spec:
  assumes "ovl_inv ov" "add_one lib cfg be name ov a mm = Ok (ov', a', mm', mut)"
  shows "ovl_step ov ov' \<and>
    (if mut then \<exists>ao. \<not> hm_contains (ag_overlays a) name \<and> gained lib be name ov ov' ao \<and>
         a' = a\<lparr>ag_overlays := ag_overlays a @ [(name, ao)]\<rparr>
     else a' = a)"
proof (cases "hm_contains (ag_overlays a) name \<or> \<not> ov_enabled ov")
  case True
  with assms(2) show ?thesis by (auto simp: add_one_def split: if_splits)
next
  case False
  with assms(2) obtain ao0 where h: "overlay_header lib name ov = Ok ao0" and
    r: "(if allocate_subnet cfg then add_subnets lib cfg be ao0 ov a mm
          else Ok (ov, addOverlay (ao0\<lparr>ao_backend := be\<rparr>) a, mm, True)) = Ok (ov', a', mm', mut)"
    by (auto simp: add_one_def res_simps)
  note h0 = overlay_header_Ok [OF h]
  have new: "?thesis" if "ovl_step ov ov'" "mut" "gained lib be name ov ov' ao" "a' = addOverlay ao a" for ao
    using that False gained_addOverlay [OF that(3), of a] by auto
  show ?thesis
  proof (cases "allocate_subnet cfg")
    case True
    with r add_subnets_cases [OF assms(1), of cfg be ao0 a mm] h0 False new show ?thesis
      by (cases mut) auto
  next
    case no: False
    have "gained lib be name ov ov (ao0\<lparr>ao_backend := be\<rparr>)"
      using h0 False by (simp add: gained_def ao_name_def)
    with no r new [of "ao0\<lparr>ao_backend := be\<rparr>"] show ?thesis by auto
  qed
qed

lemma add_loop_ConsE:
  assumes "add_loop lib cfg be ((k, ov) # ovs) a mm = Ok (ovs', a', mm', mut)"
  obtains ov1 a1 mm1 m1 ovs1 m2 where "add_one lib cfg be k ov a mm = Ok (ov1, a1, mm1, m1)"
    "add_loop lib cfg be ovs a1 mm1 = Ok (ovs1, a', mm', m2)" "ovs' = (k, ov1) # ovs1" "mut = (m1 \<or> m2)"
proof -
  from assms obtain r1 where one: "add_one lib cfg be k ov a mm = Ok r1"
    and two: "(case r1 of (ov', a1, mm1, mut1) \<Rightarrow> bind_res (add_loop lib cfg be ovs a1 mm1)
      (\<lambda>(ovs', a2, mm2, mut2). Ok ((k, ov') # ovs', a2, mm2, mut1 \<or> mut2))) = Ok (ovs', a', mm', mut)"
    unfolding add_loop.simps by (rule bind_res_OkE)
  obtain ov1 a1 mm1 m1 where r1: "r1 = (ov1, a1, mm1, m1)" by (cases r1)
  from two [unfolded r1 prod.case] obtain r2 where rest: "add_loop lib cfg be ovs a1 mm1 = Ok r2"
    and eq: "(case r2 of (ovs', a2, mm2, mut2) \<Rightarrow> Ok ((k, ov1) # ovs', a2, mm2, m1 \<or> mut2)) =
      Ok (ovs', a', mm', mut)" by (rule bind_res_OkE)
  obtain ovs1 a2 mm2 m2 where "r2 = (ovs1, a2, mm2, m2)" by (cases r2)
  with one r1 rest eq that show thesis by simp
qed

lemma add_loop_spec:
  "\<forall>(k, ov) \<in> set ovs. ovl_inv ov \<Longrightarrow> distinct (hm_keys ovs) \<Longrightarrow>
   add_loop lib cfg be ovs a mm = Ok (ovs', a', mm', mut) \<Longrightarrow>
   pools_step ovs ovs' \<and>
   (\<exists>new. a' = a\<lparr>ag_overlays := ag_overlays a @ new\<rparr> \<and> mut = (new \<noteq> []) \<and> additions lib be ovs ovs' a new)"
proof (induction ovs arbitrary: a mm ovs' a' mm' mut)
  case Nil
  then show ?case by (auto simp: additions_def hm_keys_def intro!: exI [of _ "[]"])
next
  case (Cons kov ovs)
  obtain k ov where kov: "kov = (k, ov)" by (cases kov)
  obtain ov1 a1 mm1 m1 ovs1 m2 where one: "add_one lib cfg be k ov a mm = Ok (ov1, a1, mm1, m1)"
    and rest: "add_loop lib cfg be ovs a1 mm1 = Ok (ovs1, a', mm', m2)"
    and eq: "ovs' = (k, ov1) # ovs1" "mut = (m1 \<or> m2)" by (rule add_loop_ConsE [OF Cons.prems(3) [unfolded kov]])
  have inv: "ovl_inv ov" "\<forall>(k, ov) \<in> set ovs. ovl_inv ov" using Cons.prems(1) kov by auto
  have d: "distinct (hm_keys ovs)" "k \<notin> set (hm_keys ovs)" using Cons.prems(2) kov by (simp_all add: hm_keys_def)
  from Cons.IH [OF inv(2) d(1) rest] obtain new where st: "pools_step ovs ovs1" and
    new: "a' = a1\<lparr>ag_overlays := ag_overlays a1 @ new\<rparr>" "m2 = (new \<noteq> [])" "additions lib be ovs ovs1 a1 new" by blast
  note s1 = add_one_spec [OF inv(1) one]
  with st have ps: "pools_step (kov # ovs) ovs'" by (simp add: pools_step_def kov eq)
  show ?case
  proof (cases m1)
    case False
    with s1 have "a1 = a" by simp
    with ps new False additions_skip [OF _ d(2)] show ?thesis by (auto simp: kov eq)
  next
    case True
    with s1 obtain ao where ao: "\<not> hm_contains (ag_overlays a) k" "gained lib be k ov ov1 ao"
      "a1 = a\<lparr>ag_overlays := ag_overlays a @ [(k, ao)]\<rparr>" by auto
    from additions_Cons [OF new(3) [unfolded ao(3)] d(2) ao(1,2)] new(1) ao(3) ps True show ?thesis
      by (intro conjI exI [of _ "(k, ao) # new"]) (simp_all add: kov eq)
  qed
qed

lemma addOverlays_spec:
  assumes "\<forall>(k, ov) \<in> set ovs. ovl_inv ov" "distinct (hm_keys ovs)"
    "addOverlays lib cfg ovs a mm = Ok (ovs', a', mm', mut)"
  shows "pools_step ovs ovs' \<and>
   (\<exists>new. a' = a\<lparr>ag_overlays := ag_overlays a @ new\<rparr> \<and> mut = (new \<noteq> []) \<and> distinct (hm_keys new) \<and>
     (\<forall>(k, ao) \<in> set new. \<not> hm_contains (ag_overlays a) k \<and>
        (\<exists>be ov ov'. ag_backend a = Some be \<and> map_of ovs k = Some ov \<and> map_of ovs' k = Some ov' \<and>
           gained lib be k ov ov' ao)))"
proof (cases "ag_backend a")
  case None
  with assms(3) show ?thesis by (auto simp: addOverlays_def hm_keys_def intro!: exI [of _ "[]"])
next
  case (Some be)
  with assms(3) have "add_loop lib cfg be ovs a mm = Ok (ovs', a', mm', mut)"
    by (simp add: addOverlays_def)
  from add_loop_spec [OF assms(1,2) this] Some show ?thesis by (simp add: additions_def)
qed

end

section \<open>Properties\<close>

definition ovl9 :: overlay where
  \<comment> \<open>an overlay 9.0.0.0/22 with /24 agent subnets, for the witnesses\<close>
  "ovl9 = \<lparr>ov_name = ''dcos'', ov_network = Some (Net (V4 0x09000000) 22), ov_network6 = None,
      ov_prefix = Some 24, ov_prefix6 = None,
      ov_freeNetworks = [(Net (V4 0x09000000) 24, Net (V4 0x09000400) 24)],
      ov_freeNetworks6 = [], ov_enabled = True\<rparr>"

definition ag9 :: agent where
  "ag9 = \<lparr>ag_backend = Some \<lparr>be_vxlan = None\<rparr>, ag_overlays = [], ag_ip = V4 0x0A000001\<rparr>"

lemma fits9: "fits 0x09000000 22 24"
  by (simp add: fits_def last_block_def block_def host_bits_def mask4_def)

lemma ovl9_inv: "ovl_inv ovl9" "ovl_free_set ovl9 = ovl_univ ovl9"
  "ovl_univ ovl9 = {x \<in> slots 0x09000000 22 24. aligned_net x}"
proof -
  have "overlay_new ref_lib ''dcos'' (Some (Net (V4 0x09000000) 22)) None (Some 24) None True = Ok ovl9"
    by code_simp
  from stout_lib.overlay_new_inv [OF ref.stout_lib_axioms this fits9]
  show "ovl_inv ovl9" "ovl_free_set ovl9 = ovl_univ ovl9"
    "ovl_univ ovl9 = {x \<in> slots 0x09000000 22 24. aligned_net x}" by simp_all
qed

text \<open>
  C30: What \<open>addOverlays\<close> does, for any overlays with intact pools: the agent
  keeps its address and its entries and gains entries only for overlays it did not have,
  each with the agent's backend; the IPv4 subnet of a new entry was free in the pool of
  its overlay and is free no longer; every other pool keeps its invariant and its universe
  and gains no free subnet.
\<close>

theorem addOverlays_allocates:
  assumes "stout_lib lib" "\<forall>(k, ov) \<in> set ovs. ovl_inv ov" "distinct (map fst ovs)"
    "addOverlays lib cfg ovs a mm = Ok (ovs', a', mm', mutated)"
  shows "ag_ip a' = ag_ip a \<and> map fst ovs' = map fst ovs \<and>
    (\<exists>new. ag_overlays a' = ag_overlays a @ new \<and> (mutated \<longleftrightarrow> new \<noteq> []) \<and>
      (\<forall>(k, ao) \<in> set new. k \<notin> set (map fst (ag_overlays a)) \<and> Some (ao_backend ao) = ag_backend a \<and>
        (\<forall>s. ao_subnet ao = Some s \<longrightarrow> (\<exists>n ov ov'. map_of ovs k = Some ov \<and> map_of ovs' k = Some ov' \<and>
           ov_enabled ov \<and> s = show_net lib n \<and> n \<in> ovl_free_set ov \<and> n \<notin> ovl_free_set ov')))) \<and>
    (\<forall>k ov ov'. map_of ovs k = Some ov \<longrightarrow> map_of ovs' k = Some ov' \<longrightarrow>
      ovl_inv ov' \<and> ovl_univ ov' = ovl_univ ov \<and> ovl_free_set ov' \<subseteq> ovl_free_set ov)"
proof -
  from stout_lib.addOverlays_spec [OF assms(1,2) _ assms(4)] assms(3) obtain new where
    st: "pools_step ovs ovs'" and a': "a' = a\<lparr>ag_overlays := ag_overlays a @ new\<rparr>"
    and m: "mutated = (new \<noteq> [])" and
    g: "\<forall>(k, ao) \<in> set new. \<not> hm_contains (ag_overlays a) k \<and>
        (\<exists>be ov ov'. ag_backend a = Some be \<and> map_of ovs k = Some ov \<and> map_of ovs' k = Some ov' \<and>
           gained lib be k ov ov' ao)"
    by (auto simp: hm_keys_def)
  have n: "k \<notin> set (map fst (ag_overlays a)) \<and> Some (ao_backend ao) = ag_backend a \<and>
        (\<forall>s. ao_subnet ao = Some s \<longrightarrow> (\<exists>n ov ov'. map_of ovs k = Some ov \<and> map_of ovs' k = Some ov' \<and>
           ov_enabled ov \<and> s = show_net lib n \<and> n \<in> ovl_free_set ov \<and> n \<notin> ovl_free_set ov'))"
    if "(k, ao) \<in> set new" for k ao
    using g that by (fastforce simp: hm_contains_iff hm_keys_def gained_def)
  have p: "ovl_inv ov' \<and> ovl_univ ov' = ovl_univ ov \<and> ovl_free_set ov' \<subseteq> ovl_free_set ov"
    if "map_of ovs k = Some ov" "map_of ovs' k = Some ov'" for k ov ov'
  proof -
    from pools_step_map [OF st that(1)] that(2) have "ovl_step ov ov'" by simp
    moreover have "ovl_inv ov" using assms(2) map_of_SomeD [OF that(1)] by auto
    ultimately show ?thesis by (simp add: ovl_step_def)
  qed
  from pools_step_keys [OF st] have "map fst ovs' = map fst ovs" by (simp add: hm_keys_def)
  with n p a' m show ?thesis by (intro conjI exI [of _ new]) auto
qed

theorem addOverlays_allocates_witness:
  "\<exists>ovs' a' mm' mutated. addOverlays ref_lib default_network_config [(''dcos'', ovl9)] ag9 metrics0 =
      Ok (ovs', a', mm', mutated) \<and> map fst ovs' = [''dcos'']"
proof -
  have "is_ok (addOverlays ref_lib default_network_config [(''dcos'', ovl9)] ag9 metrics0)"
    by code_simp
  then obtain r where "addOverlays ref_lib default_network_config [(''dcos'', ovl9)] ag9 metrics0 = Ok r"
    by (cases "addOverlays ref_lib default_network_config [(''dcos'', ovl9)] ag9 metrics0") auto
  moreover obtain ovs' a' mm' mutated where "r = (ovs', a', mm', mutated)" by (cases r)
  ultimately have r: "addOverlays ref_lib default_network_config [(''dcos'', ovl9)] ag9 metrics0 =
      Ok (ovs', a', mm', mutated)" by simp
  have "\<forall>(k, ov) \<in> set [(''dcos'', ovl9)]. ovl_inv ov" using ovl9_inv by simp
  from addOverlays_allocates [OF ref.stout_lib_axioms this _ r] r show ?thesis by auto
qed

text \<open>
  If an overlay with both address families runs out of IPv6 subnets, registering an
  agent withdraws an IPv4 subnet from the pool without giving it to the agent: the agent
  is unchanged and the subnet is no longer free.
\<close>

theorem addOverlays_leaks_subnet:
  assumes "stout_lib lib" "ovl_inv ov" "ov_enabled ov" "ovl_free_set ov \<noteq> {}"
    "ov_network ov = Some n4" "ov_network6 ov = Some n6" "ov_prefix6 ov = Some p6"
    "ov_freeNetworks6 ov = []"
    "ag_backend a = Some be" "name \<notin> set (map fst (ag_overlays a))" "allocate_subnet cfg"
  shows "\<exists>ov' mm' n. addOverlays lib cfg [(name, ov)] a mm = Ok ([(name, ov')], a, mm', False) \<and>
    n \<in> ovl_free_set ov \<and> ovl_free_set ov' = ovl_free_set ov - {n}"
proof -
  from assms(2,5) obtain p where p: "ov_prefix ov = Some p"
    by (auto elim: ovl_inv_cases)
  then obtain ao0 where h: "overlay_header lib name ov = Ok ao0"
    using assms(5-7) by (simp add: overlay_header_def)
  from stout_lib.ovl_alloc_exists [OF assms(1-4)] obtain n ov1 where
    n: "ovl_allocate lib ov = Ok (n, ov1)" by blast
  from allocate_frame [OF n] obtain s where ov1: "ov1 = ov\<lparr>ov_freeNetworks := s\<rparr>" by blast
  from n assms(5) have t4: "take_subnet lib ov = Ok (Some n, ov1)" by (simp add: take_subnet_def)
  have t6: "take_subnet6 lib ov1 = Error Exhausted"
    using assms(3,6,8) by (simp add: take_subnet6_def ov1 ovl_allocate6_def)
  have "addOverlays lib cfg [(name, ov)] a mm =
      Ok ([(name, ov1)], a, mm\<lparr>mm_subnet6_failures := mm_subnet6_failures mm + 1\<rparr>, False)"
    using assms(3,9-11)
    by (simp add: addOverlays_def add_one_def hm_contains_iff hm_keys_def h add_subnets_def t4 t6)
  with stout_lib.ovl_alloc_spec [OF assms(1,2) n] show ?thesis by blast
qed

theorem addOverlays_leaks_subnet_witness:
  "\<exists>ov' mm' n. addOverlays ref_lib default_network_config
      [(''dcos'', ovl9\<lparr>ov_network6 := Some (Net (V6 (replicate 16 0)) 64), ov_prefix6 := Some 80\<rparr>)]
      ag9 metrics0 = Ok ([(''dcos'', ov')], ag9, mm', False) \<and> n \<notin> ovl_free_set ov'"
proof -
  let ?ov = "ovl9\<lparr>ov_network6 := Some (Net (V6 (replicate 16 0)) 64), ov_prefix6 := Some 80\<rparr>"
  have same: "ovl_inv ?ov = ovl_inv ovl9" "ovl_free_set ?ov = ovl_free_set ovl9"
    by (simp_all add: ovl9_def ovl_inv_def ovl_free_set_def)
  have "Net (V4 0x09000000) 24 \<in> ovl_free_set ovl9"
    unfolding ovl9_inv by (simp add: aligned4_def mask4_def)
  then have "ovl_free_set ?ov \<noteq> {}" unfolding same by blast
  moreover have "ovl_inv ?ov" using ovl9_inv(1) same(1) by simp
  moreover have "ov_enabled ?ov" "ov_network ?ov = Some (Net (V4 0x09000000) 22)"
    "ov_network6 ?ov = Some (Net (V6 (replicate 16 0)) 64)" "ov_prefix6 ?ov = Some 80"
    "ov_freeNetworks6 ?ov = []" "ag_backend ag9 = Some \<lparr>be_vxlan = None\<rparr>"
    "''dcos'' \<notin> set (map fst (ag_overlays ag9))" "allocate_subnet default_network_config"
    by (simp_all add: ovl9_def ag9_def allocate_subnet_def default_network_config_def)
  ultimately obtain ov' mm' n where "addOverlays ref_lib default_network_config [(''dcos'', ?ov)] ag9 metrics0 =
      Ok ([(''dcos'', ov')], ag9, mm', False)" "ovl_free_set ov' = ovl_free_set ?ov - {n}"
    using addOverlays_leaks_subnet [OF ref.stout_lib_axioms, of ?ov] by metis
  then show ?thesis by blast
qed

text \<open>
  An agent's IPv4 subnet shorter than /32 is divided between its two bridges: the
  Mesos bridge and the Docker bridge of the overlay get its two halves, whose address
  ranges are disjoint and together are the range of the subnet.
\<close>

theorem bridges_split_subnet:
  assumes "stout_lib lib" "aligned4 p c" "1 \<le> unat p" "unat p < 32"
    "ao_subnet ao = Some (show_net lib (Net (V4 c) p))" "ao_subnet6 ao = None"
    "mesos_bridge cfg" "docker_bridge cfg"
  shows "\<exists>ao' m d. allocateBridges lib cfg ao = Ok ao' \<and>
    ao_mesos_bridge ao' = Some \<lparr>br_name = ''m-'' @ ao_name ao, br_ip = Some (show_net lib m), br_ip6 = None\<rparr> \<and>
    ao_docker_bridge ao' = Some \<lparr>br_name = ''d-'' @ ao_name ao, br_ip = Some (show_net lib d), br_ip6 = None\<rparr> \<and>
    addr_range m \<inter> addr_range d = {} \<and> addr_range m \<union> addr_range d = addr_range (Net (V4 c) p)"
proof -
  let ?m = "Net (V4 c) (p + 1)" and ?d = "Net (V4 (next4 (p + 1) c)) (p + 1)"
  have p1: "unat (p + 1) = unat p + 1" using assms(4) by (simp add: unat_word_ariths)
  have hb: "host_bits p - host_bits (p + 1) = 1" using assms(4) by (simp add: host_bits_def p1)
  have half: "block p x = block (p + 1) x div 2" for x
    using block_coarser [of p "p + 1" x] p1 assms(4) by (simp add: hb)
  have "unat c = block p c * 2 ^ host_bits p" using assms(2) by (simp add: aligned4_iff)
  moreover have "host_bits p = Suc (host_bits (p + 1))" using assms(4) by (simp add: host_bits_def p1)
  ultimately have b: "block (p + 1) c = 2 * block p c" by (simp add: block_def [of "p + 1"])
  have nl: "\<not> last_block (p + 1) c"
  proof
    assume "last_block (p + 1) c"
    then have "Suc (2 * block p c) = 2 ^ Suc (unat p)"
      using assms(4) by (simp add: last_block_def b host_bits_def p1)
    then have "even (Suc (2 * block p c))" by simp
    then show False by simp
  qed
  have w: "wf_network (Net (V4 x) (p + 1))" "wf_network (Net (V4 x) p)" for x
    using p1 assms(3,4) by simp_all
  have rm: "addr_range ?m = {V4 x | x. block (p + 1) x = 2 * block p c}"
    by (simp only: addr_range4 [OF w(1)] b)
  have rd: "addr_range ?d = {V4 x | x. block (p + 1) x = Suc (2 * block p c)}"
    by (simp only: addr_range4 [OF w(1)] block_next4 [OF nl] b)
  have ra: "addr_range (Net (V4 c) p) = {V4 x | x. block (p + 1) x div 2 = block p c}"
    by (simp only: addr_range4 [OF w(2)] half [of _])
  have dv: "k div 2 = B \<longleftrightarrow> k = 2 * B \<or> k = Suc (2 * B)" for k B :: nat by presburger
  have un: "addr_range ?m \<inter> addr_range ?d = {}" "addr_range ?m \<union> addr_range ?d = addr_range (Net (V4 c) p)"
    unfolding rm rd ra by (auto simp: dv)
  have h: "half_subnet lib AF_INET (ao_subnet ao) = Ok (Some ?m)" "half_subnet lib AF_INET6 (ao_subnet6 ao) = Ok None"
    using assms(3-6) p1
    by (simp_all add: half_subnet_def stout_lib.network_parse_show4 [OF assms(1)])
  show ?thesis
    by (intro exI [of _ "ao\<lparr>ao_mesos_bridge := Some \<lparr>br_name = ''m-'' @ ao_name ao,
            br_ip = Some (show_net lib ?m), br_ip6 = None\<rparr>,
          ao_docker_bridge := Some \<lparr>br_name = ''d-'' @ ao_name ao,
            br_ip = Some (show_net lib ?d), br_ip6 = None\<rparr>\<rparr>"] exI [of _ ?m] exI [of _ ?d] conjI un)
       (simp_all add: allocateBridges_def h assms(7,8) MESOS_BRIDGE_PREFIX_def
          DOCKER_BRIDGE_PREFIX_def net_succ4 ao_name_def)
qed

definition ao9 :: agent_overlay_info where
  "ao9 = \<lparr>ao_info = empty_overlay_info ''dcos'', ao_subnet = Some (show_net ref_lib (Net (V4 0x09000100) 24)),
      ao_mesos_bridge = None, ao_docker_bridge = None, ao_backend = \<lparr>be_vxlan = None\<rparr>,
      ao_state = None, ao_subnet6 = None\<rparr>"

theorem bridges_split_subnet_witness:
  "is_ok (allocateBridges ref_lib default_network_config ao9)"
proof -
  have "aligned4 24 0x09000100" by (simp add: aligned4_def mask4_def)
  from bridges_split_subnet [OF ref.stout_lib_axioms this, of ao9 default_network_config]
  show ?thesis
    by (auto simp: ao9_def mesos_bridge_def docker_bridge_def default_network_config_def)
qed

lemma fold_addOverlay:
  "distinct (map fst kvs) \<Longrightarrow> \<forall>(k, ao) \<in> set kvs. ao_name ao = k \<Longrightarrow>
   \<forall>(k, ao) \<in> set kvs. k \<notin> set (map fst (ag_overlays a)) \<Longrightarrow>
   fold addOverlay (map snd kvs) a = a\<lparr>ag_overlays := ag_overlays a @ kvs\<rparr>"
proof (induction kvs arbitrary: a)
  case Nil
  then show ?case by simp
next
  case (Cons kv kvs)
  obtain k ao where kv: "kv = (k, ao)" by (cases kv)
  have "addOverlay ao a = a\<lparr>ag_overlays := ag_overlays a @ [(k, ao)]\<rparr>"
    using Cons.prems addOverlay_absent [of a ao] by (simp add: kv hm_contains_iff hm_keys_def)
  moreover have "fold addOverlay (map snd kvs) (a\<lparr>ag_overlays := ag_overlays a @ [(k, ao)]\<rparr>) =
      a\<lparr>ag_overlays := ag_overlays a @ [(k, ao)]\<rparr>\<lparr>ag_overlays := (ag_overlays a @ [(k, ao)]) @ kvs\<rparr>"
  proof (subst Cons.IH)
    show "distinct (map fst kvs)" "\<forall>(k, ao) \<in> set kvs. ao_name ao = k" using Cons.prems by simp_all
    have "k \<notin> fst ` set kvs" using Cons.prems(1) by (simp add: kv)
    then have "k' \<noteq> k" if "(k', ao') \<in> set kvs" for k' ao' using that by force
    then show "\<forall>(k', ao') \<in> set kvs.
        k' \<notin> set (map fst (ag_overlays (a\<lparr>ag_overlays := ag_overlays a @ [(k, ao)]\<rparr>)))"
      using Cons.prems(3) by auto
  qed simp
  ultimately show ?case by (simp add: kv)
qed

text \<open>
  C33: The record of an agent survives being stored and recovered, with the overlay states
  cleared, as long as it takes part in an overlay; the record of an agent without overlays
  comes back without a backend, and asking for it aborts the master.
\<close>

theorem agent_recovered:
  assumes "stout_lib lib" "ag_ip a = V4 x" "distinct (map fst (ag_overlays a))"
    "\<forall>(k, ao) \<in> set (ag_overlays a). ao_name ao = k"
    "\<forall>(k, ao) \<in> set (ag_overlays a). Some (ao_backend ao) = ag_backend a"
  shows "\<exists>a'. agent_create lib (getAgentInfo lib a) = Ok a' \<and> ag_ip a' = ag_ip a \<and>
    ag_overlays a' = map (\<lambda>(k, ao). (k, clear_state ao)) (ag_overlays a) \<and>
    getBackendInfo a' = (if ag_overlays a = [] then Crash Option_None else getBackendInfo a)"
proof -
  have p: "ovl_ip_parse lib AF_INET (show_ip lib (V4 x)) = Ok (V4 x)"
    by (rule stout_lib.ovl_ip_parse_show [OF assms(1)])
  show ?thesis
  proof (cases "ag_overlays a")
    case Nil
    with p assms(2) show ?thesis
      by (simp add: agent_create_def getAgentInfo_def clearOverlaysState_def getBackendInfo_def)
  next
    case (Cons kv kvs)
    let ?a0 = "\<lparr>ag_backend = Some (ao_backend (snd kv)), ag_overlays = [], ag_ip = V4 x\<rparr>"
    have "fold addOverlay (map snd (ag_overlays a)) ?a0 = ?a0\<lparr>ag_overlays := ag_overlays a\<rparr>"
      using fold_addOverlay [of "ag_overlays a" ?a0] assms(3,4) by simp
    with p assms(2,5) Cons show ?thesis
      by (cases kv) (simp add: agent_create_def getAgentInfo_def clearOverlaysState_def getBackendInfo_def)
  qed
qed

theorem agent_recovered_witness:
  "\<exists>a'. agent_create ref_lib (getAgentInfo ref_lib ag9) = Ok a' \<and> getBackendInfo a' = Crash Option_None"
  using agent_recovered [OF ref.stout_lib_axioms, of ag9] by (auto simp: ag9_def)

text \<open>
  An agent prefix of 32 is not supported, and not rejected: dividing a /32 between the
  bridges evaluates a shift that C++ leaves undefined.
\<close>

theorem bridges_of_host_subnet:
  assumes "stout_lib lib" "ao_subnet ao = Some (show_net lib (Net (V4 c) 32))"
    "mesos_bridge cfg \<or> docker_bridge cfg"
  shows "allocateBridges lib cfg ao = Crash Undefined_Behaviour"
  using assms(2,3)
  by (auto simp: allocateBridges_def half_subnet_def mk_network4_crash
      stout_lib.network_parse_show4 [OF assms(1)])

theorem bridges_of_host_subnet_witness:
  "allocateBridges ref_lib default_network_config
     (ao9\<lparr>ao_subnet := Some (show_net ref_lib (Net (V4 0x09000100) 32))\<rparr>) = Crash Undefined_Behaviour"
proof -
  have "mesos_bridge default_network_config \<or> docker_bridge default_network_config"
    by (simp add: mesos_bridge_def default_network_config_def)
  from bridges_of_host_subnet [OF ref.stout_lib_axioms _ this] show ?thesis by simp
qed

end
