(* ===== verification/StateOps.thy ===== *)
theory StateOps
  imports AgentDB
begin

text \<open>
  The operations on the checkpointed network state, \<open>class Operation\<close> and its subclasses in
  \<open>overlay/master.cpp\<close>: the master applies them to a copy of its state, writes the copy to the
  replicated log and makes it current once the write succeeded. An operation looks agents up in
  the master's in-memory database (\<open>agents\<close>) and remembers whether it succeeded.
\<close>

datatype operation =
    AddAgent agent_info
  | ModifyAgent agent_info
  | DeleteAgents "string list"

type_synonym agent_db = "ip \<rightharpoonup> agent"

text \<open>The loop of \<open>ModifyAgent\<close>: the first entry of address \<open>s\<close> is overwritten.\<close>

fun modify_first :: "string \<Rightarrow> agent_info \<Rightarrow> agent_info list \<Rightarrow> agent_info list option" where
  "modify_first s info [] = None"
| "modify_first s info (x # xs) =
     (if ai_ip x = s then Some (info # xs)
      else (case modify_first s info xs of None \<Rightarrow> None | Some ys \<Rightarrow> Some (x # ys)))"

text \<open>
  The two loops of \<open>DeleteAgents\<close>: the indices to delete, last first, and the deletion of the
  range of length one at each.
\<close>

fun indices_to_delete :: "string list \<Rightarrow> agent_info list \<Rightarrow> nat \<Rightarrow> nat list" where
  "indices_to_delete ips xs 0 = []"
| "indices_to_delete ips xs (Suc i) =
     (if ai_ip (xs ! i) \<in> set ips then i # indices_to_delete ips xs i
      else indices_to_delete ips xs i)"

definition delete_at :: "nat \<Rightarrow> 'a list \<Rightarrow> 'a list" where
  "delete_at i xs = take i xs @ drop (i + 1) xs"

definition delete_agents :: "string list \<Rightarrow> agent_info list \<Rightarrow> agent_info list" where
  "delete_agents ips xs = fold delete_at (indices_to_delete ips xs (length xs)) xs"

definition find_agent :: "stout \<Rightarrow> agent_db \<Rightarrow> string \<Rightarrow> ip res" where
  \<comment> \<open>the guard shared by \<open>AddAgent\<close> and \<open>ModifyAgent\<close>\<close>
  "find_agent lib agents s =
     bind_res (ovl_ip_parse lib AF_INET s) (\<lambda>ip.
       if agents ip = None then Error Unknown_Agent else Ok ip)"

fun perform :: "stout \<Rightarrow> agent_db \<Rightarrow> operation \<Rightarrow> net_state \<Rightarrow> net_state res" where
  "perform lib agents (AddAgent info) st =
     bind_res (find_agent lib agents (ai_ip info)) (\<lambda>_.
       Ok (st\<lparr>ns_agents := ns_agents st @ [info]\<rparr>))"
| "perform lib agents (ModifyAgent info) st =
     bind_res (find_agent lib agents (ai_ip info)) (\<lambda>_.
       case modify_first (ai_ip info) info (ns_agents st) of
         None \<Rightarrow> Error Not_In_State
       | Some xs \<Rightarrow> Ok (st\<lparr>ns_agents := xs\<rparr>))"
| "perform lib agents (DeleteAgents ips) st =
     Ok (st\<lparr>ns_agents := delete_agents ips (ns_agents st)\<rparr>)"

definition apply_op :: "stout \<Rightarrow> agent_db \<Rightarrow> operation \<Rightarrow> net_state \<Rightarrow> (net_state \<times> bool) res" where
  \<comment> \<open>\<open>operator()\<close>: the state after it, and \<open>success\<close>\<close>
  "apply_op lib agents op st =
     (case perform lib agents op st of
        Ok st' \<Rightarrow> Ok (st', True)
      | Error _ \<Rightarrow> Ok (st, False)
      | Crash c \<Rightarrow> Crash c)"

section \<open>What the operations do\<close>

lemma delete_at_append: "i < length xs \<Longrightarrow> delete_at i (xs @ ys) = delete_at i xs @ ys"
  by (simp add: delete_at_def)

lemma fold_delete_prefix:
  "n \<le> length xs \<Longrightarrow>
   fold delete_at (indices_to_delete ips xs n) (take n xs @ ys) =
   filter (\<lambda>x. ai_ip x \<notin> set ips) (take n xs) @ ys"
proof (induction n arbitrary: ys)
  case 0
  then show ?case by simp
next
  case (Suc n)
  then have t: "take (Suc n) xs = take n xs @ [xs ! n]" by (simp add: take_Suc_conv_app_nth)
  show ?case
  proof (cases "ai_ip (xs ! n) \<in> set ips")
    case True
    have "delete_at n (take (Suc n) xs @ ys) = take n xs @ ys"
      using Suc.prems by (simp add: delete_at_def t min_def)
    with True Suc show ?thesis by (simp add: t)
  next
    case False
    with Suc.IH [of "(xs ! n) # ys"] Suc.prems show ?thesis by (simp add: t)
  qed
qed

lemma delete_agents_eq: "delete_agents ips xs = filter (\<lambda>x. ai_ip x \<notin> set ips) xs"
  using fold_delete_prefix [of "length xs" xs ips "[]"] by (simp add: delete_agents_def)

lemma modify_first_None: "modify_first s info xs = None \<longleftrightarrow> s \<notin> ai_ip ` set xs"
  by (induction xs) (auto split: option.splits)

lemma modify_first_Some:
  "modify_first s info xs = Some ys \<Longrightarrow>
   \<exists>us x vs. xs = us @ x # vs \<and> ys = us @ info # vs \<and> ai_ip x = s \<and> s \<notin> ai_ip ` set us"
proof (induction xs arbitrary: ys)
  case Nil
  then show ?case by simp
next
  case (Cons z xs)
  show ?case
  proof (cases "ai_ip z = s")
    case True
    with Cons.prems show ?thesis by (intro exI [of _ "[]"] exI [of _ z] exI [of _ xs]) simp
  next
    case False
    with Cons.prems obtain zs where "modify_first s info xs = Some zs" "ys = z # zs"
      by (auto split: option.splits)
    with Cons.IH obtain us x vs where "xs = us @ x # vs" "zs = us @ info # vs"
      "ai_ip x = s" "s \<notin> ai_ip ` set us" by blast
    with False \<open>ys = z # zs\<close> show ?thesis
      by (intro exI [of _ "z # us"] exI [of _ x] exI [of _ vs]) simp
  qed
qed

lemma perform_ips:
  assumes "perform lib agents op st = Ok st'"
  shows "map ai_ip (ns_agents st') =
    (case op of
       AddAgent info \<Rightarrow> map ai_ip (ns_agents st) @ [ai_ip info]
     | ModifyAgent info \<Rightarrow> map ai_ip (ns_agents st)
     | DeleteAgents ips \<Rightarrow> filter (\<lambda>ip. ip \<notin> set ips) (map ai_ip (ns_agents st)))"
proof (cases op)
  case (ModifyAgent info)
  with assms obtain xs where "modify_first (ai_ip info) info (ns_agents st) = Some xs" "ns_agents st' = xs"
    by (auto simp: res_simps split: option.splits)
  with modify_first_Some show ?thesis by (fastforce simp: ModifyAgent)
qed (use assms in \<open>auto simp: res_simps delete_agents_eq filter_map comp_def\<close>)

section \<open>Properties\<close>

text \<open>
  C34: Deleting agents from the network state removes exactly the entries whose address is in the
  given set and keeps the others in their order, although the entries are deleted one index at a
  time from a list that shrinks meanwhile.
\<close>

theorem delete_agents_exact:
  "perform lib agents (DeleteAgents ips) st =
     Ok (st\<lparr>ns_agents := filter (\<lambda>x. ai_ip x \<notin> set ips) (ns_agents st)\<rparr>)"
  by (simp add: delete_agents_eq)

text \<open>
  The network state holds at most one entry per agent address as long as no agent is added
  that it already holds: \<open>ModifyAgent\<close> and \<open>DeleteAgents\<close> keep the entries distinct on every
  branch, and so does \<open>AddAgent\<close> for an address that is not in the state.
\<close>

theorem state_entries_distinct:
  assumes "distinct (map ai_ip (ns_agents st))" "apply_op lib agents op st = Ok (st', ok)"
    "\<And>info. op = AddAgent info \<Longrightarrow> ai_ip info \<notin> set (map ai_ip (ns_agents st))"
  shows "distinct (map ai_ip (ns_agents st'))"
proof (cases "perform lib agents op st")
  case (Ok st1)
  with assms(2) have "st1 = st'" by (simp add: apply_op_def)
  with Ok have "perform lib agents op st = Ok st'" by simp
  from perform_ips [OF this] assms(1,3) show ?thesis by (cases op) auto
qed (use assms in \<open>auto simp: apply_op_def\<close>)

theorem state_entries_distinct_witness:
  "\<exists>st'. apply_op ref_lib (\<lambda>_. None) (DeleteAgents [''10.0.0.1''])
      (empty_state\<lparr>ns_agents := [\<lparr>ai_ip = ''10.0.0.1'', ai_overlays = [], ai_attempts = None\<rparr>,
         \<lparr>ai_ip = ''10.0.0.2'', ai_overlays = [], ai_attempts = None\<rparr>]\<rparr>) = Ok (st', True) \<and>
     distinct (map ai_ip (ns_agents st'))"
proof -
  let ?st = "empty_state\<lparr>ns_agents := [\<lparr>ai_ip = ''10.0.0.1'', ai_overlays = [], ai_attempts = None\<rparr>,
         \<lparr>ai_ip = ''10.0.0.2'', ai_overlays = [], ai_attempts = None\<rparr>]\<rparr>"
  have a: "apply_op ref_lib (\<lambda>_. None) (DeleteAgents [''10.0.0.1'']) ?st =
      Ok (?st\<lparr>ns_agents := [\<lparr>ai_ip = ''10.0.0.2'', ai_overlays = [], ai_attempts = None\<rparr>]\<rparr>, True)"
    by (simp add: apply_op_def delete_agents_eq)
  have "distinct (map ai_ip (ns_agents ?st))" by simp
  from state_entries_distinct [OF this a] a show ?thesis by blast
qed

end
