(* ===== verification/MasterSetup.thy ===== *)
theory MasterSetup
  imports StateOps
begin

text \<open>
  The construction of the master process, \<open>ManagerProcess::createManagerProcess\<close> of
  \<open>overlay/master.cpp\<close>: the operator's configuration is checked (the VTEP network and OUI, the
  overlays' names and address spaces), the pools are built, and the replicated log is set up from
  the configuration or the environment. What the code asks the operating system, ZooKeeper's URL
  parser and stout's number and duration parsers is a parameter, the record \<open>host\<close>.
\<close>

section \<open>State of the master process\<close>

record zk_url =
  zu_servers :: string
  zu_path :: string
  zu_auth :: "string option"

record host =
  getenv :: "string \<Rightarrow> string option"
  mkdir :: "string \<Rightarrow> bool"
  read_file :: "string \<Rightarrow> string option"
  numify32 :: "string \<Rightarrow> u32 option"
  zk_parse :: "string \<Rightarrow> zk_url option"
  duration_parse :: "string \<Rightarrow> int option"  \<comment> \<open>in nanoseconds\<close>
  path_join :: "string \<Rightarrow> string \<Rightarrow> string"

text \<open>The arguments of the two constructor calls of \<open>Log\<close>.\<close>

datatype replog =
    Log_ZooKeeper int string string u32 string "string option"
  | Log_Local int string

text \<open>Who waits for an operation: the callbacks that \<open>update\<close>'s future is given.\<close>

record upid =
  up_id :: string
  up_ip :: ip

datatype waiter =
    W_Register upid ip           \<comment> \<open>\<open>_registerAgent\<close>\<close>
  | W_Delete "string list"       \<comment> \<open>\<open>_deleteAgentsEndpoint\<close>\<close>

datatype outcome = Ready bool | Failure

text \<open>
  \<open>mg_inflight\<close> is the argument of the write to the log under way and the operations it carries,
  each with its \<open>success\<close>; \<open>mg_due\<close> are the callbacks dispatched to the process itself.
\<close>

record manager =
  mg_recovering :: bool
  mg_storing :: bool
  mg_overlays :: "(string \<times> overlay) list"
  mg_agents :: agent_db
  mg_log :: "replog option"
  mg_log_timeout :: int
  mg_stored :: "net_state option"
  mg_state :: net_state
  mg_ops :: "(operation \<times> waiter) list"
  mg_vtep :: vtep
  mg_metrics :: master_metrics
  mg_inflight :: "(net_state \<times> (operation \<times> bool \<times> waiter) list) option"
  mg_due :: "(waiter \<times> outcome) list"
  mg_terminated :: bool

definition manager_new ::
  "stout \<Rightarrow> (string \<times> overlay) list \<Rightarrow> network \<Rightarrow> network option \<Rightarrow> byte list \<Rightarrow> u64 option \<Rightarrow>
   network_config \<Rightarrow> replog option \<Rightarrow> int \<Rightarrow> manager res" where
  "manager_new lib overlays vtepSubnet vtepSubnet6 oui mtu cfg log timeout =
     bind_res (vtep_new lib vtepSubnet vtepSubnet6 oui mtu) (\<lambda>v.
       Ok \<lparr>mg_recovering = False, mg_storing = False, mg_overlays = overlays, mg_agents = Map.empty,
           mg_log = log, mg_log_timeout = timeout, mg_stored = None,
           mg_state = empty_state\<lparr>ns_network := Some cfg\<rparr>, mg_ops = [], mg_vtep = v,
           mg_metrics = metrics0, mg_inflight = None, mg_due = [], mg_terminated = False\<rparr>)"

section \<open>The overlays of the configuration\<close>

definition RESERVED_NETWORKS :: "string set" where
  "RESERVED_NETWORKS = {''host'', ''bridge'', ''default'', ''none''}"

definition MAX_OVERLAY_NAME :: nat where
  "MAX_OVERLAY_NAME =
     (if length DOCKER_BRIDGE_PREFIX > length MESOS_BRIDGE_PREFIX
      then 15 - length MESOS_BRIDGE_PREFIX else 15 - length DOCKER_BRIDGE_PREFIX)"

definition updateAddressSpace :: "stout \<Rightarrow> ip ivset \<Rightarrow> network \<Rightarrow> ip ivset res" where
  "updateAddressSpace lib space n =
     bind_res (net_begin n) (\<lambda>b. bind_res (net_end n) (\<lambda>e.
       if iv_intersects (ip_ivs lib) space (Closed b) (Closed e) then Error Overlapping_Space
       else Ok (iv_insert (ip_ivs lib) space (Closed b) (Closed e))))"

definition setup_network ::
  "stout \<Rightarrow> family \<Rightarrow> string option \<Rightarrow> u32 option \<Rightarrow> ip ivset \<Rightarrow>
   (network option \<times> byte option \<times> ip ivset) res" where
  \<comment> \<open>the subnet of one family, if the overlay has one; the prefix is truncated to 8 bits\<close>
  "setup_network lib f subnet prefix space =
     (case subnet of
        None \<Rightarrow> Ok (None, None, space)
      | Some s \<Rightarrow>
          bind_res (network_parse lib f s) (\<lambda>n.
          bind_res (updateAddressSpace lib space n) (\<lambda>space'.
            Ok (Some n, Some (ucast (field_or 0 prefix)), space'))))"

definition setup_overlay ::
  "stout \<Rightarrow> overlay_info \<Rightarrow> (string \<times> overlay) list \<Rightarrow> ip ivset \<Rightarrow>
   ((string \<times> overlay) list \<times> ip ivset) res" where
  "setup_overlay lib info ovs space =
     (if hm_contains ovs (oi_name info) then Error Duplicate_Overlay
      else if oi_name info \<in> RESERVED_NETWORKS then Error Reserved_Name
      else if length (oi_name info) > MAX_OVERLAY_NAME then Error Name_Too_Long
      else
        bind_res (setup_network lib AF_INET (oi_subnet info) (oi_prefix info) space)
          (\<lambda>(address, prefix, space1).
        bind_res (setup_network lib AF_INET6 (oi_subnet6 info) (oi_prefix6 info) space1)
          (\<lambda>(address6, prefix6, space2).
        bind_res (overlay_new lib (oi_name info) address address6 prefix prefix6
            (field_or True (oi_enabled info))) (\<lambda>ov.
          Ok (hm_emplace ovs (oi_name info) ov, space2)))))"

fun setup_overlays ::
  "stout \<Rightarrow> overlay_info list \<Rightarrow> (string \<times> overlay) list \<Rightarrow> ip ivset \<Rightarrow>
   ((string \<times> overlay) list \<times> ip ivset) res" where
  "setup_overlays lib [] ovs space = Ok (ovs, space)"
| "setup_overlays lib (info # infos) ovs space =
     bind_res (setup_overlay lib info ovs space) (\<lambda>(ovs', space').
       setup_overlays lib infos ovs' space')"

section \<open>The replicated log\<close>

definition starts_with :: "string \<Rightarrow> string \<Rightarrow> bool" where
  "starts_with s prefix \<longleftrightarrow> take (length prefix) s = prefix"

definition setup_quorum :: "host \<Rightarrow> master_config \<Rightarrow> u32 option res" where
  "setup_quorum h mc =
     (case Option.bind (mc_zk mc) zk_quorum of
        Some q \<Rightarrow> Ok (Some q)
      | None \<Rightarrow>
          (case getenv h ''MESOS_QUORUM'' of
             None \<Rightarrow> Ok None
           | Some s \<Rightarrow> (case numify32 h s of None \<Rightarrow> Error Quorum_Invalid | Some q \<Rightarrow> Ok (Some q))))"

definition setup_zk_log :: "host \<Rightarrow> master_config \<Rightarrow> string \<Rightarrow> string \<Rightarrow> u32 \<Rightarrow> replog res" where
  "setup_zk_log h mc dir zkURL quorum =
     bind_res (if starts_with zkURL ''file://''
               then (case read_file h (drop 7 zkURL) of None \<Rightarrow> Error Read_Failed | Some s \<Rightarrow> Ok s)
               else Ok zkURL) (\<lambda>text.
       case zk_parse h text of
         None \<Rightarrow> Error Url_Invalid
       | Some url \<Rightarrow>
           Ok (Log_ZooKeeper (sint quorum) (path_join h dir ''overlay_replicated_log'')
                 (zu_servers url) (field_or 10 (Option.bind (mc_zk mc) zk_session_timeout))
                 (path_join h (zu_path url) ''overlay_log_replicas'') (zu_auth url)))"

definition setup_log :: "host \<Rightarrow> master_config \<Rightarrow> replog option res" where
  "setup_log h mc =
     (case mc_log_dir mc of
        None \<Rightarrow> Ok None
      | Some dir \<Rightarrow>
          if \<not> mkdir h dir then Error Log_Dir_Failed
          else
            (let zkURL = (case Option.bind (mc_zk mc) zk_url of
                            Some u \<Rightarrow> Some u | None \<Rightarrow> getenv h ''MESOS_ZK'') in
             bind_res (setup_quorum h mc) (\<lambda>quorum.
               case (zkURL, quorum) of
                 (Some u, None) \<Rightarrow> Error Quorum_Missing
               | (Some u, Some q) \<Rightarrow> bind_res (setup_zk_log h mc dir u q) (\<lambda>l. Ok (Some l))
               | (None, _) \<Rightarrow> Ok (Some (Log_Local 1 (path_join h dir ''overlay_replicated_log''))))))"

section \<open>The factory\<close>

definition parse_timeout :: "host \<Rightarrow> master_config \<Rightarrow> int res" where
  "parse_timeout h mc =
     (case mc_log_timeout mc of
        None \<Rightarrow> Ok (5 * 60 * 1000000000)
      | Some s \<Rightarrow>
          (case duration_parse h s of None \<Rightarrow> Error Timeout_Invalid | Some d \<Rightarrow> Ok d))"

definition createManagerProcess ::
  "host \<Rightarrow> stout \<Rightarrow> byte list \<Rightarrow> master_config \<Rightarrow> manager res" where
  "createManagerProcess h lib junk mc =
     (let cfg = mc_network mc in
      bind_res (network_parse lib AF_INET (nc_vtep_subnet cfg)) (\<lambda>vtepSubnet.
        if unat (nprefix vtepSubnet) < 8 then Error Vtep_Prefix_Too_Short
        else
          bind_res (createMAC lib junk (nc_vtep_mac_oui cfg) True) (\<lambda>oui.
          bind_res (case nc_vtep_subnet6 cfg of
              None \<Rightarrow> Ok None
            | Some s \<Rightarrow> bind_res (network_parse lib AF_INET6 s) (\<lambda>n. Ok (Some n))) (\<lambda>vtepSubnet6.
          let mtu = map_option ucast (nc_vtep_mtu cfg) in
          bind_res (setup_overlays lib (nc_overlays cfg) [] []) (\<lambda>(overlays, _).
            if overlays = [] then Error No_Overlays
            else
              bind_res (setup_log h mc) (\<lambda>log.
              bind_res (parse_timeout h mc) (\<lambda>timeout.
              manager_new lib overlays vtepSubnet vtepSubnet6 oui mtu cfg log timeout)))))))"

section \<open>What the checks guarantee\<close>

definition at_top :: "overlay \<Rightarrow> bool" where
  \<comment> \<open>the overlay contains 255.255.255.255\<close>
  "at_top ov \<longleftrightarrow>
     (\<exists>a q. ov_network ov = Some (Net (V4 a) q) \<and> a OR NOT (mask4 q) = - 1)"

definition ovl_range :: "overlay \<Rightarrow> ip set" where
  "ovl_range ov = (case ov_network ov of None \<Rightarrow> {} | Some n \<Rightarrow> addr_range n)"

definition overlays_ok :: "(string \<times> overlay) list \<Rightarrow> ip ivset \<Rightarrow> bool" where
  "overlays_ok ovs space \<longleftrightarrow>
     iv_normal space \<and> distinct (hm_keys ovs) \<and>
     (\<forall>(k, ov) \<in> set ovs. ov_name ov = k \<and> k \<notin> RESERVED_NETWORKS \<and> length k \<le> MAX_OVERLAY_NAME \<and>
        (\<not> at_top ov \<longrightarrow> ovl_range ov \<subseteq> covers space)) \<and>
     (\<forall>(k, ov) \<in> set ovs. \<forall>(k', ov') \<in> set ovs. k \<noteq> k' \<longrightarrow> \<not> at_top ov \<longrightarrow> \<not> at_top ov' \<longrightarrow>
        ovl_range ov \<inter> ovl_range ov' = {})"

lemma overlay_new_fields:
  "overlay_new lib name n4 n6 p4 p6 en = Ok ov \<Longrightarrow>
   ov_name ov = name \<and> ov_network ov = n4 \<and> ov_network6 ov = n6 \<and> ov_prefix ov = p4 \<and>
   ov_prefix6 ov = p6 \<and> ov_enabled ov = en"
  by (auto simp: overlay_new_def res_simps)

lemma overlay_new_no_network:
  "overlay_new lib name None n6 p4 p6 en = Ok ov \<Longrightarrow> ov_freeNetworks ov = []"
  by (auto simp: overlay_new_def res_simps)

context stout_lib
begin

lemma updateAddressSpace_spec:
  assumes "iv_normal space" "updateAddressSpace lib space n = Ok space'"
  shows "iv_normal space'" "covers space \<subseteq> covers space'"
    "n = Net (V4 a) q \<Longrightarrow> wf_network n \<Longrightarrow> a OR NOT (mask4 q) \<noteq> - 1 \<Longrightarrow>
     addr_range n \<inter> covers space = {} \<and> addr_range n \<subseteq> covers space'"
proof -
  from assms(2) obtain b e where be: "net_begin n = Ok b" "net_end n = Ok e"
    "\<not> iv_intersects (ip_ivs lib) space (Closed b) (Closed e)"
    "space' = iv_insert (ip_ivs lib) space (Closed b) (Closed e)"
    by (auto simp: updateAddressSpace_def res_simps split: if_splits)
  show "iv_normal space'" "covers space \<subseteq> covers space'"
    using assms(1) by (simp_all add: be(4) ips.normal_insert ips.covers_insert)
  assume n: "n = Net (V4 a) q" "wf_network n" "a OR NOT (mask4 q) \<noteq> - 1"
  have "span ip_succ (Closed b) (Closed e) = addr_range n"
  proof -
    have "b = V4 (a AND mask4 q)" "e = V4 (a OR NOT (mask4 q))"
      using be(1,2) n net_begin4 net_end4 by auto
    then have "x \<in> span ip_succ (Closed b) (Closed e) \<longleftrightarrow>
        (\<exists>c. x = V4 c \<and> a AND mask4 q \<le> c \<and> c \<le> a OR NOT (mask4 q))" for x
      using ip_between4_iff [of "a AND mask4 q" x "(a OR NOT (mask4 q)) + 1"] less_plus_one [OF n(3)]
      by (simp add: span_def ip_succ4)
    then show ?thesis using addr_range4 [of a q] n(1,2) by (auto simp: in_block_iff)
  qed
  then show "addr_range n \<inter> covers space = {} \<and> addr_range n \<subseteq> covers space'"
    using be(3) assms(1) by (auto simp: be(4) ips.intersects_iff ips.covers_insert)
qed

lemma setup_network_spec:
  assumes "iv_normal space" "setup_network lib f subnet prefix space = Ok (n, p, space')"
  shows "iv_normal space'" "covers space \<subseteq> covers space'"
    "case n of None \<Rightarrow> p = None
     | Some m \<Rightarrow> p = Some (ucast (field_or 0 prefix)) \<and> wf_network m \<and> ip_family (naddr m) = f \<and>
         (\<forall>a q. m = Net (V4 a) q \<longrightarrow> a OR NOT (mask4 q) \<noteq> - 1 \<longrightarrow>
            addr_range m \<inter> covers space = {} \<and> addr_range m \<subseteq> covers space')"
proof -
  show "iv_normal space'" "covers space \<subseteq> covers space'"
    using assms
    by (auto simp: setup_network_def res_simps updateAddressSpace_spec(1)
        dest: subsetD [OF updateAddressSpace_spec(2)] split: option.splits)
  show "case n of None \<Rightarrow> p = None
     | Some m \<Rightarrow> p = Some (ucast (field_or 0 prefix)) \<and> wf_network m \<and> ip_family (naddr m) = f \<and>
         (\<forall>a q. m = Net (V4 a) q \<longrightarrow> a OR NOT (mask4 q) \<noteq> - 1 \<longrightarrow>
            addr_range m \<inter> covers space = {} \<and> addr_range m \<subseteq> covers space')"
  proof (cases subnet)
    case None
    with assms(2) show ?thesis by (auto simp: setup_network_def)
  next
    case (Some s)
    with assms(2) obtain m where m: "network_parse lib f s = Ok m"
      "updateAddressSpace lib space m = Ok space'" "n = Some m" "p = Some (ucast (field_or 0 prefix))"
      by (auto simp: setup_network_def res_simps)
    from network_parse_Ok [OF m(1)] have w: "wf_network m" "ip_family (naddr m) = f" by auto
    with updateAddressSpace_spec(3) [OF assms(1) m(2)] m(3,4) show ?thesis by auto
  qed
qed

lemma overlays_okD:
  assumes "overlays_ok ovs space"
  shows "iv_normal space" "distinct (hm_keys ovs)"
    "(k, ov) \<in> set ovs \<Longrightarrow> ov_name ov = k \<and> k \<notin> RESERVED_NETWORKS \<and> length k \<le> MAX_OVERLAY_NAME"
    "(k, ov) \<in> set ovs \<Longrightarrow> \<not> at_top ov \<Longrightarrow> ovl_range ov \<subseteq> covers space"
    "(k, ov) \<in> set ovs \<Longrightarrow> (k', ov') \<in> set ovs \<Longrightarrow> k \<noteq> k' \<Longrightarrow> \<not> at_top ov \<Longrightarrow> \<not> at_top ov' \<Longrightarrow>
       ovl_range ov \<inter> ovl_range ov' = {}"
  using assms unfolding overlays_ok_def by fast+

text \<open>A further overlay that lies outside the address space taken so far.\<close>

lemma overlays_ok_snoc:
  assumes "overlays_ok ovs space" "iv_normal space'" "covers space \<subseteq> covers space'" "\<not> hm_contains ovs k"
    "ov_name ov = k" "k \<notin> RESERVED_NETWORKS" "length k \<le> MAX_OVERLAY_NAME"
    "\<not> at_top ov \<Longrightarrow> ovl_range ov \<inter> covers space = {} \<and> ovl_range ov \<subseteq> covers space'"
  shows "overlays_ok (ovs @ [(k, ov)]) space'"
proof -
  note old = overlays_okD [OF assms(1)]
  have "distinct (hm_keys (ovs @ [(k, ov)]))" using old(2) assms(4) by (simp add: hm_keys_def hm_contains_iff)
  moreover have "ov_name ov' = k' \<and> k' \<notin> RESERVED_NETWORKS \<and> length k' \<le> MAX_OVERLAY_NAME \<and>
      (\<not> at_top ov' \<longrightarrow> ovl_range ov' \<subseteq> covers space')" if "(k', ov') \<in> set (ovs @ [(k, ov)])" for k' ov'
  proof (cases "(k', ov') \<in> set ovs")
    case True
    with old(3,4) [OF True] assms(3) show ?thesis by blast
  next
    case False
    with that assms(5-8) show ?thesis by simp
  qed
  moreover have "ovl_range ov1 \<inter> ovl_range ov2 = {}"
    if a: "(k1, ov1) \<in> set (ovs @ [(k, ov)])" "(k2, ov2) \<in> set (ovs @ [(k, ov)])" "k1 \<noteq> k2" "\<not> at_top ov1" "\<not> at_top ov2"
    for k1 ov1 k2 ov2
    using a old(5) [of k1 ov1 k2 ov2] old(4) [of k1 ov1] old(4) [of k2 ov2] assms(8) by auto
  ultimately show ?thesis unfolding overlays_ok_def using assms(2) by blast
qed

lemma setup_overlay_ok:
  assumes "overlays_ok ovs space" "setup_overlay lib info ovs space = Ok (ovs', space')"
  shows "overlays_ok ovs' space' \<and> hm_keys ovs' = hm_keys ovs @ [oi_name info]"
proof -
  let ?k = "oi_name info"
  from assms(2) obtain n4 p4 sp1 n6 p6 ov where
    g: "\<not> hm_contains ovs ?k" "?k \<notin> RESERVED_NETWORKS" "length ?k \<le> MAX_OVERLAY_NAME" and
    s4: "setup_network lib AF_INET (oi_subnet info) (oi_prefix info) space = Ok (n4, p4, sp1)" and
    s6: "setup_network lib AF_INET6 (oi_subnet6 info) (oi_prefix6 info) sp1 = Ok (n6, p6, space')" and
    ov: "overlay_new lib ?k n4 n6 p4 p6 (field_or True (oi_enabled info)) = Ok ov" and
    ovs': "ovs' = ovs @ [(?k, ov)]"
    by (auto simp: setup_overlay_def res_simps hm_emplace_def split: if_splits)
  note r4 = setup_network_spec [OF overlays_okD(1) [OF assms(1)] s4]
  note r6 = setup_network_spec [OF r4(1) s6]
  have f: "ov_name ov = ?k" "ov_network ov = n4" using overlay_new_fields [OF ov] by simp_all
  have new: "ovl_range ov \<inter> covers space = {} \<and> ovl_range ov \<subseteq> covers space'" if "\<not> at_top ov"
  proof (cases n4)
    case None
    then show ?thesis by (simp add: ovl_range_def f)
  next
    case (Some m)
    with r4(3) have m: "wf_network m" "ip_family (naddr m) = AF_INET" by auto
    obtain a q where mq: "m = Net (V4 a) q" using m(2) by (cases m) (auto elim: family4E)
    with that Some f have "a OR NOT (mask4 q) \<noteq> - 1" by (auto simp: at_top_def)
    with r4(3) Some mq r6(2) show ?thesis by (auto simp: ovl_range_def f)
  qed
  have "covers space \<subseteq> covers space'" using r4(2) r6(2) by blast
  from overlays_ok_snoc [OF assms(1) r6(1) this g(1) f(1) g(2,3) new] show ?thesis
    by (simp add: ovs' hm_keys_def)
qed

lemma setup_overlays_ok:
  "overlays_ok ovs space \<Longrightarrow> setup_overlays lib infos ovs space = Ok (ovs', space') \<Longrightarrow>
   overlays_ok ovs' space' \<and> hm_keys ovs' = hm_keys ovs @ map oi_name infos"
proof (induction infos arbitrary: ovs space)
  case (Cons info infos)
  from Cons.prems(2) obtain ovs1 space1 where
    "setup_overlay lib info ovs space = Ok (ovs1, space1)"
    "setup_overlays lib infos ovs1 space1 = Ok (ovs', space')"
    by (auto simp: res_simps)
  with setup_overlay_ok [OF Cons.prems(1)] Cons.IH show ?case by fastforce
qed simp

end


lemma overlays_ok_empty: "overlays_ok [] []"
  by (simp add: overlays_ok_def hm_keys_def)

lemma MAX_OVERLAY_NAME_13: "MAX_OVERLAY_NAME = 13"
  by (simp add: MAX_OVERLAY_NAME_def DOCKER_BRIDGE_PREFIX_def MESOS_BRIDGE_PREFIX_def)

text \<open>The parts of a successful construction.\<close>

lemma createManagerProcess_parts:
  assumes "createManagerProcess h lib junk mc = Ok m"
  obtains vn oui n6 ovs sp log tmo where
    "network_parse lib AF_INET (nc_vtep_subnet (mc_network mc)) = Ok vn" "8 \<le> unat (nprefix vn)"
    "createMAC lib junk (nc_vtep_mac_oui (mc_network mc)) True = Ok oui"
    "setup_overlays lib (nc_overlays (mc_network mc)) [] [] = Ok (ovs, sp)" "ovs \<noteq> []"
    "setup_log h mc = Ok log"
    "manager_new lib ovs vn n6 oui (map_option ucast (nc_vtep_mtu (mc_network mc))) (mc_network mc)
       log tmo = Ok m"
proof -
  from assms obtain vn where
    1: "network_parse lib AF_INET (nc_vtep_subnet (mc_network mc)) = Ok vn" "8 \<le> unat (nprefix vn)"
    and a: "bind_res (createMAC lib junk (nc_vtep_mac_oui (mc_network mc)) True) (\<lambda>oui.
          bind_res (case nc_vtep_subnet6 (mc_network mc) of
              None \<Rightarrow> Ok None
            | Some s \<Rightarrow> bind_res (network_parse lib AF_INET6 s) (\<lambda>n. Ok (Some n))) (\<lambda>vtepSubnet6.
          bind_res (setup_overlays lib (nc_overlays (mc_network mc)) [] []) (\<lambda>(overlays, _).
            if overlays = [] then Error No_Overlays
            else
              bind_res (setup_log h mc) (\<lambda>log.
              bind_res (parse_timeout h mc) (\<lambda>timeout.
              manager_new lib overlays vn vtepSubnet6 oui (map_option ucast (nc_vtep_mtu (mc_network mc)))
                (mc_network mc) log timeout))))) = Ok m"
    unfolding createManagerProcess_def Let_def
    by (elim bind_res_OkE) (auto split: if_splits)
  from a obtain oui n6 r where
    2: "createMAC lib junk (nc_vtep_mac_oui (mc_network mc)) True = Ok oui"
      "setup_overlays lib (nc_overlays (mc_network mc)) [] [] = Ok r" and
    b: "(case r of (overlays, _) \<Rightarrow>
            if overlays = [] then Error No_Overlays
            else
              bind_res (setup_log h mc) (\<lambda>log.
              bind_res (parse_timeout h mc) (\<lambda>timeout.
              manager_new lib overlays vn n6 oui (map_option ucast (nc_vtep_mtu (mc_network mc)))
                (mc_network mc) log timeout))) = Ok m"
    by (elim bind_res_OkE)
  obtain ovs sp where r: "r = (ovs, sp)" by (cases r)
  from b r have ne: "ovs \<noteq> []" by (auto split: if_splits)
  with b r have c: "bind_res (setup_log h mc) (\<lambda>log.
              bind_res (parse_timeout h mc) (\<lambda>timeout.
              manager_new lib ovs vn n6 oui (map_option ucast (nc_vtep_mtu (mc_network mc)))
                (mc_network mc) log timeout)) = Ok m" by simp
  then obtain log tmo where "setup_log h mc = Ok log"
    "manager_new lib ovs vn n6 oui (map_option ucast (nc_vtep_mtu (mc_network mc))) (mc_network mc)
       log tmo = Ok m" by (elim bind_res_OkE)
  with that 1 2 r ne show thesis by blast
qed

lemma manager_new_fields:
  assumes "manager_new lib ovs vn n6 oui mtu cfg log tmo = Ok m"
  shows "mg_overlays m = ovs" "mg_agents m = Map.empty" "mg_log m = log" "mg_stored m = None"
    "mg_state m = \<lparr>ns_network = Some cfg, ns_agents = []\<rparr>" "vtep_new lib vn n6 oui mtu = Ok (mg_vtep m)"
    "mg_ops m = []" "mg_due m = []" "mg_inflight m = None" "\<not> mg_terminated m" "\<not> mg_storing m"
    "\<not> mg_recovering m"
  using assms by (auto simp: manager_new_def res_simps empty_state_def)

lemma vtep_new_network: "vtep_new lib vn n6 oui mtu = Ok v \<Longrightarrow>
    vt_network v = vn \<and> vt_network6 v = n6 \<and> vt_oui v = oui \<and> vt_mtu v = mtu"
  by (auto simp: vtep_new_def res_simps)

lemma createMAC_oui:
  assumes "createMAC lib junk s True = Ok m" "length junk = 6"
  shows "length m = 6" "2 < j \<Longrightarrow> j < 6 \<Longrightarrow> m ! j = 0"
proof -
  from assms(1) have l: "length (str_split lib s '':'') = 6"
    and m: "mac_loop True 0 (str_split lib s '':'') junk = Ok m"
    by (auto simp: createMAC_def Let_def split: if_splits)
  show "length m = 6" using mac_loop_length [OF m] assms(2) by simp
  show "m ! j = 0" if "2 < j" "j < 6"
    using conjunct2 [OF mac_loop_nth [OF m, of j]] l assms(2) that by simp
qed

section \<open>Properties\<close>


definition host9 :: host where
  \<comment> \<open>a host for the witnesses: no environment, no files\<close>
  "host9 = \<lparr>getenv = \<lambda>_. None, mkdir = \<lambda>_. True, read_file = \<lambda>_. None, numify32 = \<lambda>_. None,
      zk_parse = \<lambda>_. None, duration_parse = \<lambda>_. None, path_join = \<lambda>a b. a @ ''/'' @ b\<rparr>"

definition config9 :: master_config where
  "config9 = \<lparr>mc_zk = None, mc_log_dir = Some ''/var/lib'',
     mc_network = \<lparr>nc_vtep_subnet = ''44.128.0.0/29'', nc_vtep_mac_oui = ''70:b3:d5:0:0:0'',
       nc_overlays = [(empty_overlay_info ''dcos'')\<lparr>oi_subnet := Some ''9.0.0.0/22'', oi_prefix := Some 24\<rparr>,
         (empty_overlay_info ''edge'')\<lparr>oi_subnet := Some ''10.0.0.0/22'', oi_prefix := Some 25\<rparr>],
       nc_vtep_subnet6 = None, nc_vtep_mtu = Some 1500\<rparr>,
     mc_log_timeout = None\<rparr>"

lemma created9: "is_ok (createManagerProcess host9 ref_lib (replicate 6 0) config9)"
  by code_simp




end
