(* ===== verification/MasterProcess.thy ===== *)
theory MasterProcess
  imports MasterSetup
begin

text \<open>
  The handlers of \<open>class ManagerProcess\<close> (\<open>overlay/master.cpp\<close>): registration of agents, the
  replicated log (recovery, the queue of operations and the write under way), the deletion of
  agents and the HTTP endpoints. A handler takes the process state and returns the next one with
  what it emits: messages to agents, requests to the log, HTTP responses. The process handles one
  event at a time; \<open>handle\<close> dispatches and \<open>step\<close> is the resulting transition relation.
\<close>

section \<open>Outputs and counters\<close>

datatype response =
    Method_Not_Allowed
  | Service_Unavailable
  | Bad_Request
  | Pipe_Opened
  | State_Json net_state

datatype action =
    Send_Update upid "agent_overlay_info list"
  | Send_Ack upid
  | Log_Fetch
  | Log_Store net_state
  | Http response
  | Pipe_Failed
  | Pipe_Json net_state

type_synonym handled = "(manager \<times> action list) res"

definition count :: "(master_metrics \<Rightarrow> master_metrics) \<Rightarrow> manager \<Rightarrow> manager" where
  "count f m = m\<lparr>mg_metrics := f (mg_metrics m)\<rparr>"

definition register_dropped :: "master_metrics \<Rightarrow> master_metrics" where
  "register_dropped mm = mm\<lparr>mm_register_dropped := mm_register_dropped mm + 1\<rparr>"

definition ip_failed :: "master_metrics \<Rightarrow> master_metrics" where
  "ip_failed mm = mm\<lparr>mm_ip_failures := mm_ip_failures mm + 1\<rparr>"

definition ip6_failed :: "master_metrics \<Rightarrow> master_metrics" where
  "ip6_failed mm = mm\<lparr>mm_ip6_failures := mm_ip6_failures mm + 1\<rparr>"

definition demote :: "manager \<Rightarrow> manager" where
  "demote m = m\<lparr>mg_terminated := True\<rparr>"

section \<open>The replicated log\<close>

fun apply_all ::
  "stout \<Rightarrow> agent_db \<Rightarrow> (operation \<times> waiter) list \<Rightarrow> net_state \<Rightarrow>
   (net_state \<times> (operation \<times> bool \<times> waiter) list) res" where
  "apply_all lib agents [] st = Ok (st, [])"
| "apply_all lib agents ((op, w) # ops) st =
     bind_res (apply_op lib agents op st) (\<lambda>(st1, ok).
     bind_res (apply_all lib agents ops st1) (\<lambda>(st2, rs). Ok (st2, (op, ok, w) # rs)))"

definition store :: "stout \<Rightarrow> manager \<Rightarrow> handled" where
  "store lib m =
     (if mg_stored m = None \<or> mg_log m = None then Crash Check_Failed
      else
        bind_res (apply_all lib (mg_agents m) (mg_ops m) (mg_state m)) (\<lambda>(st, rs).
          Ok (m\<lparr>mg_storing := True, mg_inflight := Some (st, rs), mg_ops := []\<rparr>, [Log_Store st])))"

definition update_op :: "stout \<Rightarrow> operation \<Rightarrow> waiter \<Rightarrow> manager \<Rightarrow> handled" where
  \<comment> \<open>\<open>update\<close>, together with the callback that its callers attach to the result\<close>
  "update_op lib op w m =
     (case mg_log m of
        None \<Rightarrow>
          (case perform lib (mg_agents m) op (mg_state m) of
             Ok st \<Rightarrow> Ok (m\<lparr>mg_state := st, mg_due := mg_due m @ [(w, Ready True)]\<rparr>, [])
           | Error _ \<Rightarrow> Ok (m\<lparr>mg_due := mg_due m @ [(w, Failure)]\<rparr>, [])
           | Crash c \<Rightarrow> Crash c)
      | Some _ \<Rightarrow>
          (let m1 = m\<lparr>mg_ops := mg_ops m @ [(op, w)]\<rparr> in
           if mg_storing m1 then Ok (m1, []) else store lib m1))"

datatype store_result = Store_Failed | Store_Stale | Store_Done

definition store_done :: "stout \<Rightarrow> store_result \<Rightarrow> manager \<Rightarrow> handled" where
  \<comment> \<open>\<open>_store\<close>; the variable a successful write returns holds what was written\<close>
  "store_done lib r m =
     (case mg_inflight m of
        None \<Rightarrow> Ok (m, [])
      | Some (st, applied) \<Rightarrow>
          (let m1 = m\<lparr>mg_storing := False, mg_inflight := None\<rparr> in
           if r \<noteq> Store_Done then Ok (demote m1, [])
           else
             (let m2 = m1\<lparr>mg_state := st, mg_stored := Some st,
                  mg_due := mg_due m1 @ map (\<lambda>(op, ok, w). (w, Ready ok)) applied\<rparr>
              in if mg_ops m2 \<noteq> [] then store lib m2 else Ok (m2, []))))"

section \<open>Recovery\<close>

definition recover :: "manager \<Rightarrow> handled" where
  "recover m =
     (if mg_log m = None then Crash Check_Failed
      else Ok (count (\<lambda>mm. mm\<lparr>mm_recovering := 1\<rparr>) (m\<lparr>mg_recovering := True\<rparr>), [Log_Fetch]))"

definition recover_subnet ::
  "stout \<Rightarrow> family \<Rightarrow> (overlay \<Rightarrow> network \<Rightarrow> overlay res) \<Rightarrow> string \<Rightarrow> string option \<Rightarrow>
   (string \<times> overlay) list \<Rightarrow> (string \<times> overlay) list res" where
  "recover_subnet lib f reserve name subnet ovs =
     (case subnet of
        None \<Rightarrow> Ok ovs
      | Some s \<Rightarrow>
          bind_res (network_parse lib f s) (\<lambda>n.
            case map_of ovs name of
              None \<Rightarrow> Crash Check_Failed
            | Some ov \<Rightarrow> bind_res (reserve ov n) (\<lambda>ov'. Ok (hm_update ovs name ov'))))"

definition recover_vtep ::
  "stout \<Rightarrow> family \<Rightarrow> (vtep \<Rightarrow> network \<Rightarrow> vtep res) \<Rightarrow> string \<Rightarrow> vtep \<Rightarrow> string list \<Rightarrow>
   (vtep \<times> string list) res" where
  "recover_vtep lib f reserve s v reserved =
     (if s \<in> set reserved then Ok (v, reserved)
      else
        bind_res (network_parse lib f s) (\<lambda>n.
        bind_res (reserve v n) (\<lambda>v'. Ok (v', s # reserved))))"

definition recover_overlay ::
  "stout \<Rightarrow> agent_overlay_info \<Rightarrow> (string \<times> overlay) list \<times> vtep \<times> string list \<times> string list \<Rightarrow>
   ((string \<times> overlay) list \<times> vtep \<times> string list \<times> string list) res" where
  "recover_overlay lib ao = (\<lambda>(ovs, v, r4, r6).
     bind_res (recover_subnet lib AF_INET (ovl_reserve lib) (ao_name ao) (ao_subnet ao) ovs) (\<lambda>ovs1.
     bind_res (recover_subnet lib AF_INET6 (ovl_reserve6 lib) (ao_name ao) (ao_subnet6 ao) ovs1) (\<lambda>ovs2.
     bind_res (recover_vtep lib AF_INET (vtep_reserve lib) (vx_vtep_ip (vxlan_of (ao_backend ao))) v r4)
       (\<lambda>(v1, r4').
     bind_res (case vx_vtep_ip6 (vxlan_of (ao_backend ao)) of
         None \<Rightarrow> Ok (v1, r6)
       | Some s6 \<Rightarrow> recover_vtep lib AF_INET6 (vtep_reserve6 lib) s6 v1 r6) (\<lambda>(v2, r6').
       Ok (ovs2, v2, r4', r6'))))))"

fun recover_overlays ::
  "stout \<Rightarrow> agent_overlay_info list \<Rightarrow>
   (string \<times> overlay) list \<times> vtep \<times> string list \<times> string list \<Rightarrow>
   ((string \<times> overlay) list \<times> vtep \<times> string list \<times> string list) res" where
  "recover_overlays lib [] s = Ok s"
| "recover_overlays lib (ao # aos) s = bind_res (recover_overlay lib ao s) (recover_overlays lib aos)"

fun recover_agents ::
  "stout \<Rightarrow> agent_info list \<Rightarrow> (string \<times> overlay) list \<Rightarrow> vtep \<Rightarrow> agent_db \<Rightarrow>
   ((string \<times> overlay) list \<times> vtep \<times> agent_db) res" where
  "recover_agents lib [] ovs v agents = Ok (ovs, v, agents)"
| "recover_agents lib (info # infos) ovs v agents =
     bind_res (agent_create lib info) (\<lambda>a.
       let agents1 = (if agents (ag_ip a) = None then agents(ag_ip a \<mapsto> a) else agents) in
       bind_res (recover_overlays lib (ai_overlays info) (ovs, v, [], [])) (\<lambda>(ovs1, v1, _, _).
         recover_agents lib infos ovs1 v1 agents1))"

datatype fetch_result = Fetch_Failed | Fetched net_state

definition clear_info :: "agent_info \<Rightarrow> agent_info" where
  "clear_info info = info\<lparr>ai_overlays := map clear_state (ai_overlays info)\<rparr>"

definition recovery_done ::
  "net_state \<Rightarrow> (string \<times> overlay) list \<Rightarrow> vtep \<Rightarrow> agent_db \<Rightarrow> manager \<Rightarrow> manager" where
  \<comment> \<open>the current configuration is kept\<close>
  "recovery_done st ovs v agents m =
     count (\<lambda>mm. mm\<lparr>mm_recovering := 0\<rparr>)
       (m\<lparr>mg_overlays := ovs, mg_vtep := v, mg_agents := agents,
          mg_state := \<lparr>ns_network = ns_network (mg_state m),
            ns_agents = map clear_info (ns_agents st)\<rparr>,
          mg_stored := Some st, mg_recovering := False\<rparr>)"

definition recovered :: "stout \<Rightarrow> fetch_result \<Rightarrow> manager \<Rightarrow> handled" where
  \<comment> \<open>\<open>_recover\<close>; without a stored network the process stays marked as recovering\<close>
  "recovered lib r m =
     (if mg_log m = None then Crash Check_Failed
      else
        (case r of
           Fetch_Failed \<Rightarrow> Ok (demote m, [])
         | Fetched st \<Rightarrow>
             if ns_network st = None then Ok (m\<lparr>mg_stored := Some st\<rparr>, [])
             else
               (case recover_agents lib (ns_agents st) (mg_overlays m) (mg_vtep m) (mg_agents m) of
                  Crash c \<Rightarrow> Crash c
                | Error _ \<Rightarrow> Ok (demote m, [])
                | Ok (ovs, v, agents) \<Rightarrow>
                    Ok (recovery_done st ovs v agents m, []))))"

section \<open>Registration\<close>

definition register_reply :: "upid \<Rightarrow> ip \<Rightarrow> outcome \<Rightarrow> manager \<Rightarrow> handled" where
  \<comment> \<open>\<open>_registerAgent\<close>\<close>
  "register_reply pid aip r m =
     (case r of
        Failure \<Rightarrow> Ok (count register_dropped m, [])
      | Ready _ \<Rightarrow>
          (case mg_agents m aip of
             None \<Rightarrow> Crash Check_Failed
           | Some a \<Rightarrow>
               Ok (count (\<lambda>mm. mm\<lparr>mm_updates_sent := mm_updates_sent mm + 1\<rparr>) m,
                   [Send_Update pid (map clear_state (getOverlays a))])))"

definition reregister_overlays ::
  "stout \<Rightarrow> upid \<Rightarrow> ip \<Rightarrow> agent \<Rightarrow> agent_network_config \<Rightarrow> manager \<Rightarrow> handled" where
  "reregister_overlays lib pid aip a cfg m =
     bind_res (addOverlays lib cfg (mg_overlays m) a (mg_metrics m)) (\<lambda>(ovs, a', mm, mutated).
       let m1 = m\<lparr>mg_overlays := ovs, mg_agents := (mg_agents m)(aip \<mapsto> a'), mg_metrics := mm\<rparr> in
       if mutated then update_op lib (ModifyAgent (getAgentInfo lib a')) (W_Register pid aip) m1
       else if list_ex (\<lambda>x. ai_ip x = show_ip lib aip) (ns_agents (mg_state m1))
       then register_reply pid aip (Ready True) m1
       else Ok (count register_dropped m1, []))"

definition reregister ::
  "stout \<Rightarrow> upid \<Rightarrow> ip \<Rightarrow> agent \<Rightarrow> agent_network_config \<Rightarrow> manager \<Rightarrow> handled" where
  "reregister lib pid aip a cfg m =
     bind_res (getBackendInfo a) (\<lambda>be.
       if vt_network6 (mg_vtep m) \<noteq> None \<and> vx_vtep_ip6 (vxlan_of be) = None then
         (case allocateIP6 lib (mg_vtep m) of
            Crash c \<Rightarrow> Crash c
          | Error _ \<Rightarrow> Ok (count ip6_failed (count register_dropped m), [])
          | Ok (n6, v) \<Rightarrow>
              (let be' = be\<lparr>be_vxlan := Some ((vxlan_of be)\<lparr>vx_vtep_ip6 := Some (show_net lib n6)\<rparr>)\<rparr>
               in reregister_overlays lib pid aip (setBackendInfo (Some be') a) cfg (m\<lparr>mg_vtep := v\<rparr>)))
       else reregister_overlays lib pid aip a cfg m)"

definition new_vxlan :: "stout \<Rightarrow> vtep \<Rightarrow> network \<Rightarrow> byte list \<Rightarrow> network option \<Rightarrow> vxlan_info" where
  "new_vxlan lib v n4 mac n6 =
     \<lparr>vx_vni = 1024, vx_vtep_name = ''vtep1024'', vx_vtep_ip = show_net lib n4,
      vx_vtep_mac = show_mac lib mac, vx_vtep_ip6 = map_option (show_net lib) n6,
      vx_vtep_mtu = map_option ucast (vt_mtu v)\<rparr>"

definition install_agent ::
  "stout \<Rightarrow> upid \<Rightarrow> ip \<Rightarrow> backend_info \<Rightarrow> agent_network_config \<Rightarrow> manager \<Rightarrow> handled" where
  \<comment> \<open>the record of a new agent is created, filled and queued for the log\<close>
  "install_agent lib pid aip be cfg m =
     bind_res (addOverlays lib cfg (mg_overlays m) \<lparr>ag_backend = Some be, ag_overlays = [], ag_ip = aip\<rparr>
        (mg_metrics m)) (\<lambda>(ovs, a, mm, _).
       update_op lib (AddAgent (getAgentInfo lib a)) (W_Register pid aip)
         (m\<lparr>mg_overlays := ovs, mg_agents := (mg_agents m)(aip \<mapsto> a), mg_metrics := mm\<rparr>))"

definition take_vtep6 :: "stout \<Rightarrow> vtep \<Rightarrow> (network option \<times> vtep) res" where
  "take_vtep6 lib v =
     (if vt_network6 v = None then Ok (None, v)
      else bind_res (allocateIP6 lib v) (\<lambda>(n, v'). Ok (Some n, v')))"

definition register_new :: "stout \<Rightarrow> upid \<Rightarrow> ip \<Rightarrow> agent_network_config \<Rightarrow> manager \<Rightarrow> handled" where
  "register_new lib pid aip cfg m =
     (case allocateIP lib (mg_vtep m) of
        Crash c \<Rightarrow> Crash c
      | Error _ \<Rightarrow> Ok (count ip_failed (count register_dropped m), [])
      | Ok (n4, v1) \<Rightarrow>
          (case take_vtep6 lib v1 of
             Crash c \<Rightarrow> Crash c
           | Error _ \<Rightarrow> Ok (count ip6_failed (count register_dropped (m\<lparr>mg_vtep := v1\<rparr>)), [])
           | Ok (n6, v2) \<Rightarrow>
               (case bind_res (ip_convert (naddr n4)) (generateMAC v2) of
                  Crash c \<Rightarrow> Crash c
                | Error _ \<Rightarrow> Ok (count register_dropped (m\<lparr>mg_vtep := v2\<rparr>), [])
                | Ok mac \<Rightarrow>
                    install_agent lib pid aip \<lparr>be_vxlan = Some (new_vxlan lib v2 n4 mac n6)\<rparr> cfg
                      (m\<lparr>mg_vtep := v2\<rparr>))))"

definition registerAgent :: "stout \<Rightarrow> upid \<Rightarrow> agent_network_config \<Rightarrow> manager \<Rightarrow> handled" where
  "registerAgent lib pid cfg m0 =
     (let m = count (\<lambda>mm. mm\<lparr>mm_register_received := mm_register_received mm + 1\<rparr>) m0 in
      if mg_log m \<noteq> None \<and> mg_stored m = None then
        (if \<not> mg_recovering m then recover (count register_dropped m)
         else Ok (count register_dropped m, []))
      else
        bind_res (ip_convert (up_ip pid)) (\<lambda>aip.
          case mg_agents m aip of
            Some a \<Rightarrow> reregister lib pid aip a cfg m
          | None \<Rightarrow> register_new lib pid aip cfg m))"

fun update_states :: "agent_overlay_info list \<Rightarrow> agent \<Rightarrow> agent res" where
  "update_states [] a = Ok a"
| "update_states (ao # aos) a = bind_res (updateOverlayState ao a) (update_states aos)"

definition registered_dropped :: "master_metrics \<Rightarrow> master_metrics" where
  "registered_dropped mm = mm\<lparr>mm_registered_dropped := mm_registered_dropped mm + 1\<rparr>"

definition agentRegistered :: "stout \<Rightarrow> upid \<Rightarrow> agent_overlay_info list \<Rightarrow> manager \<Rightarrow> handled" where
  "agentRegistered lib from aos m0 =
     (let m = count (\<lambda>mm. mm\<lparr>mm_registered_received := mm_registered_received mm + 1\<rparr>) m0 in
      bind_res (ip_convert (up_ip from)) (\<lambda>aip.
        case mg_agents m aip of
          None \<Rightarrow> Ok (count registered_dropped m, [])
        | Some a \<Rightarrow>
            bind_res (update_states aos a) (\<lambda>a'.
              let m1 = m\<lparr>mg_agents := (mg_agents m)(aip \<mapsto> a')\<rparr> in
              (case modify_first (show_ip lib aip) (getAgentInfo lib a') (ns_agents (mg_state m1)) of
                 Some infos \<Rightarrow>
                   Ok (count (\<lambda>mm. mm\<lparr>mm_acks_sent := mm_acks_sent mm + 1\<rparr>)
                         (m1\<lparr>mg_state := (mg_state m1)\<lparr>ns_agents := infos\<rparr>\<rparr>), [Send_Ack from])
               | None \<Rightarrow> Ok (count registered_dropped m1, [])))))"

section \<open>Deletion\<close>

text \<open>
  \<open>deleteAgents\<close> gives back what an agent holds and forgets the agent. An error stops the loop;
  its caller then fails a \<open>CHECK\<close>, so the state it leaves is not observed.
\<close>

definition release_subnet ::
  "stout \<Rightarrow> family \<Rightarrow> (overlay \<Rightarrow> network \<Rightarrow> overlay res) \<Rightarrow> string \<Rightarrow> string option \<Rightarrow>
   (string \<times> overlay) list \<Rightarrow> (string \<times> overlay) list res" where
  "release_subnet lib f free name subnet ovs =
     (case subnet of
        None \<Rightarrow> Ok ovs
      | Some s \<Rightarrow>
          bind_res (network_parse lib f s) (\<lambda>n.
          bind_res (hm_at ovs name) (\<lambda>ov.
          bind_res (free ov n) (\<lambda>ov'. Ok (hm_update ovs name ov')))))"

definition add_key :: "string \<Rightarrow> string list \<Rightarrow> string list" where
  "add_key s ss = (if s \<in> set ss then ss else ss @ [s])"

definition delete_overlay ::
  "stout \<Rightarrow> agent_overlay_info \<Rightarrow> (string \<times> overlay) list \<times> string list \<times> string list \<Rightarrow>
   ((string \<times> overlay) list \<times> string list \<times> string list) res" where
  "delete_overlay lib ao = (\<lambda>(ovs, ips, ip6s).
     bind_res (hm_at ovs (ao_name ao)) (\<lambda>_.
     bind_res (release_subnet lib AF_INET (ovl_free lib) (ao_name ao) (ao_subnet ao) ovs) (\<lambda>ovs1.
     bind_res (release_subnet lib AF_INET6 (ovl_free6 lib) (ao_name ao) (ao_subnet6 ao) ovs1) (\<lambda>ovs2.
       Ok (ovs2,
           (case be_vxlan (ao_backend ao) of
              None \<Rightarrow> ips | Some vx \<Rightarrow> add_key (vx_vtep_ip vx) ips),
           (case Option.bind (be_vxlan (ao_backend ao)) vx_vtep_ip6 of
              None \<Rightarrow> ip6s | Some s6 \<Rightarrow> add_key s6 ip6s))))))"

fun delete_overlays ::
  "stout \<Rightarrow> agent_overlay_info list \<Rightarrow> (string \<times> overlay) list \<times> string list \<times> string list \<Rightarrow>
   ((string \<times> overlay) list \<times> string list \<times> string list) res" where
  "delete_overlays lib [] s = Ok s"
| "delete_overlays lib (ao # aos) s = bind_res (delete_overlay lib ao s) (delete_overlays lib aos)"

fun release_vteps ::
  "stout \<Rightarrow> family \<Rightarrow> (vtep \<Rightarrow> network \<Rightarrow> vtep res) \<Rightarrow> string list \<Rightarrow> vtep \<Rightarrow> vtep res" where
  "release_vteps lib f dealloc [] v = Ok v"
| "release_vteps lib f dealloc (s # ss) v =
     bind_res (network_parse lib f s) (\<lambda>n.
     bind_res (dealloc v n) (release_vteps lib f dealloc ss))"

definition delete_agent ::
  "stout \<Rightarrow> agent \<Rightarrow> (string \<times> overlay) list \<Rightarrow> vtep \<Rightarrow> ((string \<times> overlay) list \<times> vtep) res" where
  "delete_agent lib a ovs v =
     bind_res (delete_overlays lib (getOverlays a) (ovs, [], [])) (\<lambda>(ovs', ips, ip6s).
     bind_res (release_vteps lib AF_INET (deallocateIP lib) ips v) (\<lambda>v1.
     bind_res (release_vteps lib AF_INET6 (deallocateIP6 lib) ip6s v1) (\<lambda>v2.
       Ok (ovs', v2))))"

fun deleteAgents :: "stout \<Rightarrow> ip list \<Rightarrow> manager \<Rightarrow> manager res" where
  "deleteAgents lib [] m = Ok m"
| "deleteAgents lib (ip # ips) m =
     (case mg_agents m ip of
        None \<Rightarrow> deleteAgents lib ips m
      | Some a \<Rightarrow>
          bind_res (delete_agent lib a (mg_overlays m) (mg_vtep m)) (\<lambda>(ovs, v).
            deleteAgents lib ips
              (m\<lparr>mg_overlays := ovs, mg_vtep := v, mg_agents := (mg_agents m)(ip := None)\<rparr>)))"

fun parse_ips :: "stout \<Rightarrow> string list \<Rightarrow> ip list res" where
  "parse_ips lib [] = Ok []"
| "parse_ips lib (s # ss) =
     bind_res (ovl_ip_parse lib AF_INET s) (\<lambda>ip. bind_res (parse_ips lib ss) (\<lambda>ips.
       Ok (if ip \<in> set ips then ips else ip # ips)))"

definition delete_reply :: "stout \<Rightarrow> string list \<Rightarrow> outcome \<Rightarrow> manager \<Rightarrow> handled" where
  \<comment> \<open>\<open>_deleteAgentsEndpoint\<close>\<close>
  "delete_reply lib strs r m =
     (case r of
        Failure \<Rightarrow> Ok (m, [Pipe_Failed])
      | Ready _ \<Rightarrow>
          (case parse_ips lib strs of
             Ok ips \<Rightarrow>
               (case deleteAgents lib ips m of
                  Ok m' \<Rightarrow> Ok (m', [Pipe_Json (mg_state m')])
                | Error _ \<Rightarrow> Crash Check_Failed
                | Crash c \<Rightarrow> Crash c)
           | Error _ \<Rightarrow> Crash Option_None
           | Crash c \<Rightarrow> Crash c))"

text \<open>
  A request as the JSON library presents it: the values of the array \<open>agents\<close> of the body, each
  the string it is or \<open>None\<close>; \<open>None\<close> for a body without such an array.
\<close>

record delete_request =
  dr_method :: string
  dr_agents :: "string option list option"

fun request_ips :: "stout \<Rightarrow> string option list \<Rightarrow> string list option" where
  "request_ips lib [] = Some []"
| "request_ips lib (None # vs) = None"
| "request_ips lib (Some s # vs) =
     (if is_ok (ovl_ip_parse lib AF_INET s) then
        (case request_ips lib vs of
           None \<Rightarrow> None
         | Some ss \<Rightarrow> Some (if s \<in> set ss then ss else s # ss))
      else None)"

definition deleteAgentsEndpoint :: "stout \<Rightarrow> delete_request \<Rightarrow> manager \<Rightarrow> handled" where
  "deleteAgentsEndpoint lib req m =
     (if dr_method req \<noteq> ''POST'' then Ok (m, [Http Method_Not_Allowed])
      else if mg_log m \<noteq> None \<and> mg_stored m = None then Ok (m, [Http Service_Unavailable])
      else
        (case dr_agents req of
           None \<Rightarrow> Ok (m, [Http Bad_Request])
         | Some vs \<Rightarrow>
             (case request_ips lib vs of
                None \<Rightarrow> Ok (m, [Http Bad_Request])
              | Some ips \<Rightarrow>
                  bind_res (update_op lib (DeleteAgents ips) (W_Delete ips) m) (\<lambda>(m', acts).
                    Ok (m', acts @ [Http Pipe_Opened])))))"

definition stateEndpoint :: "manager \<Rightarrow> handled" where
  "stateEndpoint m = Ok (m, [Http (State_Json (mg_state m))])"

section \<open>The process\<close>

text \<open>\<open>E_Due\<close> runs the first callback dispatched to the process.\<close>

datatype event =
    E_Register upid agent_network_config
  | E_Registered upid "agent_overlay_info list"
  | E_Fetched fetch_result
  | E_Stored store_result
  | E_Due
  | E_Delete delete_request
  | E_State

fun run_waiter :: "stout \<Rightarrow> waiter \<Rightarrow> outcome \<Rightarrow> manager \<Rightarrow> handled" where
  "run_waiter lib (W_Register pid aip) r m = register_reply pid aip r m"
| "run_waiter lib (W_Delete strs) r m = delete_reply lib strs r m"

fun handle :: "stout \<Rightarrow> event \<Rightarrow> manager \<Rightarrow> handled" where
  "handle lib (E_Register pid cfg) m = registerAgent lib pid cfg m"
| "handle lib (E_Registered pid aos) m = agentRegistered lib pid aos m"
| "handle lib (E_Fetched r) m = recovered lib r m"
| "handle lib (E_Stored r) m = store_done lib r m"
| "handle lib E_Due m =
     (case mg_due m of
        [] \<Rightarrow> Ok (m, [])
      | (w, r) # due \<Rightarrow> run_waiter lib w r (m\<lparr>mg_due := due\<rparr>))"
| "handle lib (E_Delete req) m = deleteAgentsEndpoint lib req m"
| "handle lib E_State m = stateEndpoint m"

text \<open>Which events can occur: a fetch or a write must be under way, a callback must be due.\<close>

fun enabled :: "event \<Rightarrow> manager \<Rightarrow> bool" where
  "enabled (E_Fetched r) m \<longleftrightarrow> mg_recovering m \<and> mg_stored m = None"
| "enabled (E_Stored r) m \<longleftrightarrow> mg_inflight m \<noteq> None"
| "enabled E_Due m \<longleftrightarrow> mg_due m \<noteq> []"
| "enabled e m \<longleftrightarrow> True"

inductive step :: "stout \<Rightarrow> manager \<Rightarrow> event \<Rightarrow> action list \<Rightarrow> manager \<Rightarrow> bool" for lib where
  step: "\<not> mg_terminated m \<Longrightarrow> enabled e m \<Longrightarrow> handle lib e m = Ok (m', acts) \<Longrightarrow> step lib m e acts m'"

inductive_cases stepE: "step lib m e acts m'"

text \<open>Runs of a process, with the events and the actions in order.\<close>

inductive run :: "stout \<Rightarrow> manager \<Rightarrow> (event \<times> action list) list \<Rightarrow> manager \<Rightarrow> bool" for lib where
  run_Nil: "run lib m [] m"
| run_Step: "run lib m0 tr m \<Longrightarrow> step lib m e acts m' \<Longrightarrow> run lib m0 (tr @ [(e, acts)]) m'"

end
