(* ===== verification/MasterInvariant.thy ===== *)
theory MasterInvariant
  imports MasterProcess
begin

text \<open>
  The invariant of the master process: what the agents in the database hold and what the pools
  call free never overlap, and no two agents hold the same VTEP address or the same subnet of an
  overlay. Every handler preserves it, so it holds in every reachable state, also after a
  recovery from a state that another master wrote to the log.
\<close>

section \<open>Who holds what\<close>

definition vtep_str :: "backend_info \<Rightarrow> string" where
  "vtep_str be = vx_vtep_ip (vxlan_of be)"

definition agent_subnet :: "stout \<Rightarrow> agent \<Rightarrow> string \<Rightarrow> network \<Rightarrow> bool" where
  "agent_subnet lib a k n \<longleftrightarrow>
     (\<exists>ao s. map_of (ag_overlays a) k = Some ao \<and> ao_subnet ao = Some s \<and>
        network_parse lib AF_INET s = Ok n)"

definition agent_vtep :: "stout \<Rightarrow> agent \<Rightarrow> ip \<Rightarrow> bool" where
  "agent_vtep lib a x \<longleftrightarrow>
     (\<exists>be n. ag_backend a = Some be \<and> network_parse lib AF_INET (vtep_str be) = Ok n \<and> naddr n = x)"

definition holds_subnet :: "stout \<Rightarrow> agent_db \<Rightarrow> ip \<Rightarrow> string \<Rightarrow> network \<Rightarrow> bool" where
  "holds_subnet lib agents ip k n \<longleftrightarrow> (\<exists>a. agents ip = Some a \<and> agent_subnet lib a k n)"

definition holds_vtep :: "stout \<Rightarrow> agent_db \<Rightarrow> ip \<Rightarrow> ip \<Rightarrow> bool" where
  "holds_vtep lib agents ip x \<longleftrightarrow> (\<exists>a. agents ip = Some a \<and> agent_vtep lib a x)"

lemma holds_update [simp]:
  "holds_subnet lib (agents(ip \<mapsto> a)) ip' k n \<longleftrightarrow>
     (if ip' = ip then agent_subnet lib a k n else holds_subnet lib agents ip' k n)"
  "holds_vtep lib (agents(ip \<mapsto> a)) ip' x \<longleftrightarrow>
     (if ip' = ip then agent_vtep lib a x else holds_vtep lib agents ip' x)"
  by (auto simp: holds_subnet_def holds_vtep_def)

lemma holds_delete [simp]:
  "holds_subnet lib (agents(ip := None)) ip' k n \<longleftrightarrow> ip' \<noteq> ip \<and> holds_subnet lib agents ip' k n"
  "holds_vtep lib (agents(ip := None)) ip' x \<longleftrightarrow> ip' \<noteq> ip \<and> holds_vtep lib agents ip' x"
  by (auto simp: holds_subnet_def holds_vtep_def)

text \<open>The records themselves: entries under their name, one VTEP address for all of them.\<close>

definition agent_wf :: "stout \<Rightarrow> ip \<Rightarrow> agent \<Rightarrow> bool" where
  "agent_wf lib ip a \<longleftrightarrow>
     ag_ip a = ip \<and> distinct (hm_keys (ag_overlays a)) \<and>
     (\<forall>be. ag_backend a = Some be \<longrightarrow> is_ok (network_parse lib AF_INET (vtep_str be))) \<and>
     (\<forall>(k, ao) \<in> set (ag_overlays a). ao_name ao = k \<and>
        (\<exists>be. ag_backend a = Some be \<and> vtep_str (ao_backend ao) = vtep_str be) \<and>
        (\<forall>s. ao_subnet ao = Some s \<longrightarrow> is_ok (network_parse lib AF_INET s)))"

definition pools_inv :: "stout \<Rightarrow> (string \<times> overlay) list \<Rightarrow> vtep \<Rightarrow> agent_db \<Rightarrow> bool" where
  "pools_inv lib ovs v agents \<longleftrightarrow>
     vtep_inv v \<and> distinct (hm_keys ovs) \<and> (\<forall>(k, ov) \<in> set ovs. ovl_inv ov) \<and>
     (\<forall>ip a. agents ip = Some a \<longrightarrow> agent_wf lib ip a) \<and>
     (\<forall>ip k n. holds_subnet lib agents ip k n \<longrightarrow>
        (\<exists>ov. map_of ovs k = Some ov \<and> n \<in> ovl_univ ov \<and> n \<notin> ovl_free_set ov)) \<and>
     (\<forall>ip ip' k n. holds_subnet lib agents ip k n \<longrightarrow> holds_subnet lib agents ip' k n \<longrightarrow> ip = ip') \<and>
     (\<forall>ip x. holds_vtep lib agents ip x \<longrightarrow>
        x \<in> vtep_hosts (vt_network v) \<and> x \<notin> covers (vt_freeIP v)) \<and>
     (\<forall>ip ip' x. holds_vtep lib agents ip x \<longrightarrow> holds_vtep lib agents ip' x \<longrightarrow> ip = ip')"

lemma pools_invI:
  assumes "vtep_inv v" "distinct (hm_keys ovs)" "\<And>k ov. (k, ov) \<in> set ovs \<Longrightarrow> ovl_inv ov"
    "\<And>ip a. agents ip = Some a \<Longrightarrow> agent_wf lib ip a"
    "\<And>ip k n. holds_subnet lib agents ip k n \<Longrightarrow>
       \<exists>ov. map_of ovs k = Some ov \<and> n \<in> ovl_univ ov \<and> n \<notin> ovl_free_set ov"
    "\<And>ip ip' k n. holds_subnet lib agents ip k n \<Longrightarrow> holds_subnet lib agents ip' k n \<Longrightarrow> ip = ip'"
    "\<And>ip x. holds_vtep lib agents ip x \<Longrightarrow> x \<in> vtep_hosts (vt_network v) \<and> x \<notin> covers (vt_freeIP v)"
    "\<And>ip ip' x. holds_vtep lib agents ip x \<Longrightarrow> holds_vtep lib agents ip' x \<Longrightarrow> ip = ip'"
  shows "pools_inv lib ovs v agents"
  unfolding pools_inv_def using assms by blast

lemma pools_invD:
  assumes "pools_inv lib ovs v agents"
  shows "vtep_inv v" "distinct (hm_keys ovs)" "\<forall>(k, ov) \<in> set ovs. ovl_inv ov"
    "\<And>ip a. agents ip = Some a \<Longrightarrow> agent_wf lib ip a"
    "\<And>ip k n. holds_subnet lib agents ip k n \<Longrightarrow>
       \<exists>ov. map_of ovs k = Some ov \<and> n \<in> ovl_univ ov \<and> n \<notin> ovl_free_set ov"
    "\<And>ip ip' k n. holds_subnet lib agents ip k n \<Longrightarrow> holds_subnet lib agents ip' k n \<Longrightarrow> ip = ip'"
    "\<And>ip x. holds_vtep lib agents ip x \<Longrightarrow> x \<in> vtep_hosts (vt_network v) \<and> x \<notin> covers (vt_freeIP v)"
    "\<And>ip ip' x. holds_vtep lib agents ip x \<Longrightarrow> holds_vtep lib agents ip' x \<Longrightarrow> ip = ip'"
  using assms unfolding pools_inv_def by blast+

lemma map_of_ovl_inv: "\<forall>(k, ov) \<in> set ovs. ovl_inv ov \<Longrightarrow> map_of ovs k = Some ov \<Longrightarrow> ovl_inv ov"
  using map_of_SomeD by fastforce

text \<open>The pools may lose free elements, and the IPv6 half of the VTEP pool does not matter.\<close>

definition vtep_step :: "vtep \<Rightarrow> vtep \<Rightarrow> bool" where
  "vtep_step v v' \<longleftrightarrow>
     vt_network v' = vt_network v \<and> (vtep_inv v \<longrightarrow> vtep_inv v') \<and>
     covers (vt_freeIP v') \<subseteq> covers (vt_freeIP v)"

lemma vtep_step_refl [simp]: "vtep_step v v"
  by (simp add: vtep_step_def)

lemma vtep_step_trans: "vtep_step u v \<Longrightarrow> vtep_step v w \<Longrightarrow> vtep_step u w"
  by (auto simp: vtep_step_def)

lemma vtep_step6 [simp]: "vtep_step v (v\<lparr>vt_freeIP6 := s\<rparr>)"
  by (simp add: vtep_step_def vtep_inv_def)

lemma allocateIP6_frame: "allocateIP6 lib v = Ok (n, v') \<Longrightarrow> \<exists>s. v' = v\<lparr>vt_freeIP6 := s\<rparr>"
  by (auto simp: allocateIP6_def Let_def res_simps split: if_splits)

lemma deallocateIP6_frame: "deallocateIP6 lib v n = Ok v' \<Longrightarrow> \<exists>s. v' = v\<lparr>vt_freeIP6 := s\<rparr>"
  by (auto simp: deallocateIP6_def res_simps split: if_splits)

lemma reserve6_frame: "vtep_reserve6 lib v n = Ok v' \<Longrightarrow> \<exists>s. v' = v\<lparr>vt_freeIP6 := s\<rparr>"
  by (auto simp: vtep_reserve6_def split: ip.splits if_splits)

lemma pools_inv_step:
  assumes "pools_inv lib ovs v agents" "pools_step ovs ovs'" "vtep_step v v'"
  shows "pools_inv lib ovs' v' agents"
proof (rule pools_invI)
  note inv = pools_invD [OF assms(1)]
  show "vtep_inv v'" using inv(1) assms(3) by (simp add: vtep_step_def)
  show "distinct (hm_keys ovs')" using inv(2) pools_step_keys [OF assms(2)] by simp
  show "ovl_inv ov'" if "(k, ov') \<in> set ovs'" for k ov'
  proof -
    have "map_of ovs' k = Some ov'"
      using that inv(2) pools_step_keys [OF assms(2)] by (simp add: hm_keys_def)
    from pools_step_map' [OF assms(2) this] obtain ov where "map_of ovs k = Some ov" "ovl_step ov ov'"
      by blast
    with map_of_ovl_inv [OF inv(3)] show ?thesis by (auto simp: ovl_step_def)
  qed
  show "\<exists>ov'. map_of ovs' k = Some ov' \<and> n \<in> ovl_univ ov' \<and> n \<notin> ovl_free_set ov'"
    if h: "holds_subnet lib agents ip k n" for ip k n
  proof -
    from inv(5) [OF h] obtain ov where
      ov: "map_of ovs k = Some ov" "n \<in> ovl_univ ov" "n \<notin> ovl_free_set ov" by blast
    from pools_step_map [OF assms(2) ov(1)] obtain ov' where
      "map_of ovs' k = Some ov'" "ovl_step ov ov'" by blast
    with ov show ?thesis by (auto simp: ovl_step_def)
  qed
  show "x \<in> vtep_hosts (vt_network v') \<and> x \<notin> covers (vt_freeIP v')"
    if "holds_vtep lib agents ip x" for ip x
    using inv(7) [OF that] assms(3) by (auto simp: vtep_step_def)
qed (use pools_invD [OF assms(1)] in blast)+

text \<open>Replacing the record of one agent.\<close>

lemma pools_inv_agent:
  assumes "pools_inv lib ovs v agents" "agent_wf lib ip a"
    "\<And>k n. agent_subnet lib a k n \<Longrightarrow>
       (\<exists>ov. map_of ovs k = Some ov \<and> n \<in> ovl_univ ov \<and> n \<notin> ovl_free_set ov) \<and>
       (\<forall>ip'. ip' \<noteq> ip \<longrightarrow> \<not> holds_subnet lib agents ip' k n)"
    "\<And>x. agent_vtep lib a x \<Longrightarrow> x \<in> vtep_hosts (vt_network v) \<and> x \<notin> covers (vt_freeIP v) \<and>
       (\<forall>ip'. ip' \<noteq> ip \<longrightarrow> \<not> holds_vtep lib agents ip' x)"
  shows "pools_inv lib ovs v (agents(ip \<mapsto> a))"
proof (rule pools_invI)
  note inv = pools_invD [OF assms(1)]
  show "vtep_inv v" "distinct (hm_keys ovs)" by (rule inv(1), rule inv(2))
  show "ovl_inv ov" if "(k, ov) \<in> set ovs" for k ov using inv(3) that by auto
  show "agent_wf lib ip' a'" if "(agents(ip \<mapsto> a)) ip' = Some a'" for ip' a'
    using that inv(4) assms(2) by (auto split: if_splits)
  show "\<exists>ov. map_of ovs k = Some ov \<and> n \<in> ovl_univ ov \<and> n \<notin> ovl_free_set ov"
    if "holds_subnet lib (agents(ip \<mapsto> a)) ip' k n" for ip' k n
    using that inv(5) [of ip' k n] assms(3) [of k n] by (auto split: if_splits)
  show "ip1 = ip2"
    if "holds_subnet lib (agents(ip \<mapsto> a)) ip1 k n" "holds_subnet lib (agents(ip \<mapsto> a)) ip2 k n"
    for ip1 ip2 k n
    using that inv(6) [of ip1 k n ip2] assms(3) [of k n] by (auto split: if_splits)
  show "x \<in> vtep_hosts (vt_network v) \<and> x \<notin> covers (vt_freeIP v)"
    if "holds_vtep lib (agents(ip \<mapsto> a)) ip' x" for ip' x
    using that inv(7) [of ip' x] assms(4) [of x] by (auto split: if_splits)
  show "ip1 = ip2"
    if "holds_vtep lib (agents(ip \<mapsto> a)) ip1 x" "holds_vtep lib (agents(ip \<mapsto> a)) ip2 x" for ip1 ip2 x
    using that inv(8) [of ip1 x ip2] assms(4) [of x] by (auto split: if_splits)
qed

lemma pools_inv_same_agent:
  assumes "pools_inv lib ovs v agents" "agents ip = Some a" "agent_wf lib ip a'"
    "\<And>k n. agent_subnet lib a' k n \<Longrightarrow> agent_subnet lib a k n"
    "\<And>x. agent_vtep lib a' x \<Longrightarrow> agent_vtep lib a x"
  shows "pools_inv lib ovs v (agents(ip \<mapsto> a'))"
proof (rule pools_inv_agent [OF assms(1,3)])
  note inv = pools_invD [OF assms(1)]
  fix k n assume "agent_subnet lib a' k n"
  with assms(2,4) have "holds_subnet lib agents ip k n" by (auto simp: holds_subnet_def)
  with inv(5,6) show "(\<exists>ov. map_of ovs k = Some ov \<and> n \<in> ovl_univ ov \<and> n \<notin> ovl_free_set ov) \<and>
       (\<forall>ip'. ip' \<noteq> ip \<longrightarrow> \<not> holds_subnet lib agents ip' k n)" by blast
next
  note inv = pools_invD [OF assms(1)]
  fix x assume "agent_vtep lib a' x"
  with assms(2,5) have "holds_vtep lib agents ip x" by (auto simp: holds_vtep_def)
  with inv(7,8) show "x \<in> vtep_hosts (vt_network v) \<and> x \<notin> covers (vt_freeIP v) \<and>
       (\<forall>ip'. ip' \<noteq> ip \<longrightarrow> \<not> holds_vtep lib agents ip' x)" by blast
qed

lemma agent_wf_entry:
  assumes "agent_wf lib ip a" "map_of (ag_overlays a) k = Some ao"
  shows "ao_name ao = k" "\<exists>be. ag_backend a = Some be \<and> vtep_str (ao_backend ao) = vtep_str be"
    "ao_subnet ao = Some s \<Longrightarrow> is_ok (network_parse lib AF_INET s)"
  using assms map_of_SomeD [OF assms(2)] by (auto simp: agent_wf_def)

context stout_lib
begin

lemma univ_parse:
  assumes "ovl_inv ov" "n \<in> ovl_univ ov"
  shows "network_parse lib AF_INET (show_net lib n) = Ok n"
proof -
  from ovl_univE [OF assms] obtain a q p c where
    "pool4 a q p (ov_freeNetworks ov)" "n = Net (V4 c) p" .
  then show ?thesis by (simp add: pool4_def fits_def)
qed

lemma gained_subnet:
  assumes "ovl_inv ov" "gained lib be k ov ov' ao" "ao_subnet ao = Some s"
  obtains n where "network_parse lib AF_INET s = Ok n" "n \<in> ovl_univ ov" "n \<in> ovl_free_set ov"
    "n \<notin> ovl_free_set ov'"
proof -
  from assms(2,3) obtain n where n: "s = show_net lib n" "n \<in> ovl_free_set ov" "n \<notin> ovl_free_set ov'"
    by (auto simp: gained_def)
  with ovl_free_subset [OF assms(1)] have u: "n \<in> ovl_univ ov" by blast
  from univ_parse [OF assms(1) u] n u that show thesis by simp
qed

lemma agent_wf_append:
  assumes wf: "agent_wf lib ip a" and d: "distinct (hm_keys new)" and inv: "\<forall>(k, ov) \<in> set ovs. ovl_inv ov"
    and a': "a' = a\<lparr>ag_overlays := ag_overlays a @ new\<rparr>"
    and gain: "\<And>k ao. (k, ao) \<in> set new \<Longrightarrow> \<not> hm_contains (ag_overlays a) k"
      "\<And>k ao. (k, ao) \<in> set new \<Longrightarrow> \<exists>be ov ov'. ag_backend a = Some be \<and> map_of ovs k = Some ov \<and>
           map_of ovs' k = Some ov' \<and> gained lib be k ov ov' ao"
  shows "agent_wf lib ip a'"
  unfolding agent_wf_def
proof (intro conjI)
  show "ag_ip a' = ip" using wf by (simp add: a' agent_wf_def)
  show "\<forall>be. ag_backend a' = Some be \<longrightarrow> is_ok (network_parse lib AF_INET (vtep_str be))"
    using wf by (simp add: a' agent_wf_def)
  show "distinct (hm_keys (ag_overlays a'))"
  proof -
    have "k \<notin> set (hm_keys (ag_overlays a))" if "k \<in> set (hm_keys new)" for k
    proof -
      from that obtain ao where "(k, ao) \<in> set new" by (auto simp: hm_keys_def)
      from gain(1) [OF this] show ?thesis by (simp add: hm_contains_iff)
    qed
    with wf d show ?thesis by (auto simp: a' agent_wf_def hm_keys_def)
  qed
  have e: "ao_name ao = k \<and> (\<exists>be. ag_backend a' = Some be \<and> vtep_str (ao_backend ao) = vtep_str be) \<and>
      (\<forall>s. ao_subnet ao = Some s \<longrightarrow> is_ok (network_parse lib AF_INET s))"
    if m: "(k, ao) \<in> set new" for k ao
  proof -
    from gain(2) [OF m] obtain be ov ov' where b: "ag_backend a = Some be" "map_of ovs k = Some ov"
      "gained lib be k ov ov' ao" by blast
    have "is_ok (network_parse lib AF_INET s)" if sub: "ao_subnet ao = Some s" for s
    proof -
      obtain n where "network_parse lib AF_INET s = Ok n"
        by (rule gained_subnet [OF map_of_ovl_inv [OF inv b(2)] b(3) sub])
      then show ?thesis by simp
    qed
    with b show ?thesis by (simp add: a' gained_def)
  qed
  show "\<forall>(k, ao) \<in> set (ag_overlays a'). ao_name ao = k \<and>
      (\<exists>be. ag_backend a' = Some be \<and> vtep_str (ao_backend ao) = vtep_str be) \<and>
      (\<forall>s. ao_subnet ao = Some s \<longrightarrow> is_ok (network_parse lib AF_INET s))"
    using wf e by (auto simp: a' agent_wf_def)
qed

lemma addOverlays_pools:
  assumes "pools_inv lib ovs v agents" "agents ip = Some a"
    "addOverlays lib cfg ovs a mm = Ok (ovs', a', mm', mut)"
  shows "pools_inv lib ovs' v (agents(ip \<mapsto> a'))"
proof -
  note inv = pools_invD [OF assms(1)]
  from addOverlays_spec [OF inv(3,2) assms(3)] obtain new where
    st: "pools_step ovs ovs'" and a': "a' = a\<lparr>ag_overlays := ag_overlays a @ new\<rparr>" and
    d: "distinct (hm_keys new)" and
    g: "\<forall>(k, ao) \<in> set new. \<not> hm_contains (ag_overlays a) k \<and>
        (\<exists>be ov ov'. ag_backend a = Some be \<and> map_of ovs k = Some ov \<and> map_of ovs' k = Some ov' \<and>
           gained lib be k ov ov' ao)" by blast
  have gain: "\<not> hm_contains (ag_overlays a) k"
    "\<exists>be ov ov'. ag_backend a = Some be \<and> map_of ovs k = Some ov \<and> map_of ovs' k = Some ov' \<and>
           gained lib be k ov ov' ao" if "(k, ao) \<in> set new" for k ao
    using g that by fast+
  note inv' = pools_inv_step [OF assms(1) st vtep_step_refl]
  have wf: "agent_wf lib ip a" by (rule inv(4) [OF assms(2)])
  have wf': "agent_wf lib ip a'"
    by (rule agent_wf_append [OF wf d inv(3) a' gain])
  have e: "ag_overlays a' = ag_overlays a @ new" by (simp add: a')
  show ?thesis
  proof (rule pools_inv_agent [OF inv' wf'])
    fix k n assume "agent_subnet lib a' k n"
    then obtain ao s where ao: "map_of (ag_overlays a @ new) k = Some ao" "ao_subnet ao = Some s"
      "network_parse lib AF_INET s = Ok n" unfolding agent_subnet_def e by blast
    show "(\<exists>ov. map_of ovs' k = Some ov \<and> n \<in> ovl_univ ov \<and> n \<notin> ovl_free_set ov) \<and>
       (\<forall>ip'. ip' \<noteq> ip \<longrightarrow> \<not> holds_subnet lib agents ip' k n)"
    proof (cases "map_of (ag_overlays a) k")
      case (Some ao')
      with ao have "holds_subnet lib agents ip k n"
        using assms(2) by (auto simp: holds_subnet_def agent_subnet_def)
      with pools_invD(5,6) [OF inv'] show ?thesis by blast
    next
      case None
      with ao have "(k, ao) \<in> set new" by (auto simp: map_add_def dest: map_of_SomeD)
      from gain(2) [OF this] obtain be ov ov' where b: "map_of ovs k = Some ov" "map_of ovs' k = Some ov'"
        "gained lib be k ov ov' ao" by blast
      obtain m where m: "network_parse lib AF_INET s = Ok m" "m \<in> ovl_univ ov" "m \<in> ovl_free_set ov"
        "m \<notin> ovl_free_set ov'" by (rule gained_subnet [OF map_of_ovl_inv [OF inv(3) b(1)] b(3) ao(2)])
      with ao(3) have "m = n" by simp
      moreover have "ovl_univ ov' = ovl_univ ov"
        using pools_step_map [OF st b(1)] b(2) by (auto simp: ovl_step_def)
      moreover have "\<not> holds_subnet lib agents ip' k m" for ip'
        using inv(5) [of ip' k m] b(1) m(3) by auto
      ultimately show ?thesis using b(2) m by auto
    qed
  next
    fix x assume "agent_vtep lib a' x"
    then have "holds_vtep lib agents ip x" using assms(2) by (auto simp: holds_vtep_def agent_vtep_def a')
    with inv(7,8) show "x \<in> vtep_hosts (vt_network v) \<and> x \<notin> covers (vt_freeIP v) \<and>
       (\<forall>ip'. ip' \<noteq> ip \<longrightarrow> \<not> holds_vtep lib agents ip' x)" by blast
  qed
qed

end

section \<open>Registration keeps the invariant\<close>

lemma allocateIP_frame: "allocateIP lib v = Ok (n, v') \<Longrightarrow> \<exists>s. v' = v\<lparr>vt_freeIP := s\<rparr>"
  by (auto simp: allocateIP_def Let_def res_simps split: if_splits)

lemma take_vtep6_step: "take_vtep6 lib v = Ok (n, v') \<Longrightarrow> vtep_step v v'"
  using allocateIP6_frame [of lib v] by (fastforce simp: take_vtep6_def res_simps split: if_splits)

lemma agent_wf_fresh:
  "(\<And>b. be = Some b \<Longrightarrow> is_ok (network_parse lib AF_INET (vtep_str b))) \<Longrightarrow>
   agent_wf lib ip \<lparr>ag_backend = be, ag_overlays = [], ag_ip = ip\<rparr>"
  by (simp add: agent_wf_def hm_keys_def)

lemma agent_subnet_fresh [simp]: "\<not> agent_subnet lib \<lparr>ag_backend = be, ag_overlays = [], ag_ip = ip\<rparr> k n"
  by (simp add: agent_subnet_def)

context stout_lib
begin

lemma vtep_alloc_pools:
  assumes "vtep_inv v" "allocateIP lib v = Ok (n, v')"
  obtains "vtep_step v v'" "network_parse lib AF_INET (show_net lib n) = Ok n"
    "naddr n \<in> vtep_hosts (vt_network v)" "naddr n \<in> covers (vt_freeIP v)"
    "naddr n \<notin> covers (vt_freeIP v')"
proof -
  from allocateIP_frame [OF assms(2)] obtain s where v': "v' = v\<lparr>vt_freeIP := s\<rparr>" by blast
  from vtep_alloc_spec [OF assms] have sp: "n \<in> vtep_free v" "vtep_inv v'"
    "vtep_free v' = vtep_free v - {n}" by simp_all
  from vtep_in_freeE [OF assms(1) sp(1)] obtain c where
    c: "n = Net (V4 c) (nprefix (vt_network v))" "V4 c \<in> covers (vt_freeIP v)" .
  have mem: "x \<in> covers s \<longleftrightarrow> x \<in> covers (vt_freeIP v) \<and> x \<noteq> V4 c" for x
  proof -
    have "Net x (nprefix (vt_network v)) \<in> vtep_free v' \<longleftrightarrow> x \<in> covers s"
      by (auto simp: vtep_free_def v')
    moreover have "Net x (nprefix (vt_network v)) \<in> vtep_free v - {n} \<longleftrightarrow>
        x \<in> covers (vt_freeIP v) \<and> x \<noteq> V4 c" by (auto simp: c(1))
    ultimately show ?thesis using sp(3) by simp
  qed
  have "naddr n \<in> vtep_hosts (vt_network v)" using assms(1) c by (auto simp: vtep_inv_def)
  moreover have "vtep_step v v'" using sp(2) mem by (auto simp: vtep_step_def v')
  moreover have "network_parse lib AF_INET (show_net lib n) = Ok n"
    using vtep_prefix [OF assms(1)] by (simp add: c(1))
  ultimately show thesis using that mem c v' by simp
qed

lemma new_agent_pools:
  assumes "pools_inv lib ovs v agents" "agents ip = None" "allocateIP lib v = Ok (n4, v1)"
    "take_vtep6 lib v1 = Ok (n6, v2)" "vtep_str be = show_net lib n4"
  shows "pools_inv lib ovs v2 (agents(ip \<mapsto> \<lparr>ag_backend = Some be, ag_overlays = [], ag_ip = ip\<rparr>))"
proof -
  note inv = pools_invD [OF assms(1)]
  obtain st: "vtep_step v v1" and pr: "network_parse lib AF_INET (show_net lib n4) = Ok n4" and
    h: "naddr n4 \<in> vtep_hosts (vt_network v)" "naddr n4 \<in> covers (vt_freeIP v)"
       "naddr n4 \<notin> covers (vt_freeIP v1)"
    by (rule vtep_alloc_pools [OF inv(1) assms(3)])
  note s6 = take_vtep6_step [OF assms(4)]
  have p: "pools_inv lib ovs v2 agents"
    by (rule pools_inv_step [OF assms(1) pools_step_refl vtep_step_trans [OF st s6]])
  show ?thesis
  proof (rule pools_inv_agent [OF p agent_wf_fresh])
    show "is_ok (network_parse lib AF_INET (vtep_str b))" if "Some be = Some b" for b
      using that assms(5) pr by simp
    fix x assume "agent_vtep lib \<lparr>ag_backend = Some be, ag_overlays = [], ag_ip = ip\<rparr> x"
    then have x: "x = naddr n4" using pr assms(5) by (simp add: agent_vtep_def)
    have "\<not> holds_vtep lib agents ip' x" for ip' using inv(7) [of ip' x] h(2) x by blast
    then show "x \<in> vtep_hosts (vt_network v2) \<and> x \<notin> covers (vt_freeIP v2) \<and>
       (\<forall>ip'. ip' \<noteq> ip \<longrightarrow> \<not> holds_vtep lib agents ip' x)"
      using h x st s6 by (auto simp: vtep_step_def)
  qed simp
qed

lemma backend_pools:
  assumes "pools_inv lib ovs v agents" "agents ip = Some a" "ag_backend a = Some be"
    "vtep_str be' = vtep_str be"
  shows "pools_inv lib ovs v (agents(ip \<mapsto> setBackendInfo (Some be') a))"
proof (rule pools_inv_same_agent [OF assms(1,2)])
  have "agent_wf lib ip a" by (rule pools_invD(4) [OF assms(1,2)])
  then show "agent_wf lib ip (setBackendInfo (Some be') a)"
    using assms(3,4) by (auto simp: agent_wf_def setBackendInfo_def)
qed (use assms(3,4) in \<open>auto simp: agent_subnet_def agent_vtep_def setBackendInfo_def\<close>)

end

lemma updateOverlayState_agent:
  assumes "updateOverlayState ao a = Ok a'" "agent_wf lib ip a"
  shows "agent_wf lib ip a'" "agent_subnet lib a' k n \<longleftrightarrow> agent_subnet lib a k n"
    "agent_vtep lib a' x \<longleftrightarrow> agent_vtep lib a x"
proof -
  from assms(1) obtain old where o: "map_of (ag_overlays a) (ao_name ao) = Some old"
    "a' = a\<lparr>ag_overlays := hm_put (ag_overlays a) (ao_name ao) (set_status (status_of ao) old)\<rparr>"
    by (auto simp: updateOverlayState_def res_simps)
  let ?new = "set_status (status_of ao) old"
  have sub: "ao_subnet ?new = ao_subnet old" "ao_backend ?new = ao_backend old"
    by (simp_all add: set_status_def)
  have m: "map_of (ag_overlays a') = (map_of (ag_overlays a))(ao_name ao \<mapsto> ?new)"
    by (simp add: o(2) hm_simps)
  have bk: "ag_backend a' = ag_backend a" by (simp add: o(2))
  note en = agent_wf_entry [OF assms(2) o(1)]
  have d: "distinct (hm_keys (ag_overlays a'))" using assms(2) by (simp add: o(2) agent_wf_def hm_simps)
  show "agent_wf lib ip a'"
    unfolding agent_wf_def
  proof (intro conjI d)
    show "ag_ip a' = ip" using assms(2) by (simp add: o(2) agent_wf_def)
    show "\<forall>be. ag_backend a' = Some be \<longrightarrow> is_ok (network_parse lib AF_INET (vtep_str be))"
      using assms(2) by (simp add: bk agent_wf_def)
    show "\<forall>(k, ao) \<in> set (ag_overlays a'). ao_name ao = k \<and>
        (\<exists>be. ag_backend a' = Some be \<and> vtep_str (ao_backend ao) = vtep_str be) \<and>
        (\<forall>s. ao_subnet ao = Some s \<longrightarrow> is_ok (network_parse lib AF_INET s))"
    proof (clarify)
      fix k ao' assume "(k, ao') \<in> set (ag_overlays a')"
      then have "map_of (ag_overlays a') k = Some ao'" using d by (simp add: hm_keys_def)
      then show "ao_name ao' = k \<and>
        (\<exists>be. ag_backend a' = Some be \<and> vtep_str (ao_backend ao') = vtep_str be) \<and>
        (\<forall>s. ao_subnet ao' = Some s \<longrightarrow> is_ok (network_parse lib AF_INET s))"
        using en agent_wf_entry [OF assms(2), of k ao'] sub by (auto simp: m bk split: if_splits)
    qed
  qed
  show "agent_subnet lib a' k n \<longleftrightarrow> agent_subnet lib a k n"
    using o(1) sub by (auto simp: agent_subnet_def m)
  show "agent_vtep lib a' x \<longleftrightarrow> agent_vtep lib a x" by (simp add: agent_vtep_def o(2))
qed

lemma update_states_agent:
  "update_states aos a = Ok a' \<Longrightarrow> agent_wf lib ip a \<Longrightarrow>
   agent_wf lib ip a' \<and> (\<forall>k n. agent_subnet lib a' k n \<longleftrightarrow> agent_subnet lib a k n) \<and>
   (\<forall>x. agent_vtep lib a' x \<longleftrightarrow> agent_vtep lib a x)"
proof (induction aos arbitrary: a)
  case Nil
  then show ?case by simp
next
  case (Cons ao aos)
  then obtain a1 where "updateOverlayState ao a = Ok a1" "update_states aos a1 = Ok a'"
    by (auto simp: res_simps)
  with updateOverlayState_agent [OF this(1) Cons.prems(2)] Cons.IH show ?case by blast
qed

lemma update_states_pools:
  assumes "pools_inv lib ovs v agents" "agents ip = Some a" "update_states aos a = Ok a'"
  shows "pools_inv lib ovs v (agents(ip \<mapsto> a'))"
  using update_states_agent [OF assms(3) pools_invD(4) [OF assms(1,2)]]
  by (intro pools_inv_same_agent [OF assms(1,2)]) simp_all

section \<open>Deletion keeps the invariant\<close>

lemma pools_step_update:
  "map_of ovs k = Some ov \<Longrightarrow> ovl_step ov ov' \<Longrightarrow> pools_step ovs (hm_update ovs k ov')"
proof (induction ovs)
  case (Cons kv ovs)
  then show ?case
    using pools_step_refl [of ovs, unfolded pools_step_def] by (cases kv) (auto simp: pools_step_def split: if_splits)
qed simp

lemma hm_update_inv:
  assumes "\<forall>(k, ov) \<in> set ovs. ovl_inv ov" "ovl_inv ov'"
  shows "\<forall>(k, ov) \<in> set (hm_update ovs name ov'). ovl_inv ov"
  using assms by (induction ovs name ov' rule: hm_update.induct) auto

text \<open>The overlays of the pools, and what the agents of \<open>agents\<close> hold in them.\<close>

definition subnets_inv :: "stout \<Rightarrow> (string \<times> overlay) list \<Rightarrow> agent_db \<Rightarrow> bool" where
  "subnets_inv lib ovs agents \<longleftrightarrow>
     distinct (hm_keys ovs) \<and> (\<forall>(k, ov) \<in> set ovs. ovl_inv ov) \<and>
     (\<forall>ip k n. holds_subnet lib agents ip k n \<longrightarrow>
        (\<exists>ov. map_of ovs k = Some ov \<and> n \<in> ovl_univ ov \<and> n \<notin> ovl_free_set ov))"

definition taken :: "(string \<times> overlay) list \<Rightarrow> string \<Rightarrow> network \<Rightarrow> bool" where
  "taken ovs k n \<longleftrightarrow> (\<exists>ov. map_of ovs k = Some ov \<and> n \<in> ovl_univ ov \<and> n \<notin> ovl_free_set ov)"

lemma taken_step: "pools_step ovs ovs' \<Longrightarrow> taken ovs k n \<Longrightarrow> taken ovs' k n"
  using pools_step_map [of ovs ovs' k] by (fastforce simp: taken_def ovl_step_def)

lemma subnets_inv_alt:
  "subnets_inv lib ovs agents \<longleftrightarrow>
     distinct (hm_keys ovs) \<and> (\<forall>(k, ov) \<in> set ovs. ovl_inv ov) \<and>
     (\<forall>ip k n. holds_subnet lib agents ip k n \<longrightarrow> taken ovs k n)"
  by (simp add: subnets_inv_def taken_def)

lemma subnets_inv_step:
  assumes "subnets_inv lib ovs agents" "pools_step ovs ovs'"
  shows "subnets_inv lib ovs' agents"
proof -
  have d: "distinct (hm_keys ovs')"
    using assms pools_step_keys [OF assms(2)] by (simp add: subnets_inv_def)
  have "ovl_inv ov'" if "(k, ov') \<in> set ovs'" for k ov'
  proof -
    have "map_of ovs' k = Some ov'" using that d by (simp add: hm_keys_def)
    from pools_step_map' [OF assms(2) this] obtain ov where "map_of ovs k = Some ov" "ovl_step ov ov'"
      by blast
    moreover have "\<forall>(k, ov) \<in> set ovs. ovl_inv ov" using assms(1) by (simp add: subnets_inv_def)
    from map_of_ovl_inv [OF this calculation(1)] calculation(2) show ?thesis by (simp add: ovl_step_def)
  qed
  with d assms taken_step [OF assms(2)] show ?thesis unfolding subnets_inv_alt by blast
qed

context stout_lib
begin

lemma release_subnet6_step:
  assumes "release_subnet lib f (ovl_free6 lib) k subnet ovs = Ok ovs'"
  shows "pools_step ovs ovs'"
proof (cases subnet)
  case None
  with assms show ?thesis by (simp add: release_subnet_def)
next
  case (Some s)
  with assms obtain n ov ov' where "map_of ovs k = Some ov" "ovl_free6 lib ov n = Ok ov'"
    "ovs' = hm_update ovs k ov'" by (auto simp: release_subnet_def res_simps)
  moreover from this(2) free6_frame have "ovl_step ov ov'" by (fastforce simp: ovl_step_def)
  ultimately show ?thesis using pools_step_update by blast
qed

text \<open>Giving back one subnet: it becomes free, and nothing else changes hands.\<close>

lemma release_subnet4:
  assumes "subnets_inv lib ovs agents" "release_subnet lib AF_INET (ovl_free lib) k subnet ovs = Ok ovs'"
    "\<And>s n. subnet = Some s \<Longrightarrow> network_parse lib AF_INET s = Ok n \<Longrightarrow>
       taken ovs k n \<and> (\<forall>ip. \<not> holds_subnet lib agents ip k n)"
  shows "subnets_inv lib ovs' agents" "k' \<noteq> k \<Longrightarrow> taken ovs k' n' \<Longrightarrow> taken ovs' k' n'"
proof -
  have "subnets_inv lib ovs' agents \<and> (k' \<noteq> k \<longrightarrow> taken ovs k' n' \<longrightarrow> taken ovs' k' n')"
  proof (cases subnet)
    case None
    with assms(1,2) show ?thesis by (simp add: release_subnet_def)
  next
    case (Some s)
    with assms(2) obtain n ov ov' where r: "network_parse lib AF_INET s = Ok n"
      "map_of ovs k = Some ov" "ovl_free lib ov n = Ok ov'" "ovs' = hm_update ovs k ov'"
      by (auto simp: release_subnet_def res_simps)
    from assms(3) [OF Some r(1)] r(2) have u: "n \<in> ovl_univ ov"
      "\<And>ip. \<not> holds_subnet lib agents ip k n" by (auto simp: taken_def)
    have inv: "\<forall>(k, ov) \<in> set ovs. ovl_inv ov" using assms(1) by (simp add: subnets_inv_def)
    from ovl_release_spec [OF map_of_ovl_inv [OF inv r(2)] u(1)] r(3) have
      f: "ovl_inv ov'" "ovl_free_set ov' = insert n (ovl_free_set ov)" "ovl_univ ov' = ovl_univ ov"
      by auto
    have t: "taken ovs' k1 n1" if "taken ovs k1 n1" "k1 \<noteq> k \<or> n1 \<noteq> n" for k1 n1
      using that r(2) f by (auto simp: taken_def r(4) hm_simps)
    have "holds_subnet lib agents ip k1 n1 \<Longrightarrow> taken ovs' k1 n1" for ip k1 n1
      using t [of k1 n1] u(2) assms(1) unfolding subnets_inv_alt by blast
    moreover have "distinct (hm_keys ovs')" "\<forall>(k, ov) \<in> set ovs'. ovl_inv ov"
      using assms(1) hm_update_inv [OF inv f(1)] by (simp_all add: r(4) hm_simps subnets_inv_def)
    ultimately show ?thesis using t unfolding subnets_inv_alt by blast
  qed
  then show "subnets_inv lib ovs' agents" "k' \<noteq> k \<Longrightarrow> taken ovs k' n' \<Longrightarrow> taken ovs' k' n'" by blast+
qed

text \<open>Entries of one agent that is being deleted: its subnets are taken, and nobody else holds them.\<close>

definition releasable ::
  "(string \<times> overlay) list \<Rightarrow> agent_db \<Rightarrow> string \<Rightarrow> (string \<times> agent_overlay_info) list \<Rightarrow> bool" where
  "releasable ovs agents str kvs \<longleftrightarrow>
     distinct (map fst kvs) \<and>
     (\<forall>(k, ao) \<in> set kvs. ao_name ao = k \<and> vtep_str (ao_backend ao) = str \<and>
        (\<forall>s n. ao_subnet ao = Some s \<longrightarrow> network_parse lib AF_INET s = Ok n \<longrightarrow>
           taken ovs k n \<and> (\<forall>ip. \<not> holds_subnet lib agents ip k n)))"

lemma releasable_ConsD:
  assumes "releasable ovs agents str ((k, ao) # kvs)"
  shows "ao_name ao = k" "vtep_str (ao_backend ao) = str"
    "ao_subnet ao = Some s \<Longrightarrow> network_parse lib AF_INET s = Ok n \<Longrightarrow>
       taken ovs k n \<and> (\<forall>ip. \<not> holds_subnet lib agents ip k n)"
    "(\<And>k' n. k' \<noteq> k \<Longrightarrow> taken ovs k' n \<Longrightarrow> taken ovs' k' n) \<Longrightarrow> releasable ovs' agents str kvs"
proof -
  show "ao_name ao = k" "vtep_str (ao_backend ao) = str" using assms by (simp_all add: releasable_def)
  show "ao_subnet ao = Some s \<Longrightarrow> network_parse lib AF_INET s = Ok n \<Longrightarrow>
       taken ovs k n \<and> (\<forall>ip. \<not> holds_subnet lib agents ip k n)" using assms by (simp add: releasable_def)
  assume keep: "\<And>k' n. k' \<noteq> k \<Longrightarrow> taken ovs k' n \<Longrightarrow> taken ovs' k' n"
  have "k' \<noteq> k" if "(k', ao') \<in> set kvs" for k' ao' using assms that by (force simp: releasable_def)
  moreover have "releasable ovs agents str kvs" using assms by (simp add: releasable_def)
  ultimately show "releasable ovs' agents str kvs" using keep unfolding releasable_def by fast
qed

lemma delete_overlays_pools:
  "subnets_inv lib ovs agents \<Longrightarrow> releasable ovs agents str kvs \<Longrightarrow> set ips \<subseteq> {str} \<Longrightarrow> distinct ips \<Longrightarrow>
   delete_overlays lib (map snd kvs) (ovs, ips, ip6s) = Ok (ovs', ips', ip6s') \<Longrightarrow>
   subnets_inv lib ovs' agents \<and> set ips' \<subseteq> {str} \<and> distinct ips'"
proof (induction kvs arbitrary: ovs ips ip6s)
  case Nil
  then show ?case by simp
next
  case (Cons kv kvs)
  obtain k ao where kv: "kv = (k, ao)" by (cases kv)
  note ao = releasable_ConsD [OF Cons.prems(2) [unfolded kv]]
  from Cons.prems(5) kv obtain r where
    "delete_overlay lib ao (ovs, ips, ip6s) = Ok r" "delete_overlays lib (map snd kvs) r = Ok (ovs', ips', ip6s')"
    by (auto simp: res_simps)
  moreover obtain ovs2 ips2 ip6s2 where "r = (ovs2, ips2, ip6s2)" by (cases r)
  ultimately have one: "delete_overlay lib ao (ovs, ips, ip6s) = Ok (ovs2, ips2, ip6s2)"
    and rest: "delete_overlays lib (map snd kvs) (ovs2, ips2, ip6s2) = Ok (ovs', ips', ip6s')" by simp_all
  from one ao(1) obtain ovs1 where
    r4: "release_subnet lib AF_INET (ovl_free lib) k (ao_subnet ao) ovs = Ok ovs1" and
    r6: "release_subnet lib AF_INET6 (ovl_free6 lib) k (ao_subnet6 ao) ovs1 = Ok ovs2" and
    ips: "ips2 = (case be_vxlan (ao_backend ao) of None \<Rightarrow> ips | Some vx \<Rightarrow> add_key (vx_vtep_ip vx) ips)"
    by (auto simp: delete_overlay_def res_simps split: option.splits)
  note s4 = release_subnet4 [OF Cons.prems(1) r4 ao(3)]
  note s6 = release_subnet6_step [OF r6]
  have inv2: "subnets_inv lib ovs2 agents" by (rule subnets_inv_step [OF s4(1) s6])
  have "taken ovs2 k' n" if "k' \<noteq> k" "taken ovs k' n" for k' n
    by (rule taken_step [OF s6 s4(2)]) (use that in simp_all)
  then have rem: "releasable ovs2 agents str kvs" by (rule ao(4))
  have "set ips2 \<subseteq> {str}" "distinct ips2"
    using Cons.prems(3,4) ao(2) by (auto simp: ips add_key_def vtep_str_def vxlan_of_def split: option.splits)
  from Cons.IH [OF inv2 rem this rest] show ?case .
qed

lemma release_vteps6_step:
  "release_vteps lib f (deallocateIP6 lib) ss v = Ok v' \<Longrightarrow> vtep_step v v'"
proof (induction ss arbitrary: v)
  case (Cons s ss)
  then obtain n v1 where "deallocateIP6 lib v n = Ok v1" "release_vteps lib f (deallocateIP6 lib) ss v1 = Ok v'"
    by (auto simp: res_simps)
  moreover from deallocateIP6_frame [OF this(1)] have "vtep_step v v1" by auto
  ultimately show ?case using Cons.IH vtep_step_trans by blast
qed simp

lemma release_vteps4:
  assumes "release_vteps lib AF_INET (deallocateIP lib) ips v = Ok v'" "set ips \<subseteq> {str}" "distinct ips"
    "vtep_inv v" "\<And>n. network_parse lib AF_INET str = Ok n \<Longrightarrow> naddr n \<in> vtep_hosts (vt_network v)"
  shows "vtep_inv v'" "vt_network v' = vt_network v"
    "x \<notin> covers (vt_freeIP v) \<Longrightarrow> (\<And>n. network_parse lib AF_INET str = Ok n \<Longrightarrow> naddr n \<noteq> x) \<Longrightarrow>
       x \<notin> covers (vt_freeIP v')"
proof -
  have "vtep_inv v' \<and> vt_network v' = vt_network v \<and>
    (x \<notin> covers (vt_freeIP v) \<longrightarrow> (\<forall>n. network_parse lib AF_INET str = Ok n \<longrightarrow> naddr n \<noteq> x) \<longrightarrow>
       x \<notin> covers (vt_freeIP v'))"
  proof (cases ips)
    case Nil
    with assms(1,4) show ?thesis by simp
  next
    case (Cons s ss)
    with assms(2,3) have ips: "ips = [str]" by (cases ss) auto
    from assms(1) obtain n where n: "network_parse lib AF_INET str = Ok n"
      "deallocateIP lib v n = Ok v'" by (auto simp: ips res_simps)
    note h = assms(5) [OF n(1)]
    have c: "cell ip_succ (naddr n) = {naddr n}"
      by (rule vtep_hostE [OF assms(4) h]) auto
    have v': "v' = v\<lparr>vt_freeIP := iv_put (ip_ivs lib) (vt_freeIP v) (naddr n)\<rparr>"
      using n(2) by (auto simp: deallocateIP_def split: if_splits)
    have cv: "covers (vt_freeIP v') = insert (naddr n) (covers (vt_freeIP v))"
      using assms(4) c by (simp add: v' ips.covers_put vtep_inv_def)
    have "vtep_inv v'" using assms(4) h cv by (simp add: v' vtep_inv_def ips.normal_put)
    with cv n(1) show ?thesis by (auto simp: v')
  qed
  then show "vtep_inv v'" "vt_network v' = vt_network v"
    "x \<notin> covers (vt_freeIP v) \<Longrightarrow> (\<And>n. network_parse lib AF_INET str = Ok n \<Longrightarrow> naddr n \<noteq> x) \<Longrightarrow>
       x \<notin> covers (vt_freeIP v')" by blast+
qed

lemma release_own_vtep:
  assumes "pools_inv lib ovs v agents" "agents ip = Some a"
    and str: "str = (case ag_backend a of None \<Rightarrow> [] | Some be \<Rightarrow> vtep_str be)"
    and ips: "set ips \<subseteq> {str}" "distinct ips" "ips \<noteq> [] \<Longrightarrow> ag_overlays a \<noteq> []"
    and r4: "release_vteps lib AF_INET (deallocateIP lib) ips v = Ok v1"
  shows "vtep_inv v1 \<and> vt_network v1 = vt_network v \<and>
    (\<forall>ip' x. holds_vtep lib (agents(ip := None)) ip' x \<longrightarrow> x \<notin> covers (vt_freeIP v1))"
proof (cases "ips = []")
  case True
  with r4 pools_invD(1,7) [OF assms(1)] show ?thesis by auto
next
  case False
  note inv = pools_invD [OF assms(1)]
  from ips(3) [OF False] obtain k ao where "(k, ao) \<in> set (ag_overlays a)" by (cases "ag_overlays a") auto
  with inv(4) [OF assms(2)] obtain be where "ag_backend a = Some be" by (auto simp: agent_wf_def)
  then have own: "holds_vtep lib agents ip (naddr n)" if "network_parse lib AF_INET str = Ok n" for n
    using that assms(2) by (auto simp: holds_vtep_def agent_vtep_def str)
  note r = release_vteps4 [OF r4 ips(1,2) inv(1)]
  have h: "naddr n \<in> vtep_hosts (vt_network v)" if "network_parse lib AF_INET str = Ok n" for n
    using inv(7) own [OF that] by blast
  have "x \<notin> covers (vt_freeIP v1)" if x: "holds_vtep lib (agents(ip := None)) ip' x" for ip' x
  proof (rule r(3) [OF h])
    show "x \<notin> covers (vt_freeIP v)" using inv(7) x by auto
    show "naddr n \<noteq> x" if "network_parse lib AF_INET str = Ok n" for n
      using inv(8) [OF own [OF that]] x by auto
  qed
  with r(1,2) [OF h] show ?thesis by blast
qed

lemma held_releasable:
  assumes "pools_inv lib ovs v agents" "agents ip = Some a"
    "str = (case ag_backend a of None \<Rightarrow> [] | Some be \<Rightarrow> vtep_str be)"
  shows "releasable ovs (agents(ip := None)) str (ag_overlays a)"
  unfolding releasable_def
proof (intro conjI)
  note inv = pools_invD [OF assms(1)]
  have wf: "agent_wf lib ip a" by (rule inv(4) [OF assms(2)])
  then show "distinct (map fst (ag_overlays a))" by (simp add: agent_wf_def hm_keys_def)
  show "\<forall>(k, ao) \<in> set (ag_overlays a). ao_name ao = k \<and> vtep_str (ao_backend ao) = str \<and>
        (\<forall>s n. ao_subnet ao = Some s \<longrightarrow> network_parse lib AF_INET s = Ok n \<longrightarrow>
           taken ovs k n \<and> (\<forall>ip'. \<not> holds_subnet lib (agents(ip := None)) ip' k n))"
  proof (clarify)
    fix k ao assume m: "(k, ao) \<in> set (ag_overlays a)"
    have "taken ovs k n \<and> (\<forall>ip'. \<not> holds_subnet lib (agents(ip := None)) ip' k n)"
      if "ao_subnet ao = Some s" "network_parse lib AF_INET s = Ok n" for s n
    proof -
      have "map_of (ag_overlays a) k = Some ao" using m wf by (simp add: agent_wf_def hm_keys_def)
      with that assms(2) have "holds_subnet lib agents ip k n" by (auto simp: holds_subnet_def agent_subnet_def)
      from inv(5) [OF this] inv(6) [OF this] show ?thesis unfolding taken_def by auto
    qed
    with m wf show "ao_name ao = k \<and> vtep_str (ao_backend ao) = str \<and>
        (\<forall>s n. ao_subnet ao = Some s \<longrightarrow> network_parse lib AF_INET s = Ok n \<longrightarrow>
           taken ovs k n \<and> (\<forall>ip'. \<not> holds_subnet lib (agents(ip := None)) ip' k n))"
      by (auto simp: agent_wf_def assms(3))
  qed
qed

lemma delete_agent_pools:
  assumes "pools_inv lib ovs v agents" "agents ip = Some a" "delete_agent lib a ovs v = Ok (ovs', v')"
  shows "pools_inv lib ovs' v' (agents(ip := None))"
proof -
  note inv = pools_invD [OF assms(1)]
  let ?A = "agents(ip := None)"
  have wf: "agent_wf lib ip a" by (rule inv(4) [OF assms(2)])
  obtain str where str: "str = (case ag_backend a of None \<Rightarrow> [] | Some be \<Rightarrow> vtep_str be)" by blast
  from assms(3) obtain ips ip6s v1 where
    d: "delete_overlays lib (map snd (ag_overlays a)) (ovs, [], []) = Ok (ovs', ips, ip6s)" and
    r4: "release_vteps lib AF_INET (deallocateIP lib) ips v = Ok v1" and
    r6: "release_vteps lib AF_INET6 (deallocateIP6 lib) ip6s v1 = Ok v'"
    by (auto simp: delete_agent_def getOverlays_def res_simps)
  have s0: "subnets_inv lib ovs ?A" using inv(2,3,5) unfolding subnets_inv_def by auto
  note rel = held_releasable [OF assms(1,2) str]
  from delete_overlays_pools [OF s0 rel _ _ d] have
    s: "subnets_inv lib ovs' ?A" "set ips \<subseteq> {str}" "distinct ips" by simp_all
  have "ips \<noteq> [] \<Longrightarrow> ag_overlays a \<noteq> []" using d by auto
  note v1 = release_own_vtep [OF assms(1,2) str s(2,3) this r4]
  note st6 = release_vteps6_step [OF r6]
  show ?thesis
  proof (rule pools_invI)
    show "vtep_inv v'" using v1 st6 by (simp add: vtep_step_def)
    show "distinct (hm_keys ovs')" using s(1) by (simp add: subnets_inv_def)
    show "ovl_inv ov" if "(k, ov) \<in> set ovs'" for k ov using s(1) that by (auto simp: subnets_inv_def)
    show "agent_wf lib ip' a'" if "?A ip' = Some a'" for ip' a'
      using inv(4) that by (auto split: if_splits)
    show "\<exists>ov. map_of ovs' k = Some ov \<and> n \<in> ovl_univ ov \<and> n \<notin> ovl_free_set ov"
      if "holds_subnet lib ?A ip' k n" for ip' k n
      using s(1) that unfolding subnets_inv_def by blast
    show "ip1 = ip2" if "holds_subnet lib ?A ip1 k n" "holds_subnet lib ?A ip2 k n" for ip1 ip2 k n
      using inv(6) that by auto
    show "x \<in> vtep_hosts (vt_network v') \<and> x \<notin> covers (vt_freeIP v')" if "holds_vtep lib ?A ip' x" for ip' x
      using v1 st6 inv(7) [of ip' x] that by (auto simp: vtep_step_def)
    show "ip1 = ip2" if "holds_vtep lib ?A ip1 x" "holds_vtep lib ?A ip2 x" for ip1 ip2 x
      using inv(8) that by auto
  qed
qed

end

end
