(* ===== verification/MasterRecovery.thy ===== *)
theory MasterRecovery
  imports MasterInvariant
begin

text \<open>
  Recovery: what \<open>_recover\<close> rebuilds from the state it fetched from the replicated log. An entry
  is well formed (\<open>info_ok\<close>) when it names an overlay once, has one VTEP address, and every subnet
  that parses is aligned; the entries the master writes are. Reserving such entries takes their
  subnets and VTEP addresses out of the pools, which therefore keep the invariant.
\<close>

section \<open>Well-formed entries\<close>

definition info_ok :: "stout \<Rightarrow> agent_info \<Rightarrow> bool" where
  "info_ok lib info \<longleftrightarrow>
     distinct (map ao_name (ai_overlays info)) \<and>
     (\<forall>ao \<in> set (ai_overlays info).
        vtep_str (ao_backend ao) = vtep_str (ao_backend (hd (ai_overlays info))) \<and>
        (\<forall>s. ao_subnet ao = Some s \<longrightarrow> (\<exists>n. network_parse lib AF_INET s = Ok n \<and> aligned_net n)))"

definition state_ok :: "stout \<Rightarrow> net_state \<Rightarrow> bool" where
  "state_ok lib st \<longleftrightarrow> (\<forall>info \<in> set (ns_agents st). info_ok lib info)"

lemma state_okI: "(\<And>info. info \<in> set (ns_agents st) \<Longrightarrow> info_ok lib info) \<Longrightarrow> state_ok lib st"
  by (simp add: state_ok_def)

lemma clear_state_simps [simp]:
  "ao_subnet (clear_state ao) = ao_subnet ao" "ao_backend (clear_state ao) = ao_backend ao"
  "ao_subnet6 (clear_state ao) = ao_subnet6 ao"
  by (simp_all add: clear_state_def)

lemma info_ok_clear [simp]: "info_ok lib (clear_info info) \<longleftrightarrow> info_ok lib info"
proof -
  have "ao_name \<circ> clear_state = ao_name" by (rule ext) simp
  then show ?thesis
    by (cases "ai_overlays info") (auto simp: info_ok_def clear_info_def)
qed

lemma aligned_univ: "n \<in> ovl_univ ov \<Longrightarrow> aligned_net n"
  by (auto simp: ovl_univ_def split: option.splits network.splits ip.splits)

text \<open>The entry of an agent of the database is well formed.\<close>

lemma info_ok_agent:
  assumes "pools_inv lib ovs v agents" "agents ip = Some a"
  shows "info_ok lib (getAgentInfo lib a)"
proof -
  have wf: "agent_wf lib ip a" by (rule pools_invD(4) [OF assms])
  have names: "map ao_name (map snd (ag_overlays a)) = map fst (ag_overlays a)"
    using wf by (auto simp: agent_wf_def)
  have e: "vtep_str (ao_backend ao) = vtep_str be"
    if "ag_backend a = Some be" "ao \<in> set (map snd (ag_overlays a))" for be ao
    using wf that by (auto simp: agent_wf_def)
  have b: "\<exists>be. ag_backend a = Some be" if "ag_overlays a \<noteq> []"
    using wf that by (cases "ag_overlays a") (auto simp: agent_wf_def)
  have "\<exists>n. network_parse lib AF_INET s = Ok n \<and> aligned_net n"
    if m: "(k, ao) \<in> set (ag_overlays a)" and s: "ao_subnet ao = Some s" for k ao s
  proof -
    from m wf have "map_of (ag_overlays a) k = Some ao" by (simp add: agent_wf_def hm_keys_def)
    moreover from wf m s obtain n where n: "network_parse lib AF_INET s = Ok n"
      by (cases "network_parse lib AF_INET s") (auto simp: agent_wf_def)
    ultimately have "holds_subnet lib agents ip k n"
      using s assms(2) by (auto simp: holds_subnet_def agent_subnet_def)
    with pools_invD(5) [OF assms(1)] n show ?thesis by (blast dest: aligned_univ)
  qed
  moreover have "vtep_str (ao_backend ao) = vtep_str (ao_backend (hd (map snd (ag_overlays a))))"
    if m: "ao \<in> set (map snd (ag_overlays a))" for ao
  proof -
    from m have ne: "ag_overlays a \<noteq> []" by auto
    from b [OF ne] obtain be where be: "ag_backend a = Some be" by blast
    have "hd (map snd (ag_overlays a)) \<in> set (map snd (ag_overlays a))" using ne by (intro hd_in_set) simp
    from e [OF be this] e [OF be m] show ?thesis by simp
  qed
  ultimately show ?thesis
    using wf names unfolding info_ok_def getAgentInfo_def agent_wf_def hm_keys_def
    by (auto simp del: map_map)
qed

section \<open>Reserving what an entry lists\<close>

lemma pools_step_trans: "pools_step a b \<Longrightarrow> pools_step b c \<Longrightarrow> pools_step a c"
  unfolding pools_step_def
  by (erule list_all2_trans [rotated], assumption) (auto intro: ovl_step_trans)

text \<open>What no operation changes: the networks of the overlays, under their names.\<close>

definition shape :: "(string \<times> overlay) list \<Rightarrow> (string \<times> network option \<times> byte option) list" where
  "shape ovs = map (\<lambda>(k, ov). (k, ov_network ov, ov_prefix ov)) ovs"

lemma pools_step_shape: "pools_step ovs ovs' \<Longrightarrow> shape ovs' = shape ovs"
  unfolding pools_step_def shape_def
  by (induction rule: list_all2_induct) (auto simp: ovl_step_def)

lemma shape_hm_update:
  assumes "map_of ovs k = Some ov" "ov_network ov' = ov_network ov" "ov_prefix ov' = ov_prefix ov"
  shows "shape (hm_update ovs k ov') = shape ovs"
  using assms by (induction ovs) (auto simp: shape_def split: if_splits)

lemma release_subnet_shape:
  assumes "release_subnet lib f free k subnet ovs = Ok ovs'"
    "\<And>ov n ov'. free ov n = Ok ov' \<Longrightarrow> ov_network ov' = ov_network ov \<and> ov_prefix ov' = ov_prefix ov"
  shows "shape ovs' = shape ovs"
proof (cases subnet)
  case None
  with assms(1) show ?thesis by (simp add: release_subnet_def)
next
  case (Some s)
  with assms(1) obtain n ov ov' where "map_of ovs k = Some ov" "free ov n = Ok ov'"
    "ovs' = hm_update ovs k ov'" by (auto simp: release_subnet_def res_simps)
  with assms(2) [OF this(2)] show ?thesis by (simp add: shape_hm_update)
qed

lemma delete_overlay_shape:
  assumes "delete_overlay lib ao (ovs, ips, ip6s) = Ok (ovs', ips', ip6s')"
  shows "shape ovs' = shape ovs"
proof -
  from assms obtain ovs1 where
    r4: "release_subnet lib AF_INET (ovl_free lib) (ao_name ao) (ao_subnet ao) ovs = Ok ovs1" and
    r6: "release_subnet lib AF_INET6 (ovl_free6 lib) (ao_name ao) (ao_subnet6 ao) ovs1 = Ok ovs'"
    by (auto simp: delete_overlay_def res_simps)
  have "shape ovs1 = shape ovs" by (rule release_subnet_shape [OF r4]) (auto dest!: free_frame)
  moreover have "shape ovs' = shape ovs1" by (rule release_subnet_shape [OF r6]) (auto dest!: free6_frame)
  ultimately show ?thesis by simp
qed

lemma delete_overlays_shape:
  "delete_overlays lib aos (ovs, ips, ip6s) = Ok (ovs', ips', ip6s') \<Longrightarrow> shape ovs' = shape ovs"
proof (induction aos arbitrary: ovs ips ip6s)
  case (Cons ao aos)
  then obtain ovs1 ips1 ip6s1 where "delete_overlay lib ao (ovs, ips, ip6s) = Ok (ovs1, ips1, ip6s1)"
    "delete_overlays lib aos (ovs1, ips1, ip6s1) = Ok (ovs', ips', ip6s')" by (auto simp: res_simps)
  with Cons.IH delete_overlay_shape show ?case by fastforce
qed simp

lemma delete_agent_shape: "delete_agent lib a ovs v = Ok (ovs', v') \<Longrightarrow> shape ovs' = shape ovs"
  by (auto simp: delete_agent_def res_simps dest: delete_overlays_shape)

context stout_lib
begin

lemma ovl_reserve_free:
  assumes "ovl_inv ov" "ovl_reserve lib ov n = Ok ov'" "aligned_net n"
  shows "n \<in> ovl_free_set ov"
proof -
  obtain c p where n: "n = Net (V4 c) p" "aligned4 p c" using assms(3) by (cases n rule: aligned_net.cases) auto
  have "iv_normal (ov_freeNetworks ov)"
    by (rule ovl_inv_cases [OF assms(1)]) (simp_all add: pool4_def)
  with assms(2) n show ?thesis
    by (auto simp: ovl_reserve_def netmask_def res_simps aligned4_def ovl_free_set_def
        nets.contains_iff mk_network_def split: if_splits)
qed

end

text \<open>\<open>fresh\<close>: a subnet still free in its overlay, and therefore held by no agent.\<close>

definition fresh :: "(string \<times> overlay) list \<Rightarrow> string \<Rightarrow> network \<Rightarrow> bool" where
  "fresh ovs k n \<longleftrightarrow> (\<exists>ov. map_of ovs k = Some ov \<and> n \<in> ovl_free_set ov)"

lemma fresh_step: "pools_step ovs ovs' \<Longrightarrow> fresh ovs' k n \<Longrightarrow> fresh ovs k n"
  using pools_step_map' [of ovs ovs' k] by (fastforce simp: fresh_def ovl_step_def)

definition overlays_inv :: "(string \<times> overlay) list \<Rightarrow> bool" where
  "overlays_inv ovs \<longleftrightarrow> (\<forall>k ov. map_of ovs k = Some ov \<longrightarrow> ovl_inv ov)"

lemma overlays_inv_step: "overlays_inv ovs \<Longrightarrow> pools_step ovs ovs' \<Longrightarrow> overlays_inv ovs'"
  using pools_step_map' [of ovs ovs'] by (fastforce simp: overlays_inv_def ovl_step_def)

lemma reserve6_ovl_frame: "ovl_reserve6 lib ov n = Ok ov' \<Longrightarrow> \<exists>s. ov' = ov\<lparr>ov_freeNetworks6 := s\<rparr>"
  by (cases "naddr n"; cases "netmask n") (auto simp: ovl_reserve6_def res_simps split: ip.splits if_splits)

lemma reserve4_ovl_frame: "ovl_reserve lib ov n = Ok ov' \<Longrightarrow> \<exists>s. ov' = ov\<lparr>ov_freeNetworks := s\<rparr>"
  by (cases "naddr n"; cases "netmask n") (auto simp: ovl_reserve_def res_simps split: ip.splits if_splits)

lemma recover_subnet6_step:
  "recover_subnet lib f (ovl_reserve6 lib) k subnet ovs = Ok ovs' \<Longrightarrow> pools_step ovs ovs'"
proof (cases subnet)
  case (Some s)
  assume "recover_subnet lib f (ovl_reserve6 lib) k subnet ovs = Ok ovs'"
  with Some obtain n ov ov' where "map_of ovs k = Some ov" "ovl_reserve6 lib ov n = Ok ov'"
    "ovs' = hm_update ovs k ov'" by (auto simp: recover_subnet_def res_simps split: option.splits)
  moreover from this(2) reserve6_ovl_frame have "ovl_step ov ov'" by (fastforce simp: ovl_step_def)
  ultimately show ?thesis using pools_step_update by blast
qed (simp add: recover_subnet_def)

context stout_lib
begin

lemma recover_subnet4:
  assumes "overlays_inv ovs"
    "recover_subnet lib AF_INET (ovl_reserve lib) k subnet ovs = Ok ovs'"
    "\<And>s. subnet = Some s \<Longrightarrow> \<exists>n. network_parse lib AF_INET s = Ok n \<and> aligned_net n"
  shows "pools_step ovs ovs' \<and> (\<forall>s n. subnet = Some s \<longrightarrow> network_parse lib AF_INET s = Ok n \<longrightarrow>
      fresh ovs k n \<and> taken ovs' k n)"
proof (cases subnet)
  case None
  with assms(2) show ?thesis by (simp add: recover_subnet_def)
next
  case (Some s)
  with assms(2) obtain n ov ov' where r: "network_parse lib AF_INET s = Ok n" "map_of ovs k = Some ov"
    "ovl_reserve lib ov n = Ok ov'" "ovs' = hm_update ovs k ov'"
    by (auto simp: recover_subnet_def res_simps split: option.splits)
  from assms(1) r(2) have inv: "ovl_inv ov" by (auto simp: overlays_inv_def)
  have "aligned_net n" using assms(3) [OF Some] r(1) by simp
  note fr = ovl_reserve_free [OF inv r(3) this]
  from ovl_reserve_spec [OF inv fr] r(3) have
    f: "ovl_inv ov'" "ovl_free_set ov' = ovl_free_set ov - {n}" "ovl_univ ov' = ovl_univ ov" by auto
  from reserve4_ovl_frame [OF r(3)] f have "ovl_step ov ov'" by (auto simp: ovl_step_def)
  from pools_step_update [OF r(2) this] have st: "pools_step ovs ovs'" by (simp add: r(4))
  have "n \<in> ovl_univ ov" using ovl_free_subset [OF inv] fr by blast
  with r fr f have "fresh ovs k n \<and> taken ovs' k n"
    by (auto simp: fresh_def taken_def hm_simps)
  with st Some r(1) show ?thesis by simp
qed

text \<open>The VTEP addresses: one reservation per address string of the entry.\<close>

definition reserved_from :: "vtep \<Rightarrow> vtep \<Rightarrow> string \<Rightarrow> bool" where
  "reserved_from v v' s \<longleftrightarrow>
     (\<exists>n. network_parse lib AF_INET s = Ok n \<and> naddr n \<in> covers (vt_freeIP v) \<and>
        naddr n \<notin> covers (vt_freeIP v'))"

lemma reserved_from_mono:
  "vtep_step u v \<Longrightarrow> vtep_step w x \<Longrightarrow> reserved_from v w s \<Longrightarrow> reserved_from u x s"
  by (auto simp: reserved_from_def vtep_step_def)

lemma vtep_reserve_step:
  assumes "vtep_inv v" "vtep_reserve lib v n = Ok v'"
  shows "vtep_step v v'" "naddr n \<in> covers (vt_freeIP v)" "naddr n \<notin> covers (vt_freeIP v')"
proof -
  from assms(2) obtain c where c: "naddr n = V4 c" "iv_contains (ip_ivs lib) (vt_freeIP v) (V4 c)"
    "v' = v\<lparr>vt_freeIP := iv_remove (ip_ivs lib) (vt_freeIP v) (V4 c)\<rparr>"
    by (auto simp: vtep_reserve_def split: ip.splits if_splits)
  have m: "V4 c \<in> covers (vt_freeIP v)" using c(2) assms(1) by (simp add: ips.contains_iff vtep_inv_def)
  have "V4 c \<in> vtep_hosts (vt_network v)" using m assms(1) by (auto simp: vtep_inv_def)
  then have "cell ip_succ (V4 c) = {V4 c}" by (rule vtep_hostE [OF assms(1)]) auto
  then have cv: "covers (vt_freeIP v') = covers (vt_freeIP v) - {V4 c}"
    using assms(1) by (simp add: c(3) ips.covers_remove vtep_inv_def)
  have "vtep_inv v'" using vtep_remove [OF assms(1) m] by (simp add: Let_def c(3))
  with c m cv show "vtep_step v v'" "naddr n \<in> covers (vt_freeIP v)" "naddr n \<notin> covers (vt_freeIP v')"
    by (auto simp: vtep_step_def)
qed

lemma recover_vtep4:
  assumes "vtep_inv v" "recover_vtep lib AF_INET (vtep_reserve lib) s v r = Ok (v', r')"
  shows "vtep_step v v'" "s \<in> set r'" "set r \<subseteq> set r'"
    "t \<in> set r' \<Longrightarrow> t \<in> set r \<or> reserved_from v v' t"
proof -
  have "vtep_step v v' \<and> s \<in> set r' \<and> set r \<subseteq> set r' \<and>
      (t \<in> set r' \<longrightarrow> t \<in> set r \<or> reserved_from v v' t)"
  proof (cases "s \<in> set r")
    case True
    with assms(2) show ?thesis by (simp add: recover_vtep_def)
  next
    case False
    with assms(2) obtain n where n: "network_parse lib AF_INET s = Ok n"
      "vtep_reserve lib v n = Ok v'" "r' = s # r" by (auto simp: recover_vtep_def res_simps)
    with vtep_reserve_step [OF assms(1) n(2)] show ?thesis by (auto simp: reserved_from_def)
  qed
  then show "vtep_step v v'" "s \<in> set r'" "set r \<subseteq> set r'"
    "t \<in> set r' \<Longrightarrow> t \<in> set r \<or> reserved_from v v' t" by blast+
qed

lemma recover_vtep6_step:
  "recover_vtep lib f (vtep_reserve6 lib) s v r = Ok (v', r') \<Longrightarrow> vtep_step v v'"
  using reserve6_frame [of lib v] by (fastforce simp: recover_vtep_def res_simps split: if_splits)

definition entry_ok :: "agent_overlay_info \<Rightarrow> bool" where
  "entry_ok ao \<longleftrightarrow>
     (\<forall>s. ao_subnet ao = Some s \<longrightarrow> (\<exists>n. network_parse lib AF_INET s = Ok n \<and> aligned_net n))"

definition entry_reserved ::
  "(string \<times> overlay) list \<Rightarrow> (string \<times> overlay) list \<Rightarrow> agent_overlay_info \<Rightarrow> bool" where
  "entry_reserved ovs ovs' ao \<longleftrightarrow>
     (\<forall>s n. ao_subnet ao = Some s \<longrightarrow> network_parse lib AF_INET s = Ok n \<longrightarrow>
        fresh ovs (ao_name ao) n \<and> taken ovs' (ao_name ao) n)"

lemma entry_reserved_mono:
  "pools_step ovs0 ovs \<Longrightarrow> pools_step ovs' ovs1 \<Longrightarrow> entry_reserved ovs ovs' ao \<Longrightarrow>
   entry_reserved ovs0 ovs1 ao"
  unfolding entry_reserved_def using fresh_step taken_step by blast

lemma recover_overlay_spec:
  assumes "overlays_inv ovs" "vtep_inv v" "entry_ok ao"
    "recover_overlay lib ao (ovs, v, r4, r6) = Ok (ovs', v', r4', r6')"
  shows "pools_step ovs ovs'" "vtep_step v v'" "entry_reserved ovs ovs' ao"
    "vtep_str (ao_backend ao) \<in> set r4'" "set r4 \<subseteq> set r4'"
    "\<forall>t \<in> set r4'. t \<in> set r4 \<or> reserved_from v v' t"
proof -
  from assms(4) obtain ovs1 v1 where
    r4: "recover_subnet lib AF_INET (ovl_reserve lib) (ao_name ao) (ao_subnet ao) ovs = Ok ovs1" and
    r6: "recover_subnet lib AF_INET6 (ovl_reserve6 lib) (ao_name ao) (ao_subnet6 ao) ovs1 = Ok ovs'" and
    v4: "recover_vtep lib AF_INET (vtep_reserve lib) (vtep_str (ao_backend ao)) v r4 = Ok (v1, r4')" and
    v6: "v' = v1 \<or> (\<exists>s6. recover_vtep lib AF_INET6 (vtep_reserve6 lib) s6 v1 r6 = Ok (v', r6'))"
    by (auto simp: recover_overlay_def vtep_str_def res_simps split: option.splits prod.splits)
  from recover_subnet4 [OF assms(1) r4] assms(3) have
    s4: "pools_step ovs ovs1" "entry_reserved ovs ovs1 ao" by (auto simp: entry_ok_def entry_reserved_def)
  note s6 = recover_subnet6_step [OF r6]
  show "pools_step ovs ovs'" by (rule pools_step_trans [OF s4(1) s6])
  show "entry_reserved ovs ovs' ao" by (rule entry_reserved_mono [OF pools_step_refl s6 s4(2)])
  note w = recover_vtep4 [OF assms(2) v4]
  have w6: "vtep_step v1 v'" using v6 recover_vtep6_step by auto
  show "vtep_step v v'" by (rule vtep_step_trans [OF w(1) w6])
  show "vtep_str (ao_backend ao) \<in> set r4'" "set r4 \<subseteq> set r4'" by (rule w(2), rule w(3))
  show "\<forall>t \<in> set r4'. t \<in> set r4 \<or> reserved_from v v' t"
    using w(4) reserved_from_mono [OF vtep_step_refl w6] by blast
qed

lemma recover_overlays_spec:
  "overlays_inv ovs \<Longrightarrow> vtep_inv v \<Longrightarrow> \<forall>ao \<in> set aos. entry_ok ao \<Longrightarrow>
   recover_overlays lib aos (ovs, v, r4, r6) = Ok (ovs', v', r4', r6') \<Longrightarrow>
   pools_step ovs ovs' \<and> vtep_step v v' \<and> (\<forall>ao \<in> set aos. entry_reserved ovs ovs' ao) \<and>
   set r4 \<subseteq> set r4' \<and> (\<forall>ao \<in> set aos. vtep_str (ao_backend ao) \<in> set r4') \<and>
   (\<forall>t \<in> set r4'. t \<in> set r4 \<or> reserved_from v v' t)"
proof (induction aos arbitrary: ovs v r4 r6)
  case Nil
  then show ?case by simp
next
  case (Cons ao aos)
  from Cons.prems(4) obtain ovs1 v1 q4 q6 where
    one: "recover_overlay lib ao (ovs, v, r4, r6) = Ok (ovs1, v1, q4, q6)" and
    rest: "recover_overlays lib aos (ovs1, v1, q4, q6) = Ok (ovs', v', r4', r6')"
    by (auto simp: res_simps)
  from Cons.prems(3) have e: "entry_ok ao" "\<forall>ao \<in> set aos. entry_ok ao" by simp_all
  note a = recover_overlay_spec [OF Cons.prems(1,2) e(1) one]
  have inv: "overlays_inv ovs1" "vtep_inv v1"
    using overlays_inv_step [OF Cons.prems(1) a(1)] a(2) Cons.prems(2) by (auto simp: vtep_step_def)
  from Cons.IH [OF inv e(2) rest] have
    b: "pools_step ovs1 ovs'" "vtep_step v1 v'" "\<forall>ao \<in> set aos. entry_reserved ovs1 ovs' ao"
      "set q4 \<subseteq> set r4'" "\<forall>ao \<in> set aos. vtep_str (ao_backend ao) \<in> set r4'"
      "\<forall>t \<in> set r4'. t \<in> set q4 \<or> reserved_from v1 v' t" by blast+
  have "\<forall>t \<in> set r4'. t \<in> set r4 \<or> reserved_from v v' t"
    using b(6) a(6) reserved_from_mono [OF vtep_step_refl b(2)] reserved_from_mono [OF a(2) vtep_step_refl]
    by blast
  moreover have "\<forall>ao' \<in> set (ao # aos). entry_reserved ovs ovs' ao'"
    using a(3) b(3) entry_reserved_mono [OF pools_step_refl b(1)]
      entry_reserved_mono [OF a(1) pools_step_refl] by auto
  ultimately show ?case
    using a b pools_step_trans [OF a(1) b(1)] vtep_step_trans [OF a(2) b(2)] by auto
qed

section \<open>The recovered records\<close>

lemma agent_create_fields:
  assumes "agent_create lib info = Ok a" "distinct (map ao_name (ai_overlays info))"
  shows "ag_overlays a = map (\<lambda>ao. (ao_name ao, clear_state ao)) (ai_overlays info)"
    "ag_backend a = (case ai_overlays info of [] \<Rightarrow> None | ao # _ \<Rightarrow> Some (ao_backend ao))"
proof -
  obtain be where be: "be = (case ai_overlays info of [] \<Rightarrow> None | ao # _ \<Rightarrow> Some (ao_backend ao))" by blast
  from assms(1) obtain ip where ip: "a = clearOverlaysState
      (fold addOverlay (ai_overlays info) \<lparr>ag_backend = be, ag_overlays = [], ag_ip = ip\<rparr>)"
    by (auto simp: agent_create_def res_simps Let_def be)
  let ?kvs = "map (\<lambda>ao. (ao_name ao, ao)) (ai_overlays info)"
  have "map snd ?kvs = ai_overlays info" "distinct (map fst ?kvs)"
    using assms(2) by (simp_all add: comp_def)
  with fold_addOverlay [of ?kvs "\<lparr>ag_backend = be, ag_overlays = [], ag_ip = ip\<rparr>"] ip
  have "a = clearOverlaysState \<lparr>ag_backend = be, ag_overlays = ?kvs, ag_ip = ip\<rparr>" by auto
  then show "ag_overlays a = map (\<lambda>ao. (ao_name ao, clear_state ao)) (ai_overlays info)"
    "ag_backend a = (case ai_overlays info of [] \<Rightarrow> None | ao # _ \<Rightarrow> Some (ao_backend ao))"
    by (simp_all add: clearOverlaysState_def be)
qed

lemma created_agent_wf:
  assumes "agent_create lib info = Ok a" "info_ok lib info"
    "\<forall>ao \<in> set (ai_overlays info). is_ok (network_parse lib AF_INET (vtep_str (ao_backend ao)))"
  shows "agent_wf lib (ag_ip a) a"
    "agent_subnet lib a k n \<Longrightarrow> \<exists>ao \<in> set (ai_overlays info). \<exists>s. ao_name ao = k \<and>
       ao_subnet ao = Some s \<and> network_parse lib AF_INET s = Ok n"
    "agent_vtep lib a x \<Longrightarrow> \<exists>ao \<in> set (ai_overlays info). \<exists>n.
       network_parse lib AF_INET (vtep_str (ao_backend ao)) = Ok n \<and> naddr n = x"
proof -
  have d: "distinct (map ao_name (ai_overlays info))" using assms(2) by (simp add: info_ok_def)
  note f = agent_create_fields [OF assms(1) d]
  have "\<exists>be. ag_backend a = Some be \<and> vtep_str (ao_backend ao) = vtep_str be"
    if "ao \<in> set (ai_overlays info)" for ao
    using assms(2) that by (cases "ai_overlays info") (auto simp: f(2) info_ok_def)
  moreover have "is_ok (network_parse lib AF_INET s)"
    if "ao \<in> set (ai_overlays info)" "ao_subnet ao = Some s" for ao s
    using assms(2) that by (fastforce simp: info_ok_def)
  moreover have "is_ok (network_parse lib AF_INET (vtep_str be))" if "ag_backend a = Some be" for be
    using assms(3) that by (cases "ai_overlays info") (auto simp: f(2))
  ultimately show "agent_wf lib (ag_ip a) a"
    using d by (auto simp: agent_wf_def f(1) hm_keys_def comp_def)
  show "\<exists>ao \<in> set (ai_overlays info). \<exists>s. ao_name ao = k \<and>
       ao_subnet ao = Some s \<and> network_parse lib AF_INET s = Ok n" if "agent_subnet lib a k n"
    using that by (fastforce simp: agent_subnet_def f(1) dest!: map_of_SomeD)
  show "\<exists>ao \<in> set (ai_overlays info). \<exists>n.
       network_parse lib AF_INET (vtep_str (ao_backend ao)) = Ok n \<and> naddr n = x" if "agent_vtep lib a x"
    using that by (auto simp: agent_vtep_def f(2) split: list.splits)
qed

lemma recover_one_pools:
  assumes "pools_inv lib ovs v agents" "info_ok lib info" "agent_create lib info = Ok a"
    "recover_overlays lib (ai_overlays info) (ovs, v, [], []) = Ok (ovs', v', r4, r6)"
  shows "pools_inv lib ovs' v' (if agents (ag_ip a) = None then agents(ag_ip a \<mapsto> a) else agents)"
    "shape ovs' = shape ovs"
proof -
  note inv = pools_invD [OF assms(1)]
  have oi: "overlays_inv ovs" using map_of_ovl_inv [OF inv(3)] by (auto simp: overlays_inv_def)
  have eo: "\<forall>ao \<in> set (ai_overlays info). entry_ok ao" using assms(2) by (simp add: info_ok_def entry_ok_def)
  from recover_overlays_spec [OF oi inv(1) eo assms(4)] have
    st: "pools_step ovs ovs'" "vtep_step v v'" and
    er: "\<forall>ao \<in> set (ai_overlays info). entry_reserved ovs ovs' ao" and
    vr: "\<forall>ao \<in> set (ai_overlays info). reserved_from v v' (vtep_str (ao_backend ao))" by auto
  note p = pools_inv_step [OF assms(1) st]
  have "\<forall>ao \<in> set (ai_overlays info). is_ok (network_parse lib AF_INET (vtep_str (ao_backend ao)))"
    using vr by (fastforce simp: reserved_from_def)
  note wf = created_agent_wf [OF assms(3,2) this]
  have "pools_inv lib ovs' v' (agents(ag_ip a \<mapsto> a))"
  proof (rule pools_inv_agent [OF p wf(1)])
    fix k n assume "agent_subnet lib a k n"
    from wf(2) [OF this] er have fr: "fresh ovs k n" "taken ovs' k n" by (auto simp: entry_reserved_def)
    moreover have "\<not> holds_subnet lib agents ip' k n" for ip'
      using inv(5) [of ip' k n] fr(1) by (auto simp: fresh_def)
    ultimately show "(\<exists>ov. map_of ovs' k = Some ov \<and> n \<in> ovl_univ ov \<and> n \<notin> ovl_free_set ov) \<and>
       (\<forall>ip'. ip' \<noteq> ag_ip a \<longrightarrow> \<not> holds_subnet lib agents ip' k n)" by (simp add: taken_def)
  next
    fix x assume "agent_vtep lib a x"
    from wf(3) [OF this] vr have x: "x \<in> covers (vt_freeIP v)" "x \<notin> covers (vt_freeIP v')"
      by (auto simp: reserved_from_def)
    moreover have "\<not> holds_vtep lib agents ip' x" for ip' using inv(7) [of ip' x] x(1) by blast
    moreover have "x \<in> vtep_hosts (vt_network v')"
      using inv(1) x(1) st(2) by (auto simp: vtep_inv_def vtep_step_def)
    ultimately show "x \<in> vtep_hosts (vt_network v') \<and> x \<notin> covers (vt_freeIP v') \<and>
       (\<forall>ip'. ip' \<noteq> ag_ip a \<longrightarrow> \<not> holds_vtep lib agents ip' x)" by simp
  qed
  with p show "pools_inv lib ovs' v' (if agents (ag_ip a) = None then agents(ag_ip a \<mapsto> a) else agents)"
    by simp
  show "shape ovs' = shape ovs" by (rule pools_step_shape [OF st(1)])
qed

lemma recover_agents_pools:
  "pools_inv lib ovs v agents \<Longrightarrow> \<forall>info \<in> set infos. info_ok lib info \<Longrightarrow>
   recover_agents lib infos ovs v agents = Ok (ovs', v', agents') \<Longrightarrow>
   pools_inv lib ovs' v' agents' \<and> shape ovs' = shape ovs"
proof (induction infos arbitrary: ovs v agents)
  case Nil
  then show ?case by simp
next
  case (Cons info infos)
  from Cons.prems(3) obtain a ovs1 v1 r4 r6 where
    a: "agent_create lib info = Ok a" and
    r: "recover_overlays lib (ai_overlays info) (ovs, v, [], []) = Ok (ovs1, v1, r4, r6)" and
    rest: "recover_agents lib infos ovs1 v1
       (if agents (ag_ip a) = None then agents(ag_ip a \<mapsto> a) else agents) = Ok (ovs', v', agents')"
    by (auto simp: res_simps Let_def)
  from Cons.prems(2) have "info_ok lib info" "\<forall>info \<in> set infos. info_ok lib info" by simp_all
  with Cons.IH [OF recover_one_pools(1) [OF Cons.prems(1) this(1) a r] this(2) rest]
    recover_one_pools(2) [OF Cons.prems(1) this(1) a r] show ?case by simp
qed

end

end
