(* ===== verification/MasterRuns.thy ===== *)
theory MasterRuns
  imports MasterRecovery
begin

text \<open>
  Runs of the master process: the invariant of its whole state (\<open>master_inv\<close>), its preservation by
  every handler, and what follows for the reachable states. The state fetched from the log is the
  environment's (\<open>event_ok\<close>); the states the master writes to it are well formed again.
\<close>

section \<open>The invariant of the process\<close>

fun op_ok :: "stout \<Rightarrow> operation \<Rightarrow> bool" where
  "op_ok lib (AddAgent info) \<longleftrightarrow> info_ok lib info"
| "op_ok lib (ModifyAgent info) \<longleftrightarrow> info_ok lib info"
| "op_ok lib (DeleteAgents ips) \<longleftrightarrow> True"

definition master_inv ::
  "stout \<Rightarrow> (string \<times> network option \<times> byte option) list \<Rightarrow> manager \<Rightarrow> bool" where
  \<comment> \<open>\<open>sh\<close> lists the overlays of the configuration, with their networks\<close>
  "master_inv lib sh m \<longleftrightarrow>
     shape (mg_overlays m) = sh \<and>
     pools_inv lib (mg_overlays m) (mg_vtep m) (mg_agents m) \<and> state_ok lib (mg_state m) \<and>
     (\<forall>st rs. mg_inflight m = Some (st, rs) \<longrightarrow> state_ok lib st) \<and>
     (\<forall>(op, w) \<in> set (mg_ops m). op_ok lib op)"

fun event_ok :: "stout \<Rightarrow> event \<Rightarrow> bool" where
  "event_ok lib (E_Fetched (Fetched st)) \<longleftrightarrow> state_ok lib st"
| "event_ok lib e \<longleftrightarrow> True"

fun action_ok :: "stout \<Rightarrow> action \<Rightarrow> bool" where
  "action_ok lib (Log_Store st) \<longleftrightarrow> state_ok lib st"
| "action_ok lib a \<longleftrightarrow> True"

definition handled_ok ::
  "stout \<Rightarrow> (string \<times> network option \<times> byte option) list \<Rightarrow> handled \<Rightarrow> bool" where
  \<comment> \<open>the next state keeps the invariant, and what is written to the log is well formed\<close>
  "handled_ok lib sh r \<longleftrightarrow>
     (case r of Ok (m, acts) \<Rightarrow> master_inv lib sh m \<and> list_all (action_ok lib) acts | _ \<Rightarrow> True)"

lemma handled_ok_simps [simp]:
  "handled_ok lib sh (Ok (m, acts)) \<longleftrightarrow> master_inv lib sh m \<and> list_all (action_ok lib) acts"
  "handled_ok lib sh (Error e)" "handled_ok lib sh (Crash c)"
  by (simp_all add: handled_ok_def)

lemma handled_ok_bind: "(\<And>x. r = Ok x \<Longrightarrow> handled_ok lib sh (f x)) \<Longrightarrow> handled_ok lib sh (bind_res r f)"
  by (cases r) simp_all

text \<open>The fields the invariant does not read.\<close>

lemma master_inv_frames [simp]:
  "master_inv lib sh (m\<lparr>mg_metrics := x\<rparr>) \<longleftrightarrow> master_inv lib sh m"
  "master_inv lib sh (m\<lparr>mg_due := d\<rparr>) \<longleftrightarrow> master_inv lib sh m"
  "master_inv lib sh (m\<lparr>mg_recovering := b\<rparr>) \<longleftrightarrow> master_inv lib sh m"
  "master_inv lib sh (m\<lparr>mg_storing := b\<rparr>) \<longleftrightarrow> master_inv lib sh m"
  "master_inv lib sh (m\<lparr>mg_stored := s\<rparr>) \<longleftrightarrow> master_inv lib sh m"
  "master_inv lib sh (m\<lparr>mg_terminated := b\<rparr>) \<longleftrightarrow> master_inv lib sh m"
  by (simp_all add: master_inv_def)

lemma master_inv_count [simp]: "master_inv lib sh (count f m) \<longleftrightarrow> master_inv lib sh m"
  by (simp add: count_def)

lemma master_inv_demote [simp]: "master_inv lib sh (demote m) \<longleftrightarrow> master_inv lib sh m"
  by (simp add: demote_def)

lemma count_fields [simp]:
  "mg_overlays (count f m) = mg_overlays m" "mg_vtep (count f m) = mg_vtep m"
  "mg_agents (count f m) = mg_agents m" "mg_state (count f m) = mg_state m"
  "mg_log (count f m) = mg_log m" "mg_stored (count f m) = mg_stored m"
  "mg_inflight (count f m) = mg_inflight m" "mg_ops (count f m) = mg_ops m"
  "mg_due (count f m) = mg_due m" "mg_storing (count f m) = mg_storing m"
  "mg_recovering (count f m) = mg_recovering m" "mg_terminated (count f m) = mg_terminated m"
  by (simp_all add: count_def)

lemma master_invI:
  assumes "shape (mg_overlays m) = sh" "pools_inv lib (mg_overlays m) (mg_vtep m) (mg_agents m)" "state_ok lib (mg_state m)"
    "\<And>st rs. mg_inflight m = Some (st, rs) \<Longrightarrow> state_ok lib st"
    "\<And>op w. (op, w) \<in> set (mg_ops m) \<Longrightarrow> op_ok lib op"
  shows "master_inv lib sh m"
  using assms unfolding master_inv_def by blast

lemma master_invD:
  assumes "master_inv lib sh m"
  shows "pools_inv lib (mg_overlays m) (mg_vtep m) (mg_agents m)" "state_ok lib (mg_state m)"
    "mg_inflight m = Some (st, rs) \<Longrightarrow> state_ok lib st" "(op, w) \<in> set (mg_ops m) \<Longrightarrow> op_ok lib op"
    "shape (mg_overlays m) = sh"
  using assms unfolding master_inv_def by blast+

lemma master_inv_pools:
  "master_inv lib sh m \<Longrightarrow> pools_inv lib ovs v agents \<Longrightarrow> shape ovs = sh \<Longrightarrow>
   master_inv lib sh (m\<lparr>mg_overlays := ovs, mg_vtep := v, mg_agents := agents\<rparr>)"
  by (simp add: master_inv_def)

section \<open>The log keeps it\<close>

lemma modify_first_set: "modify_first s info xs = Some ys \<Longrightarrow> set ys \<subseteq> insert info (set xs)"
  by (drule modify_first_Some) auto

lemma perform_state_ok:
  assumes "perform lib agents op st = Ok st'" "op_ok lib op" "state_ok lib st"
  shows "state_ok lib st'"
proof (cases op)
  case (AddAgent info)
  with assms show ?thesis by (auto simp: state_ok_def res_simps)
next
  case (ModifyAgent info)
  with assms obtain ys where "modify_first (ai_ip info) info (ns_agents st) = Some ys"
    "st' = st\<lparr>ns_agents := ys\<rparr>" by (auto simp: res_simps split: option.splits)
  with modify_first_set assms ModifyAgent show ?thesis by (fastforce simp: state_ok_def)
next
  case (DeleteAgents ips)
  with assms show ?thesis by (auto simp: state_ok_def delete_agents_eq)
qed

lemma apply_op_state_ok:
  "apply_op lib agents op st = Ok (st', ok) \<Longrightarrow> op_ok lib op \<Longrightarrow> state_ok lib st \<Longrightarrow> state_ok lib st'"
  using perform_state_ok by (auto simp: apply_op_def split: res.splits)

lemma apply_all_state_ok:
  "apply_all lib agents ops st = Ok (st', rs) \<Longrightarrow> \<forall>(op, w) \<in> set ops. op_ok lib op \<Longrightarrow>
   state_ok lib st \<Longrightarrow> state_ok lib st'"
proof (induction ops arbitrary: st rs)
  case (Cons ow ops)
  then show ?case using apply_op_state_ok by (cases ow) (fastforce simp: res_simps)
qed simp

lemma store_ok: "master_inv lib sh m \<Longrightarrow> handled_ok lib sh (store lib m)"
  unfolding store_def
  by (auto intro!: handled_ok_bind simp: master_inv_def dest: apply_all_state_ok)

lemma update_op_ok:
  assumes "master_inv lib sh m" "op_ok lib op"
  shows "handled_ok lib sh (update_op lib op w m)"
proof (cases "mg_log m")
  case None
  show ?thesis
  proof (cases "perform lib (mg_agents m) op (mg_state m)")
    case (Ok st)
    with perform_state_ok [OF this assms(2) master_invD(2) [OF assms(1)]] assms(1) None show ?thesis
      by (simp add: update_op_def master_inv_def)
  qed (use None assms in \<open>auto simp: update_op_def\<close>)
next
  case (Some l)
  have "master_inv lib sh (m\<lparr>mg_ops := mg_ops m @ [(op, w)]\<rparr>)"
    using assms by (auto simp: master_inv_def)
  with store_ok [OF this] Some show ?thesis by (simp add: update_op_def Let_def)
qed

lemma store_done_ok:
  assumes "master_inv lib sh m" shows "handled_ok lib sh (store_done lib r m)"
proof (cases "mg_inflight m")
  case None
  with assms show ?thesis by (simp add: store_done_def)
next
  case (Some i)
  obtain st rs where i: "i = (st, rs)" by (cases i)
  let ?m = "m\<lparr>mg_storing := False, mg_inflight := None\<rparr>"
  have "state_ok lib st" using master_invD(3) [OF assms] Some i by simp
  with assms have "master_inv lib sh ?m" "master_inv lib sh (?m\<lparr>mg_state := st, mg_stored := Some st,
      mg_due := mg_due ?m @ map (\<lambda>(op, ok, w). (w, Ready ok)) rs\<rparr>)"
    by (simp_all add: master_inv_def)
  with store_ok show ?thesis by (simp add: store_done_def Some i Let_def)
qed

section \<open>Every handler keeps it\<close>

context stout_lib
begin

lemma addOverlays_shape:
  assumes "pools_inv lib ovs v agents" "addOverlays lib cfg ovs a mm = Ok (ovs', a', mm', mut)"
  shows "shape ovs' = shape ovs"
  using addOverlays_spec [OF pools_invD(3,2) [OF assms(1)] assms(2)] pools_step_shape by blast

lemma recovered_ok:
  assumes "master_inv lib sh m" "event_ok lib (E_Fetched r)"
  shows "handled_ok lib sh (recovered lib r m)"
proof (cases r)
  case Fetch_Failed
  with assms show ?thesis by (simp add: recovered_def)
next
  case (Fetched st)
  show ?thesis
  proof (cases "recover_agents lib (ns_agents st) (mg_overlays m) (mg_vtep m) (mg_agents m)")
    case (Ok p)
    obtain ovs v agents where p: "p = (ovs, v, agents)" by (cases p)
    have s: "\<forall>info \<in> set (ns_agents st). info_ok lib info" using assms(2) Fetched by (simp add: state_ok_def)
    from recover_agents_pools [OF master_invD(1) [OF assms(1)] s Ok [unfolded p]] have
      pi: "pools_inv lib ovs v agents" "shape ovs = shape (mg_overlays m)" by simp_all
    from pi s assms(1) master_invD(5) [OF assms(1)] have "master_inv lib sh (m\<lparr>mg_overlays := ovs, mg_vtep := v, mg_agents := agents,
        mg_state := \<lparr>ns_network = ns_network (mg_state m), ns_agents = map clear_info (ns_agents st)\<rparr>\<rparr>)"
      by (auto simp: master_inv_def state_ok_def)
    then show ?thesis using assms(1) Ok by (simp add: recovered_def recovery_done_def Fetched p master_inv_def)
  qed (use Fetched assms in \<open>auto simp: recovered_def\<close>)
qed

lemma register_reply_ok: "master_inv lib sh m \<Longrightarrow> handled_ok lib sh (register_reply pid aip r m)"
  by (auto simp: register_reply_def split: outcome.splits option.splits)

lemma reregister_overlays_ok:
  assumes "master_inv lib sh m" "mg_agents m aip = Some a0"
    "pools_inv lib (mg_overlays m) (mg_vtep m) ((mg_agents m)(aip \<mapsto> a))"
  shows "handled_ok lib sh (reregister_overlays lib pid aip a cfg m)"
  unfolding reregister_overlays_def
proof (intro handled_ok_bind)
  fix x assume x: "addOverlays lib cfg (mg_overlays m) a (mg_metrics m) = Ok x"
  obtain ovs a' mm mut where x': "x = (ovs, a', mm, mut)" by (cases x)
  from addOverlays_pools [where ip = aip, OF assms(3) _ x [unfolded x']] have
    p: "pools_inv lib ovs (mg_vtep m) ((mg_agents m)(aip \<mapsto> a'))" by simp
  then have i: "info_ok lib (getAgentInfo lib a')" by (rule info_ok_agent [where ip = aip]) simp
  let ?m = "m\<lparr>mg_overlays := ovs, mg_agents := (mg_agents m)(aip \<mapsto> a'), mg_metrics := mm\<rparr>"
  have m1: "master_inv lib sh ?m" using assms(1) p addOverlays_shape [OF assms(3) x [unfolded x']] by (simp add: master_inv_def)
  show "handled_ok lib sh (case x of (ovs, a', mm, mutated) \<Rightarrow>
       let m1 = m\<lparr>mg_overlays := ovs, mg_agents := (mg_agents m)(aip \<mapsto> a'), mg_metrics := mm\<rparr> in
       if mutated then update_op lib (ModifyAgent (getAgentInfo lib a')) (W_Register pid aip) m1
       else if list_ex (\<lambda>x. ai_ip x = show_ip lib aip) (ns_agents (mg_state m1))
       then register_reply pid aip (Ready True) m1
       else Ok (count register_dropped m1, []))"
    using update_op_ok [OF m1] register_reply_ok [OF m1] m1 i by (simp add: x' Let_def)
qed

lemma reregister_ok:
  assumes "master_inv lib sh m" "mg_agents m aip = Some a"
  shows "handled_ok lib sh (reregister lib pid aip a cfg m)"
proof -
  note pi = master_invD(1) [OF assms(1)]
  have same: "(mg_agents m)(aip \<mapsto> a) = mg_agents m" using assms(2) by auto
  have keep: "handled_ok lib sh (reregister_overlays lib pid aip a cfg m)"
    by (rule reregister_overlays_ok [OF assms]) (simp add: same pi)
  have up: "handled_ok lib sh (reregister_overlays lib pid aip (setBackendInfo (Some be') a) cfg
        (m\<lparr>mg_vtep := v\<rparr>))"
    if b: "ag_backend a = Some be" and al: "allocateIP6 lib (mg_vtep m) = Ok (n6, v)" and
      be': "vtep_str be' = vtep_str be" for be be' n6 v
  proof (rule reregister_overlays_ok)
    from allocateIP6_frame [OF al] have st: "vtep_step (mg_vtep m) v" by auto
    note p = pools_inv_step [OF pi pools_step_refl st]
    show "master_inv lib sh (m\<lparr>mg_vtep := v\<rparr>)" using assms(1) p by (simp add: master_inv_def)
    show "mg_agents (m\<lparr>mg_vtep := v\<rparr>) aip = Some a" using assms(2) by simp
    show "pools_inv lib (mg_overlays (m\<lparr>mg_vtep := v\<rparr>)) (mg_vtep (m\<lparr>mg_vtep := v\<rparr>))
        ((mg_agents (m\<lparr>mg_vtep := v\<rparr>))(aip \<mapsto> setBackendInfo (Some be') a))"
      using backend_pools [OF p assms(2) b be'] by simp
  qed
  show ?thesis
    unfolding reregister_def
  proof (intro handled_ok_bind)
    fix be assume "getBackendInfo a = Ok be"
    then have b: "ag_backend a = Some be" by (simp add: getBackendInfo_def res_simps)
    have v: "vtep_str (be\<lparr>be_vxlan := Some ((vxlan_of be)\<lparr>vx_vtep_ip6 := Some s\<rparr>)\<rparr>) = vtep_str be" for s
      by (simp add: vtep_str_def vxlan_of_def)
    show "handled_ok lib sh (if vt_network6 (mg_vtep m) \<noteq> None \<and> vx_vtep_ip6 (vxlan_of be) = None then
         (case allocateIP6 lib (mg_vtep m) of
            Crash c \<Rightarrow> Crash c
          | Error _ \<Rightarrow> Ok (count ip6_failed (count register_dropped m), [])
          | Ok (n6, v) \<Rightarrow>
              (let be' = be\<lparr>be_vxlan := Some ((vxlan_of be)\<lparr>vx_vtep_ip6 := Some (show_net lib n6)\<rparr>)\<rparr>
               in reregister_overlays lib pid aip (setBackendInfo (Some be') a) cfg (m\<lparr>mg_vtep := v\<rparr>)))
       else reregister_overlays lib pid aip a cfg m)"
      using keep assms(1) up [OF b _ v] by (auto split: res.split)
  qed
qed

lemma install_agent_ok:
  assumes "master_inv lib sh m"
    "pools_inv lib (mg_overlays m) (mg_vtep m)
       ((mg_agents m)(aip \<mapsto> \<lparr>ag_backend = Some be, ag_overlays = [], ag_ip = aip\<rparr>))"
  shows "handled_ok lib sh (install_agent lib pid aip be cfg m)"
  unfolding install_agent_def
proof (intro handled_ok_bind)
  let ?a = "\<lparr>ag_backend = Some be, ag_overlays = [], ag_ip = aip\<rparr>"
  fix x assume x: "addOverlays lib cfg (mg_overlays m) ?a (mg_metrics m) = Ok x"
  obtain ovs a' mm mut where x': "x = (ovs, a', mm, mut)" by (cases x)
  from addOverlays_pools [where ip = aip, OF assms(2) _ x [unfolded x']] have
    p: "pools_inv lib ovs (mg_vtep m) ((mg_agents m)(aip \<mapsto> a'))" by simp
  then have i: "info_ok lib (getAgentInfo lib a')" by (rule info_ok_agent [where ip = aip]) simp
  have m1: "master_inv lib sh (m\<lparr>mg_overlays := ovs, mg_agents := (mg_agents m)(aip \<mapsto> a'), mg_metrics := mm\<rparr>)"
    using assms(1) p addOverlays_shape [OF assms(2) x [unfolded x']] by (simp add: master_inv_def)
  show "handled_ok lib sh (case x of (ovs, a, mm, _) \<Rightarrow>
       update_op lib (AddAgent (getAgentInfo lib a)) (W_Register pid aip)
         (m\<lparr>mg_overlays := ovs, mg_agents := (mg_agents m)(aip \<mapsto> a), mg_metrics := mm\<rparr>))"
    using update_op_ok [OF m1] i by (simp add: x')
qed

lemma register_new_ok:
  assumes "master_inv lib sh m" "mg_agents m aip = None"
  shows "handled_ok lib sh (register_new lib pid aip cfg m)"
proof (cases "allocateIP lib (mg_vtep m)")
  case (Ok p4)
  obtain n4 v1 where p4: "p4 = (n4, v1)" by (cases p4)
  note pi = master_invD(1) [OF assms(1)]
  note al = Ok [unfolded p4]
  have "vtep_step (mg_vtep m) v1" by (rule vtep_alloc_pools [OF pools_invD(1) [OF pi] al])
  note st1 = this
  have keep: "master_inv lib sh (m\<lparr>mg_vtep := v\<rparr>)" if "vtep_step (mg_vtep m) v" for v
    using assms(1) pools_inv_step [OF pi pools_step_refl that] by (simp add: master_inv_def)
  show ?thesis
  proof (cases "take_vtep6 lib v1")
    case (Ok p6)
    obtain n6 v2 where p6: "p6 = (n6, v2)" by (cases p6)
    note t6 = Ok [unfolded p6]
    have st2: "vtep_step (mg_vtep m) v2" by (rule vtep_step_trans [OF st1 take_vtep6_step [OF t6]])
    have i: "handled_ok lib sh (install_agent lib pid aip \<lparr>be_vxlan = Some (new_vxlan lib v2 n4 mac n6)\<rparr> cfg
        (m\<lparr>mg_vtep := v2\<rparr>))" for mac
    proof (rule install_agent_ok [OF keep [OF st2]])
      have "vtep_str \<lparr>be_vxlan = Some (new_vxlan lib v2 n4 mac n6)\<rparr> = show_net lib n4"
        by (simp add: vtep_str_def vxlan_of_def new_vxlan_def)
      from new_agent_pools [OF pi assms(2) al t6 this] show
        "pools_inv lib (mg_overlays (m\<lparr>mg_vtep := v2\<rparr>)) (mg_vtep (m\<lparr>mg_vtep := v2\<rparr>))
          ((mg_agents (m\<lparr>mg_vtep := v2\<rparr>))(aip \<mapsto> \<lparr>ag_backend =
             Some \<lparr>be_vxlan = Some (new_vxlan lib v2 n4 mac n6)\<rparr>, ag_overlays = [], ag_ip = aip\<rparr>))"
        by simp
    qed
    show ?thesis
      using i keep [OF st2] by (auto simp: register_new_def al t6 split: res.split)
  qed (use keep [OF st1] in \<open>auto simp: register_new_def al\<close>)
qed (use assms in \<open>auto simp: register_new_def\<close>)

lemma registerAgent_ok:
  assumes "master_inv lib sh m" shows "handled_ok lib sh (registerAgent lib pid cfg m)"
proof -
  have "handled_ok lib sh (recover m')" if "master_inv lib sh m'" for m'
    using that by (simp add: recover_def)
  then show ?thesis
    unfolding registerAgent_def Let_def
    using assms by (auto intro!: handled_ok_bind reregister_ok register_new_ok split: option.split)
qed

lemma acknowledge_ok:
  assumes "master_inv lib sh m" "mg_agents m aip = Some a" "update_states aos a = Ok a'"
  shows "handled_ok lib sh
    (let m1 = m\<lparr>mg_agents := (mg_agents m)(aip \<mapsto> a')\<rparr> in
      (case modify_first (show_ip lib aip) (getAgentInfo lib a') (ns_agents (mg_state m1)) of
         Some infos \<Rightarrow>
           Ok (count (\<lambda>mm. mm\<lparr>mm_acks_sent := mm_acks_sent mm + 1\<rparr>)
                 (m1\<lparr>mg_state := (mg_state m1)\<lparr>ns_agents := infos\<rparr>\<rparr>), [Send_Ack from])
       | None \<Rightarrow> Ok (count registered_dropped m1, [])))"
proof -
  note p = update_states_pools [OF master_invD(1) [OF assms(1)] assms(2,3)]
  then have i: "info_ok lib (getAgentInfo lib a')" by (rule info_ok_agent [where ip = aip]) simp
  have "\<forall>info \<in> set infos. info_ok lib info"
    if "modify_first (show_ip lib aip) (getAgentInfo lib a') (ns_agents (mg_state m)) = Some infos" for infos
    using modify_first_set [OF that] i master_invD(2) [OF assms(1)] by (auto simp: state_ok_def)
  with p assms(1) show ?thesis by (auto simp: Let_def master_inv_def state_ok_def split: option.split)
qed

lemma agentRegistered_ok:
  assumes "master_inv lib sh m" shows "handled_ok lib sh (agentRegistered lib from aos m)"
proof -
  have "handled_ok lib sh (bind_res (ip_convert (up_ip from)) (\<lambda>aip.
        case mg_agents c aip of
          None \<Rightarrow> Ok (count registered_dropped c, [])
        | Some a \<Rightarrow>
            bind_res (update_states aos a) (\<lambda>a'.
              let m1 = c\<lparr>mg_agents := (mg_agents c)(aip \<mapsto> a')\<rparr> in
              (case modify_first (show_ip lib aip) (getAgentInfo lib a') (ns_agents (mg_state m1)) of
                 Some infos \<Rightarrow>
                   Ok (count (\<lambda>mm. mm\<lparr>mm_acks_sent := mm_acks_sent mm + 1\<rparr>)
                         (m1\<lparr>mg_state := (mg_state m1)\<lparr>ns_agents := infos\<rparr>\<rparr>), [Send_Ack from])
               | None \<Rightarrow> Ok (count registered_dropped m1, [])))))" if "master_inv lib sh c" for c
  proof (intro handled_ok_bind, goal_cases)
    case (1 aip)
    show ?case
    proof (cases "mg_agents c aip")
      case (Some a)
      show ?thesis
        unfolding Some option.case by (rule handled_ok_bind, rule acknowledge_ok [OF that Some])
    qed (use that in simp)
  qed
  with assms show ?thesis
    by (simp only: agentRegistered_def Let_def [of "count _ _"] master_inv_count)
qed

lemma deleteAgents_inv:
  "master_inv lib sh m \<Longrightarrow> deleteAgents lib ips m = Ok m' \<Longrightarrow>
   master_inv lib sh m' \<and> mg_state m' = mg_state m"
proof (induction ips arbitrary: m)
  case (Cons ip ips)
  show ?case
  proof (cases "mg_agents m ip")
    case None
    with Cons show ?thesis by simp
  next
    case (Some a)
    with Cons.prems(2) obtain ovs v where d: "delete_agent lib a (mg_overlays m) (mg_vtep m) = Ok (ovs, v)"
      "deleteAgents lib ips
          (m\<lparr>mg_overlays := ovs, mg_vtep := v, mg_agents := (mg_agents m)(ip := None)\<rparr>) = Ok m'"
      by (auto simp: res_simps)
    note p = delete_agent_pools [OF master_invD(1) [OF Cons.prems(1)] Some d(1)]
    have "shape ovs = sh" using delete_agent_shape [OF d(1)] master_invD(5) [OF Cons.prems(1)] by simp
    from Cons.IH [OF master_inv_pools [OF Cons.prems(1) p this] d(2)] show ?thesis by simp
  qed
qed simp

lemma delete_reply_ok:
  assumes "master_inv lib sh m" shows "handled_ok lib sh (delete_reply lib strs r m)"
  using assms by (auto simp: delete_reply_def dest: deleteAgents_inv split: outcome.split res.split)

lemma deleteAgentsEndpoint_ok:
  assumes "master_inv lib sh m" shows "handled_ok lib sh (deleteAgentsEndpoint lib req m)"
proof -
  have "handled_ok lib sh (bind_res (update_op lib (DeleteAgents ips) (W_Delete ips) m)
      (\<lambda>(m', acts). Ok (m', acts @ [Http Pipe_Opened])))" for ips
    using update_op_ok [OF assms, of "DeleteAgents ips" "W_Delete ips"]
    by (auto intro!: handled_ok_bind)
  with assms show ?thesis by (auto simp: deleteAgentsEndpoint_def split: option.split)
qed

lemma handle_ok:
  assumes "master_inv lib sh m" "event_ok lib e" shows "handled_ok lib sh (handle lib e m)"
proof (cases e)
  case E_Due
  have "handled_ok lib sh (run_waiter lib w r m')" if "master_inv lib sh m'" for w r m'
    using that register_reply_ok delete_reply_ok by (cases w) auto
  with E_Due assms(1) show ?thesis by (auto split: list.split)
next
  case (E_Fetched r)
  with recovered_ok [OF assms(1)] assms(2) show ?thesis by simp
qed (use assms(1) registerAgent_ok agentRegistered_ok store_done_ok deleteAgentsEndpoint_ok
     in \<open>auto simp: stateEndpoint_def\<close>)

lemma step_ok:
  "step lib m e acts m' \<Longrightarrow> master_inv lib sh m \<Longrightarrow> event_ok lib e \<Longrightarrow>
   master_inv lib sh m' \<and> list_all (action_ok lib) acts"
  using handle_ok by (fastforce elim!: stepE)

lemma run_inv:
  "run lib m0 tr m \<Longrightarrow> master_inv lib sh m0 \<Longrightarrow> \<forall>(e, acts) \<in> set tr. event_ok lib e \<Longrightarrow>
   master_inv lib sh m \<and> (\<forall>(e, acts) \<in> set tr. list_all (action_ok lib) acts)"
proof (induction rule: run.induct)
  case (run_Step m0 tr m e acts m')
  then have "master_inv lib sh m" "\<forall>(e, acts) \<in> set tr. list_all (action_ok lib) acts" "event_ok lib e"
    by auto
  with step_ok [OF run_Step.hyps(2)] show ?case by auto
qed simp

end

end
