(* ===== verification/MasterSafety.thy ===== *)
theory MasterSafety
  imports MasterRuns
begin

text \<open>
  What the invariant gives for a master process started from the operator's configuration: in
  every reachable state the agents' VTEP addresses and subnets are disjoint, also after a recovery.
\<close>

section \<open>The initial state\<close>

text \<open>
  The configuration in its supported range; \<open>createManagerProcess\<close> checks none of these: the
  VTEP network has host addresses, and every IPv4 overlay is at least as large as the subnets it
  is divided into and does not end at 255.255.255.255.
\<close>

definition net_fits :: "network option \<Rightarrow> byte option \<Rightarrow> bool" where
  "net_fits n p \<longleftrightarrow>
     (case n of None \<Rightarrow> True
      | Some (Net (V4 a) q) \<Rightarrow> (case p of None \<Rightarrow> False | Some p \<Rightarrow> fits a q p)
      | Some (Net (V6 a) q) \<Rightarrow> False)"

definition well_configured :: "manager \<Rightarrow> bool" where
  "well_configured m \<longleftrightarrow>
     unat (nprefix (vt_network (mg_vtep m))) \<le> 31 \<and>
     list_all (\<lambda>(k, n, p). net_fits n p) (shape (mg_overlays m))"

lemma ovl_inv_new:
  assumes "stout_lib lib" "overlay_new lib name n4 n6 p4 p6 en = Ok ov" "net_fits n4 p4"
  shows "ovl_inv ov"
proof (cases n4)
  case None
  with overlay_new_no_network overlay_new_fields assms(2) show ?thesis by (fastforce simp: ovl_inv_def)
next
  case (Some n)
  with assms(3) obtain a q p where "n = Net (V4 a) q" "p4 = Some p" "fits a q p"
    by (auto simp: net_fits_def split: network.splits ip.splits option.splits)
  with stout_lib.overlay_new_inv(1) [OF assms(1)] assms(2) Some show ?thesis by blast
qed

lemma setup_overlay_new:
  assumes "setup_overlay lib info ovs space = Ok (ovs', space')"
  obtains n4 n6 p4 p6 ov where "ovs' = ovs @ [(oi_name info, ov)]"
    "overlay_new lib (oi_name info) n4 n6 p4 p6 (field_or True (oi_enabled info)) = Ok ov"
  using assms by (auto simp: setup_overlay_def res_simps hm_emplace_def split: if_splits)

lemma setup_overlays_new:
  "setup_overlays lib infos ovs space = Ok (ovs', space') \<Longrightarrow> (k, ov) \<in> set ovs' \<Longrightarrow>
   (k, ov) \<in> set ovs \<or> (\<exists>n4 n6 p4 p6 en. overlay_new lib k n4 n6 p4 p6 en = Ok ov)"
proof (induction infos arbitrary: ovs space)
  case (Cons info infos)
  from Cons.prems(1) obtain ovs1 space1 where s: "setup_overlay lib info ovs space = Ok (ovs1, space1)"
    "setup_overlays lib infos ovs1 space1 = Ok (ovs', space')" by (auto simp: res_simps)
  obtain n4 n6 p4 p6 ov1 where o: "ovs1 = ovs @ [(oi_name info, ov1)]"
    "overlay_new lib (oi_name info) n4 n6 p4 p6 (field_or True (oi_enabled info)) = Ok ov1"
    by (rule setup_overlay_new [OF s(1)])
  from Cons.IH [OF s(2) Cons.prems(2)] show ?case
  proof
    assume "(k, ov) \<in> set ovs1"
    then consider "(k, ov) \<in> set ovs" | "k = oi_name info" "ov = ov1" by (auto simp: o(1))
    then show ?thesis using o(2) by cases blast+
  qed blast
qed simp

text \<open>The invariant holds at the start, for the overlays that were configured.\<close>

lemma initial_inv:
  assumes "stout_lib lib" "createManagerProcess h lib junk mc = Ok m" "well_configured m"
  shows "master_inv lib (shape (mg_overlays m)) m"
proof -
  from assms(2) obtain vn oui n6 ovs sp log tmo where
    p: "network_parse lib AF_INET (nc_vtep_subnet (mc_network mc)) = Ok vn"
      "setup_overlays lib (nc_overlays (mc_network mc)) [] [] = Ok (ovs, sp)"
      "manager_new lib ovs vn n6 oui (map_option ucast (nc_vtep_mtu (mc_network mc))) (mc_network mc)
       log tmo = Ok m"
    by (rule createManagerProcess_parts)
  note f = manager_new_fields [OF p(3)]
  note v = vtep_new_network [OF f(6)]
  obtain a q where vn: "vn = Net (V4 a) q"
    using stout_lib.network_parse_Ok [OF assms(1) p(1)] by (cases vn) (auto elim: family4E)
  have "unat q \<le> 31" using assms(3) v vn by (simp add: well_configured_def)
  from stout_lib.vtep_new_inv(1) [OF assms(1) f(6) [unfolded vn] this] have vi: "vtep_inv (mg_vtep m)" .
  from stout_lib.setup_overlays_ok [OF assms(1) overlays_ok_empty p(2)] have
    "overlays_ok ovs sp" by blast
  then have d: "distinct (hm_keys ovs)" by (simp only: overlays_ok_def)
  have "ovl_inv ov" if m: "(k, ov) \<in> set ovs" for k ov
  proof -
    from setup_overlays_new [OF p(2) m] obtain n4 n6 p4 p6 en where
      n: "overlay_new lib k n4 n6 p4 p6 en = Ok ov" by auto
    have "net_fits (ov_network ov) (ov_prefix ov)"
      using assms(3) m by (auto simp: well_configured_def shape_def list_all_iff f(1))
    with ovl_inv_new [OF assms(1) n] overlay_new_fields [OF n] show ?thesis by simp
  qed
  then have "\<forall>(k, ov) \<in> set ovs. ovl_inv ov" by blast
  with vi d have "pools_inv lib (mg_overlays m) (mg_vtep m) (mg_agents m)"
    by (simp add: pools_inv_def f holds_subnet_def holds_vtep_def)
  then show ?thesis by (simp add: master_inv_def f state_ok_def)
qed

text \<open>The reachable states of a master that was created from a configuration in range.\<close>

definition reachable :: "stout \<Rightarrow> manager \<Rightarrow> manager \<Rightarrow> bool" where
  "reachable lib m0 m \<longleftrightarrow> (\<exists>tr. run lib m0 tr m \<and> (\<forall>(e, acts) \<in> set tr. event_ok lib e))"

lemma reachable_inv:
  assumes "stout_lib lib" "createManagerProcess h lib junk mc = Ok m0" "well_configured m0"
    "reachable lib m0 m"
  shows "master_inv lib (shape (mg_overlays m0)) m"
  using stout_lib.run_inv [OF assms(1) _ initial_inv [OF assms(1-3)]] assms(4)
  by (auto simp: reachable_def)

section \<open>Executing a run\<close>

fun exec ::
  "stout \<Rightarrow> event list \<Rightarrow> manager \<Rightarrow> (manager \<times> (event \<times> action list) list) option" where
  "exec lib [] m = Some (m, [])"
| "exec lib (e # es) m =
     (if mg_terminated m \<or> \<not> enabled e m then None
      else (case handle lib e m of
              Ok (m1, acts) \<Rightarrow> map_option (\<lambda>(m2, tr). (m2, (e, acts) # tr)) (exec lib es m1)
            | _ \<Rightarrow> None))"

lemma exec_run:
  "run lib m0 tr0 m \<Longrightarrow> exec lib es m = Some (m', tr) \<Longrightarrow> run lib m0 (tr0 @ tr) m' \<and> map fst tr = es"
proof (induction es arbitrary: m tr0 tr)
  case Nil
  then show ?case by simp
next
  case (Cons e es)
  from Cons.prems(2) obtain m1 acts tr1 where s: "\<not> mg_terminated m" "enabled e m"
    "handle lib e m = Ok (m1, acts)" "exec lib es m1 = Some (m', tr1)" "tr = (e, acts) # tr1"
    by (auto split: if_splits res.splits)
  have "run lib m0 (tr0 @ [(e, acts)]) m1"
    by (rule run_Step [OF Cons.prems(1)]) (rule step [OF s(1-3)])
  from Cons.IH [OF this s(4)] s(5) show ?case by simp
qed

lemma exec_reachable:
  assumes "exec lib es m0 = Some (m, tr)" "\<forall>e \<in> set es. event_ok lib e"
  shows "reachable lib m0 m"
proof -
  from exec_run [OF run_Nil assms(1)] have r: "run lib m0 tr m" "map fst tr = es" by simp_all
  then have "\<forall>(e, acts) \<in> set tr. event_ok lib e" using assms(2) by force
  with r(1) show ?thesis by (auto simp: reachable_def)
qed

text \<open>The runs of the witnesses: a master configured by \<open>config9\<close>, and two agents.\<close>

definition run9 :: "event list \<Rightarrow> (manager \<times> manager \<times> (event \<times> action list) list) option" where
  "run9 es =
     (case createManagerProcess host9 ref_lib (replicate 6 0) config9 of
        Ok m0 \<Rightarrow> map_option (\<lambda>(m, tr). (m0, m, tr)) (exec ref_lib es m0)
      | _ \<Rightarrow> None)"

lemma run9_Some:
  "run9 es = Some (m0, m, tr) \<Longrightarrow>
   createManagerProcess host9 ref_lib (replicate 6 0) config9 = Ok m0 \<and> exec ref_lib es m0 = Some (m, tr)"
  by (auto simp: run9_def split: res.splits)

definition pid9 :: "u32 \<Rightarrow> upid" where
  "pid9 a = \<lparr>up_id = ''overlay-agent'', up_ip = V4 a\<rparr>"

definition register9 :: "u32 \<Rightarrow> event" where
  "register9 a = E_Register (pid9 a) default_network_config"

definition events9 :: "event list" where
  "events9 = [register9 0x0A000001, E_Fetched (Fetched empty_state), register9 0x0A000001,
     register9 0x0A000002, E_Stored Store_Done, E_Due]"

lemma events9_ok: "\<forall>e \<in> set events9. event_ok ref_lib e"
  by (simp add: events9_def register9_def empty_state_def state_ok_def)

text \<open>The executable form of \<open>holds_vtep\<close> and \<open>holds_subnet\<close>.\<close>

definition vtep_of :: "stout \<Rightarrow> manager \<Rightarrow> ip \<Rightarrow> ip option" where
  "vtep_of lib m ip =
     (case Option.bind (mg_agents m ip) ag_backend of
        None \<Rightarrow> None
      | Some be \<Rightarrow> (case network_parse lib AF_INET (vtep_str be) of Ok n \<Rightarrow> Some (naddr n) | _ \<Rightarrow> None))"

definition subnet_of :: "stout \<Rightarrow> manager \<Rightarrow> ip \<Rightarrow> string \<Rightarrow> network option" where
  "subnet_of lib m ip k =
     (case Option.bind (Option.bind (mg_agents m ip) (\<lambda>a. map_of (ag_overlays a) k)) ao_subnet of
        None \<Rightarrow> None
      | Some s \<Rightarrow> (case network_parse lib AF_INET s of Ok n \<Rightarrow> Some n | _ \<Rightarrow> None))"

lemma holds_vtep_of: "holds_vtep lib (mg_agents m) ip x \<longleftrightarrow> vtep_of lib m ip = Some x"
  by (force simp: holds_vtep_def agent_vtep_def vtep_of_def bind_eq_Some_conv split: option.splits res.splits)

lemma holds_subnet_of: "holds_subnet lib (mg_agents m) ip k n \<longleftrightarrow> subnet_of lib m ip k = Some n"
  by (force simp: holds_subnet_def agent_subnet_def subnet_of_def bind_eq_Some_conv split: option.splits res.splits)

lemma config9_shape:
  "case createManagerProcess host9 ref_lib (replicate 6 0) config9 of
     Ok m \<Rightarrow> nprefix (vt_network (mg_vtep m)) = 29 \<and> shape (mg_overlays m) =
       [(''dcos'', Some (Net (V4 0x09000000) 22), Some 24), (''edge'', Some (Net (V4 0x0A000000) 22), Some 25)]
   | _ \<Rightarrow> False"
  by code_simp

lemma well_configured9:
  assumes "createManagerProcess host9 ref_lib (replicate 6 0) config9 = Ok m"
  shows "well_configured m"
proof -
  have "nprefix (vt_network (mg_vtep m)) = 29" "shape (mg_overlays m) =
       [(''dcos'', Some (Net (V4 0x09000000) 22), Some 24), (''edge'', Some (Net (V4 0x0A000000) 22), Some 25)]"
    using config9_shape assms by simp_all
  moreover have "fits 0x09000000 22 24" "fits 0x0A000000 22 25"
    by (simp_all add: fits_def last_block_def block_def host_bits_def mask4_def)
  ultimately show ?thesis by (simp add: well_configured_def net_fits_def)
qed

lemma run9_events9:
  "case run9 events9 of None \<Rightarrow> False
   | Some (m0, m, tr) \<Rightarrow>
       vtep_of ref_lib m (V4 0x0A000001) = Some (V4 0x2C800001) \<and>
       subnet_of ref_lib m (V4 0x0A000001) ''dcos'' = Some (Net (V4 0x09000000) 24) \<and>
       subnet_of ref_lib m (V4 0x0A000002) ''edge'' = Some (Net (V4 0x0A000080) 25)"
  by code_simp

lemma reached9:
  obtains m0 m where "createManagerProcess host9 ref_lib (replicate 6 0) config9 = Ok m0"
    "well_configured m0" "reachable ref_lib m0 m"
    "holds_vtep ref_lib (mg_agents m) (V4 0x0A000001) (V4 0x2C800001)"
    "holds_subnet ref_lib (mg_agents m) (V4 0x0A000001) ''dcos'' (Net (V4 0x09000000) 24)"
    "holds_subnet ref_lib (mg_agents m) (V4 0x0A000002) ''edge'' (Net (V4 0x0A000080) 25)"
proof -
  from run9_events9 obtain m0 m tr where r: "run9 events9 = Some (m0, m, tr)"
    and h: "vtep_of ref_lib m (V4 0x0A000001) = Some (V4 0x2C800001)"
      "subnet_of ref_lib m (V4 0x0A000001) ''dcos'' = Some (Net (V4 0x09000000) 24)"
      "subnet_of ref_lib m (V4 0x0A000002) ''edge'' = Some (Net (V4 0x0A000080) 25)"
    by (auto split: option.splits)
  from run9_Some [OF r] have c: "createManagerProcess host9 ref_lib (replicate 6 0) config9 = Ok m0"
    and e: "exec ref_lib events9 m0 = Some (m, tr)" by simp_all
  from that [OF c well_configured9 [OF c] exec_reachable [OF e events9_ok]] h show thesis
    by (simp add: holds_vtep_of holds_subnet_of)
qed

section \<open>Subnets of different overlays\<close>

lemma map_of_shape: "map_of (shape ovs) k = map_option (\<lambda>ov. (ov_network ov, ov_prefix ov)) (map_of ovs k)"
  by (induction ovs) (auto simp: shape_def)

context stout_lib
begin

lemma univ_range:
  assumes "ovl_inv ov" "n \<in> ovl_univ ov"
  shows "addr_range n \<noteq> {}" "addr_range n \<subseteq> ovl_range ov" "\<not> at_top ov"
proof -
  from ovl_univE [OF assms] obtain a q p c where
    o: "ov_network ov = Some (Net (V4 a) q)" "ov_prefix ov = Some p"
      "pool4 a q p (ov_freeNetworks ov)" "n = Net (V4 c) p" "aligned4 p c" "block q c = block q a" .
  from o(3) have f: "1 \<le> unat q" "unat q \<le> unat p" "unat p \<le> 32" "\<not> last_block p (a OR NOT (mask4 q))"
    by (auto simp: pool4_def fits_def)
  have rn: "addr_range n = {V4 d | d. block p d = block p c}"
    using f o(4) by (simp add: addr_range4)
  have ro: "ovl_range ov = {V4 d | d. block q d = block q a}"
    using f o(1) by (simp add: ovl_range_def addr_range4)
  show "addr_range n \<noteq> {}" unfolding rn by blast
  show "addr_range n \<subseteq> ovl_range ov"
  proof
    fix x assume "x \<in> addr_range n"
    then obtain d where d: "x = V4 d" "block p d = block p c" unfolding rn by blast
    from block_coarser_eq [OF f(2,3) d(2)] o(6) d(1) show "x \<in> ovl_range ov" unfolding ro by simp
  qed
  show "\<not> at_top ov"
  proof
    assume "at_top ov"
    with o(1) have e: "a OR NOT (mask4 q) = - 1" by (simp add: at_top_def)
    have "last_block p (- 1)"
      using less_next4_iff [of p "- 1" "- 1"] word_order.extremum_strict by auto
    with f(4) e show False by simp
  qed
qed

lemma same_overlay_disjoint:
  assumes "ovl_inv ov" "m \<in> ovl_univ ov" "n \<in> ovl_univ ov" "m \<noteq> n"
  shows "addr_range m \<inter> addr_range n = {}"
proof -
  from ovl_univE [OF assms(1,2)] obtain a q p c where
    m: "ov_network ov = Some (Net (V4 a) q)" "ov_prefix ov = Some p"
      "pool4 a q p (ov_freeNetworks ov)" "m = Net (V4 c) p" "aligned4 p c" .
  from ovl_univE [OF assms(1,3)] obtain d where n: "n = Net (V4 d) p" "aligned4 p d"
    using m(2) by (metis option.inject)
  have "1 \<le> unat p" "unat p \<le> 32" using m(3) by (auto simp: pool4_def fits_def)
  moreover have "block p c \<noteq> block p d"
    using m(4,5) n assms(4) by (auto simp: aligned4_iff word_unat_eq_iff)
  ultimately show ?thesis by (auto simp: m(4) n(1) addr_range4)
qed

end

lemma createManagerProcess_disjoint:
  assumes "stout_lib lib" "createManagerProcess h lib junk mc = Ok m"
    "(k, ov) \<in> set (mg_overlays m)" "(k', ov') \<in> set (mg_overlays m)" "k \<noteq> k'" "\<not> at_top ov" "\<not> at_top ov'"
  shows "ovl_range ov \<inter> ovl_range ov' = {}"
proof -
  from assms(2) obtain vn oui n6 ovs sp log tmo where
    p: "setup_overlays lib (nc_overlays (mc_network mc)) [] [] = Ok (ovs, sp)"
      "manager_new lib ovs vn n6 oui (map_option ucast (nc_vtep_mtu (mc_network mc))) (mc_network mc)
       log tmo = Ok m"
    by (rule createManagerProcess_parts)
  from stout_lib.setup_overlays_ok [OF assms(1) overlays_ok_empty p(1)] have "overlays_ok ovs sp" by simp
  then have "\<forall>(k, ov) \<in> set ovs. \<forall>(k', ov') \<in> set ovs. k \<noteq> k' \<longrightarrow> \<not> at_top ov \<longrightarrow>
      \<not> at_top ov' \<longrightarrow> ovl_range ov \<inter> ovl_range ov' = {}"
    unfolding overlays_ok_def by (elim conjE)
  from bspec [OF this assms(3) [unfolded manager_new_fields(1) [OF p(2)]]]
  have "\<forall>(k', ov') \<in> set ovs. k \<noteq> k' \<longrightarrow> \<not> at_top ov \<longrightarrow>
      \<not> at_top ov' \<longrightarrow> ovl_range ov \<inter> ovl_range ov' = {}" by (simp only: prod.case)
  from bspec [OF this assms(4) [unfolded manager_new_fields(1) [OF p(2)]]] assms(5-7) show ?thesis by simp
qed

lemma reachable_vteps_unique:
  assumes "stout_lib lib" "createManagerProcess h lib junk mc = Ok m0" "well_configured m0"
    "reachable lib m0 m" "holds_vtep lib (mg_agents m) ip x"
  shows "(\<forall>ip'. holds_vtep lib (mg_agents m) ip' x \<longrightarrow> ip' = ip) \<and>
    x \<in> vtep_hosts (vt_network (mg_vtep m)) \<and> x \<notin> covers (vt_freeIP (mg_vtep m))"
  using pools_invD(7,8) [OF master_invD(1) [OF reachable_inv [OF assms(1-4)]]] assms(5) by blast

lemma reachable_subnets_disjoint:
  assumes "stout_lib lib" "createManagerProcess h lib junk mc = Ok m0"
    "well_configured m0" "reachable lib m0 m"
    "holds_subnet lib (mg_agents m) ip k n" "holds_subnet lib (mg_agents m) ip' k' n'" "(ip, k) \<noteq> (ip', k')"
  shows "addr_range n \<noteq> {} \<and> addr_range n \<inter> addr_range n' = {} \<and>
    (\<exists>ov. map_of (mg_overlays m) k = Some ov \<and> n \<notin> ovl_free_set ov)"
proof -
  note inv = reachable_inv [OF assms(1-4)]
  note pi = pools_invD [OF master_invD(1) [OF inv]]
  from pi(5) [OF assms(5)] obtain ov where
    o: "map_of (mg_overlays m) k = Some ov" "n \<in> ovl_univ ov" "n \<notin> ovl_free_set ov" by blast
  from pi(5) [OF assms(6)] obtain ov' where
    o': "map_of (mg_overlays m) k' = Some ov'" "n' \<in> ovl_univ ov'" by blast
  have oi: "ovl_inv ov" "ovl_inv ov'" using map_of_ovl_inv [OF pi(3)] o(1) o'(1) by auto
  note r = stout_lib.univ_range [OF assms(1) oi(1) o(2)]
  note r' = stout_lib.univ_range [OF assms(1) oi(2) o'(2)]
  have "addr_range n \<inter> addr_range n' = {}"
  proof (cases "k = k'")
    case True
    with o(1) o'(1) have e: "ov' = ov" by simp
    have "n \<noteq> n'" using pi(6) [OF assms(5)] assms(6,7) True by auto
    with stout_lib.same_overlay_disjoint [OF assms(1) oi(1) o(2)] o'(2) e show ?thesis by simp
  next
    case False
    have "map_of (shape (mg_overlays m0)) = map_of (shape (mg_overlays m))"
      using master_invD(5) [OF inv] by simp
    then have sh: "map_option (\<lambda>ov. (ov_network ov, ov_prefix ov)) (map_of (mg_overlays m0) x) =
        map_option (\<lambda>ov. (ov_network ov, ov_prefix ov)) (map_of (mg_overlays m) x)" for x
      by (simp flip: map_of_shape)
    from sh [of k] o(1) obtain ov0 where a: "map_of (mg_overlays m0) k = Some ov0"
      "ov_network ov0 = ov_network ov" by (auto simp: map_option_case split: option.splits)
    from sh [of k'] o'(1) obtain ov0' where b: "map_of (mg_overlays m0) k' = Some ov0'"
      "ov_network ov0' = ov_network ov'" by (auto simp: map_option_case split: option.splits)
    have "ovl_range ov0 = ovl_range ov" "ovl_range ov0' = ovl_range ov'" "at_top ov0 = at_top ov"
      "at_top ov0' = at_top ov'" using a(2) b(2) by (simp_all add: ovl_range_def at_top_def)
    moreover have "ovl_range ov0 \<inter> ovl_range ov0' = {}" if "\<not> at_top ov0" "\<not> at_top ov0'"
      using createManagerProcess_disjoint [OF assms(1,2)] map_of_SomeD [OF a(1)] map_of_SomeD [OF b(1)]
        False that by blast
    ultimately show ?thesis using r(2,3) r'(2,3) by blast
  qed
  with r(1) o show ?thesis by blast
qed

section \<open>Properties\<close>

text \<open>
  C2: In every reachable state of a master process, no two agents hold the same VTEP address, and
  an address an agent holds is a host address of the VTEP network that the pool no longer offers.
\<close>

theorem vtep_addresses_unique:
  assumes "stout_lib lib" "createManagerProcess h lib junk mc = Ok m0" "well_configured m0"
    "reachable lib m0 m" "holds_vtep lib (mg_agents m) ip x"
  shows "(\<forall>ip'. holds_vtep lib (mg_agents m) ip' x \<longrightarrow> ip' = ip) \<and>
    x \<in> vtep_hosts (vt_network (mg_vtep m)) \<and> x \<notin> covers (vt_freeIP (mg_vtep m))"
  by (rule reachable_vteps_unique [OF assms])

text \<open>
  C1: In every reachable state of a master process, the address ranges of the IPv4 subnets that two
  different agents hold, of the same overlay or of two overlays, are disjoint, and no subnet that
  an agent holds is free in its overlay.
\<close>

theorem agent_subnets_disjoint:
  assumes "stout_lib lib" "createManagerProcess h lib junk mc = Ok m0"
    "well_configured m0" "reachable lib m0 m"
    "holds_subnet lib (mg_agents m) ip k n" "holds_subnet lib (mg_agents m) ip' k' n'" "(ip, k) \<noteq> (ip', k')"
  shows "addr_range n \<noteq> {} \<and> addr_range n \<inter> addr_range n' = {} \<and>
    (\<exists>ov. map_of (mg_overlays m) k = Some ov \<and> n \<notin> ovl_free_set ov)"
  by (rule reachable_subnets_disjoint [OF assms])

theorem vtep_addresses_unique_witness:
  "\<exists>m :: manager. holds_vtep ref_lib (mg_agents m) (V4 0x0A000001) (V4 0x2C800001) \<and>
     \<not> holds_vtep ref_lib (mg_agents m) (V4 0x0A000002) (V4 0x2C800001)"
proof -
  obtain m0 m where r:
    "createManagerProcess host9 ref_lib (replicate 6 0) config9 = Ok m0"
    "well_configured m0" "reachable ref_lib m0 m"
    "holds_vtep ref_lib (mg_agents m) (V4 0x0A000001) (V4 0x2C800001)" by (rule reached9)
  have "\<not> holds_vtep ref_lib (mg_agents m) (V4 0x0A000002) (V4 0x2C800001)"
  proof
    assume "holds_vtep ref_lib (mg_agents m) (V4 0x0A000002) (V4 0x2C800001)"
    with conjunct1 [OF vtep_addresses_unique [OF ref.stout_lib_axioms r]]
    have "V4 0x0A000002 = V4 0x0A000001" by (elim allE impE)
    then show False by simp
  qed
  with r(4) show ?thesis by (intro exI conjI)
qed

theorem agent_subnets_disjoint_witness:
  "addr_range (Net (V4 0x09000000) 24) \<inter> addr_range (Net (V4 0x0A000080) 25) = {}"
proof -
  obtain m0 m where r:
    "createManagerProcess host9 ref_lib (replicate 6 0) config9 = Ok m0"
    "well_configured m0" "reachable ref_lib m0 m"
    "holds_subnet ref_lib (mg_agents m) (V4 0x0A000001) ''dcos'' (Net (V4 0x09000000) 24)"
    "holds_subnet ref_lib (mg_agents m) (V4 0x0A000002) ''edge'' (Net (V4 0x0A000080) 25)" by (rule reached9)
  have "(V4 0x0A000001, ''dcos'') \<noteq> (V4 0x0A000002, ''edge'')" by simp
  from agent_subnets_disjoint [OF ref.stout_lib_axioms r this] show ?thesis by blast
qed

end
