(* ===== verification/MasterOrder.thy ===== *)
theory MasterOrder
  imports MasterSafety
begin

text \<open>
  How the master's steps are ordered: the queue of operations on the replicated log loses and
  reorders nothing, a finished write is always handled, and no step but a deletion takes an
  address or a subnet away from an agent.
\<close>

section \<open>The queue of operations\<close>

definition pending :: "manager \<Rightarrow> waiter list" where
  \<comment> \<open>who waits for an answer, in the order of the requests\<close>
  "pending m =
     map fst (mg_due m) @
     (case mg_inflight m of None \<Rightarrow> [] | Some (st, rs) \<Rightarrow> map (\<lambda>(op, ok, w). w) rs) @
     map snd (mg_ops m)"

definition log_inv :: "manager \<Rightarrow> bool" where
  "log_inv m \<longleftrightarrow>
     (mg_log m = None \<longrightarrow> mg_inflight m = None \<and> mg_ops m = []) \<and>
     (mg_storing m \<longleftrightarrow> mg_inflight m \<noteq> None) \<and>
     (mg_inflight m \<noteq> None \<longrightarrow> mg_stored m \<noteq> None) \<and>
     (mg_ops m \<noteq> [] \<longrightarrow> mg_storing m)"

text \<open>\<open>queued m r\<close>: what a handler that started in \<open>m\<close> leaves is consistent, unless it terminated
  the process, and the answers that were pending come first.\<close>

definition queued :: "manager \<Rightarrow> handled \<Rightarrow> bool" where
  "queued m r \<longleftrightarrow>
     (case r of
        Ok (m', acts) \<Rightarrow>
          \<not> mg_terminated m' \<longrightarrow> log_inv m' \<and> mg_log m' = mg_log m \<and> (\<exists>new. pending m' = pending m @ new)
      | _ \<Rightarrow> True)"

lemma queued_simps [simp]:
  "queued m (Ok (m', acts)) \<longleftrightarrow>
     (\<not> mg_terminated m' \<longrightarrow> log_inv m' \<and> mg_log m' = mg_log m \<and> (\<exists>new. pending m' = pending m @ new))"
  "queued m (Error e)" "queued m (Crash c)"
  by (simp_all add: queued_def)

lemma queued_bind: "(\<And>x. r = Ok x \<Longrightarrow> queued m (f x)) \<Longrightarrow> queued m (bind_res r f)"
  by (cases r) simp_all

lemma queued_from:
  "queued m0 r \<Longrightarrow> mg_log m0 = mg_log m \<Longrightarrow> pending m0 = pending m \<Longrightarrow> queued m r"
  by (auto simp: queued_def split: res.splits)

lemma pending_frames [simp]:
  "pending (m\<lparr>mg_metrics := x\<rparr>) = pending m" "pending (m\<lparr>mg_overlays := ovs\<rparr>) = pending m"
  "pending (m\<lparr>mg_agents := ags\<rparr>) = pending m" "pending (m\<lparr>mg_vtep := v\<rparr>) = pending m"
  "pending (m\<lparr>mg_state := st\<rparr>) = pending m" "pending (m\<lparr>mg_stored := s\<rparr>) = pending m"
  "pending (m\<lparr>mg_recovering := b\<rparr>) = pending m" "pending (m\<lparr>mg_storing := b\<rparr>) = pending m"
  by (simp_all add: pending_def)

lemma log_inv_frames [simp]:
  "log_inv (m\<lparr>mg_metrics := x\<rparr>) = log_inv m" "log_inv (m\<lparr>mg_overlays := ovs\<rparr>) = log_inv m"
  "log_inv (m\<lparr>mg_agents := ags\<rparr>) = log_inv m" "log_inv (m\<lparr>mg_vtep := v\<rparr>) = log_inv m"
  "log_inv (m\<lparr>mg_state := st\<rparr>) = log_inv m" "log_inv (m\<lparr>mg_recovering := b\<rparr>) = log_inv m"
  "log_inv (m\<lparr>mg_due := d\<rparr>) = log_inv m"
  by (simp_all add: log_inv_def)

lemma log_inv_stored [simp]: "log_inv m \<Longrightarrow> log_inv (m\<lparr>mg_stored := Some s\<rparr>)"
  by (auto simp: log_inv_def)

lemma count_queue [simp]: "pending (count f m) = pending m" "log_inv (count f m) = log_inv m"
  by (simp_all add: count_def)

lemma demote_terminated [simp]: "mg_terminated (demote m)"
  by (simp add: demote_def)

section \<open>The handlers and the queue\<close>

lemma apply_all_ops: "apply_all lib agents ops st = Ok (st', rs) \<Longrightarrow> map (\<lambda>(op, ok, w). (op, w)) rs = ops"
proof (induction ops arbitrary: st rs)
  case (Cons ow ops)
  then show ?case by (cases ow) (fastforce simp: res_simps)
qed simp

lemma waiters_of_ops: "map (\<lambda>(op, ok, w). (op, w)) rs = ops \<Longrightarrow> map (\<lambda>(op, ok, w). w) rs = map snd ops"
  by (induction rs arbitrary: ops) auto

lemma store_queued:
  assumes "mg_inflight m = None" "mg_stored m = None \<Longrightarrow> mg_log m = None"
  shows "queued m (store lib m)"
  using assms
  by (auto simp: store_def log_inv_def pending_def intro!: queued_bind
      dest!: apply_all_ops [THEN waiters_of_ops] split: prod.splits)

lemma update_op_queued:
  assumes "log_inv m" shows "queued m (update_op lib op w m)"
proof (cases "mg_log m")
  case None
  with assms show ?thesis
    by (auto simp: update_op_def pending_def log_inv_def split: res.split)
next
  case (Some l)
  let ?m = "m\<lparr>mg_ops := mg_ops m @ [(op, w)]\<rparr>"
  have p: "pending ?m = pending m @ [w]" by (simp add: pending_def)
  show ?thesis
  proof (cases "mg_storing m")
    case True
    with assms Some p show ?thesis by (simp add: update_op_def Let_def log_inv_def)
  next
    case False
    then have i: "mg_inflight ?m = None" using assms by (cases "mg_inflight m") (auto simp: log_inv_def)
    have "queued ?m (store lib ?m)"
    proof (cases "mg_stored m = None")
      case True
      then show ?thesis by (simp add: store_def)
    qed (rule store_queued [OF i], simp)
    then have "queued m (store lib ?m)" using p by (auto simp: queued_def split: res.splits)
    with Some False show ?thesis by (simp add: update_op_def Let_def)
  qed
qed

lemma store_done_queued:
  assumes "log_inv m" shows "queued m (store_done lib r m)"
proof (cases "mg_inflight m")
  case None
  with assms show ?thesis by (simp add: store_done_def)
next
  case (Some i)
  obtain st rs where i: "i = (st, rs)" by (cases i)
  let ?m = "m\<lparr>mg_storing := False, mg_inflight := None, mg_state := st, mg_stored := Some st,
      mg_due := mg_due m @ map (\<lambda>(op, ok, w). (w, Ready ok)) rs\<rparr>"
  have p: "pending ?m = pending m"
    by (simp add: pending_def Some i comp_def case_prod_unfold)
  have "queued ?m (store lib ?m)" by (rule store_queued) simp_all
  then have "queued m (store lib ?m)" by (rule queued_from) (simp_all add: p)
  moreover have "mg_ops m = [] \<Longrightarrow> log_inv ?m" using assms by (simp add: log_inv_def)
  ultimately show ?thesis using p by (auto simp: store_done_def Some i Let_def)
qed

lemma recovered_queued: "log_inv m \<Longrightarrow> queued m (recovered lib r m)"
  by (auto simp: recovered_def recovery_done_def split: fetch_result.split res.split)

lemma register_reply_queued: "log_inv m \<Longrightarrow> queued m (register_reply pid aip r m)"
  by (auto simp: register_reply_def split: outcome.splits option.splits)

lemma reregister_overlays_queued: "log_inv m \<Longrightarrow> queued m (reregister_overlays lib pid aip a cfg m)"
  unfolding reregister_overlays_def Let_def
  by (rule queued_bind)
    (auto split: prod.split intro!: queued_from [OF update_op_queued] queued_from [OF register_reply_queued])

lemma reregister_queued: "log_inv m \<Longrightarrow> queued m (reregister lib pid aip a cfg m)"
  unfolding reregister_def Let_def
  by (rule queued_bind)
    (auto split: prod.split res.split intro!: queued_from [OF reregister_overlays_queued])

lemma install_agent_queued: "log_inv m \<Longrightarrow> queued m (install_agent lib pid aip be cfg m)"
  unfolding install_agent_def
  by (rule queued_bind) (auto split: prod.split intro!: queued_from [OF update_op_queued])

lemma register_new_queued: "log_inv m \<Longrightarrow> queued m (register_new lib pid aip cfg m)"
  by (auto simp: register_new_def split: res.split prod.split
      intro!: queued_from [OF install_agent_queued])

lemma registerAgent_queued: "log_inv m \<Longrightarrow> queued m (registerAgent lib pid cfg m)"
  by (auto simp: registerAgent_def Let_def recover_def split: option.split
      intro!: queued_bind queued_from [OF register_new_queued] queued_from [OF reregister_queued])

lemma agentRegistered_queued: "log_inv m \<Longrightarrow> queued m (agentRegistered lib from aos m)"
  by (auto simp: agentRegistered_def Let_def intro!: queued_bind split: option.split)

lemma deleteAgents_queue:
  "deleteAgents lib ips m = Ok m' \<Longrightarrow>
   pending m' = pending m \<and> (log_inv m' \<longleftrightarrow> log_inv m) \<and> mg_log m' = mg_log m \<and>
   mg_due m' = mg_due m"
proof (induction ips arbitrary: m)
  case (Cons ip ips)
  show ?case
  proof (cases "mg_agents m ip")
    case None
    with Cons show ?thesis by simp
  next
    case (Some a)
    with Cons.prems obtain ovs v where
      "deleteAgents lib ips
          (m\<lparr>mg_overlays := ovs, mg_vtep := v, mg_agents := (mg_agents m)(ip := None)\<rparr>) = Ok m'"
      by (auto simp: res_simps)
    from Cons.IH [OF this] show ?thesis by simp
  qed
qed simp

lemma delete_reply_queued: "log_inv m \<Longrightarrow> queued m (delete_reply lib strs r m)"
  by (auto simp: delete_reply_def split: outcome.split res.split dest!: deleteAgents_queue)

lemma deleteAgentsEndpoint_queued:
  assumes "log_inv m" shows "queued m (deleteAgentsEndpoint lib req m)"
proof -
  have "queued m (bind_res (update_op lib (DeleteAgents ips) (W_Delete ips) m)
      (\<lambda>(m', acts). Ok (m', acts @ [Http Pipe_Opened])))" for ips
    using update_op_queued [OF assms, of lib "DeleteAgents ips" "W_Delete ips"]
    by (intro queued_bind) auto
  with assms show ?thesis by (auto simp: deleteAgentsEndpoint_def split: option.split)
qed

text \<open>Every event: \<open>E_Due\<close> answers the first, all others append.\<close>

lemma handle_queued:
  assumes "log_inv m" shows "queued (if e = E_Due then m\<lparr>mg_due := tl (mg_due m)\<rparr> else m) (handle lib e m)"
proof (cases e)
  case E_Due
  have "queued m' (run_waiter lib w r m')" if "log_inv m'" for w r m'
    using that register_reply_queued delete_reply_queued by (cases w) auto
  with E_Due assms show ?thesis by (auto split: list.split simp: pending_def [of m] pending_def [of "m\<lparr>mg_due := []\<rparr>"])
qed (use assms registerAgent_queued agentRegistered_queued store_done_queued recovered_queued
      deleteAgentsEndpoint_queued in \<open>auto simp: stateEndpoint_def\<close>)

lemma run_log_inv:
  "run lib m0 tr m \<Longrightarrow> log_inv m0 \<Longrightarrow> \<not> mg_terminated m \<Longrightarrow> log_inv m"
proof (induction rule: run.induct)
  case (run_Step m0 tr m e acts m')
  from run_Step.hyps(2) have s: "\<not> mg_terminated m" "handle lib e m = Ok (m', acts)"
    by (auto elim: stepE)
  with run_Step handle_queued [of m e lib] show ?case by auto
qed simp

lemma reachable_log_inv:
  assumes "createManagerProcess h lib junk mc = Ok m0" "reachable lib m0 m" "\<not> mg_terminated m"
  shows "log_inv m"
proof -
  from assms(1) obtain vn oui n6 ovs sp log tmo where
    "manager_new lib ovs vn n6 oui (map_option ucast (nc_vtep_mtu (mc_network mc))) (mc_network mc)
       log tmo = Ok m0" by (rule createManagerProcess_parts)
  from manager_new_fields [OF this] have "log_inv m0" by (simp add: log_inv_def)
  with run_log_inv assms(2,3) show ?thesis by (auto simp: reachable_def)
qed

section \<open>A finished write\<close>

lemma find_agent_no_crash: "find_agent lib agents s \<noteq> Crash c"
proof -
  have "ip_convert x = Ok x" for x by (cases x) simp_all
  then show ?thesis by (simp add: find_agent_def ovl_ip_parse_def split: option.split)
qed

lemma perform_no_crash: "perform lib agents op st \<noteq> Crash c"
proof (cases op)
  case (AddAgent info)
  then show ?thesis by (cases "find_agent lib agents (ai_ip info)") (auto simp: find_agent_no_crash)
next
  case (ModifyAgent info)
  then show ?thesis
    by (cases "find_agent lib agents (ai_ip info)") (auto simp: find_agent_no_crash split: option.split)
qed simp

lemma apply_op_Ok: "\<exists>r. apply_op lib agents op st = Ok r"
  by (cases "perform lib agents op st") (auto simp: apply_op_def perform_no_crash)

lemma apply_all_Ok: "\<exists>r. apply_all lib agents ops st = Ok r"
proof (induction ops arbitrary: st)
  case (Cons ow ops)
  obtain op w where ow: "ow = (op, w)" by (cases ow)
  from apply_op_Ok obtain st1 ok where a: "apply_op lib agents op st = Ok (st1, ok)" by (metis surj_pair)
  from Cons.IH obtain r where "apply_all lib agents ops st1 = Ok r" by blast
  with a ow show ?case by (cases r) simp
qed simp

section \<open>Nobody loses what it holds\<close>

definition kept :: "stout \<Rightarrow> agent_db \<Rightarrow> agent_db \<Rightarrow> bool" where
  "kept lib ag ag' \<longleftrightarrow>
     (\<forall>ip. (\<forall>x. holds_vtep lib ag ip x \<longrightarrow> holds_vtep lib ag' ip x) \<and>
           (\<forall>k n. holds_subnet lib ag ip k n \<longrightarrow> holds_subnet lib ag' ip k n))"

definition keeps :: "stout \<Rightarrow> manager \<Rightarrow> handled \<Rightarrow> bool" where
  "keeps lib m r \<longleftrightarrow> (case r of Ok (m', acts) \<Rightarrow> kept lib (mg_agents m) (mg_agents m') | _ \<Rightarrow> True)"

lemma keeps_simps [simp]:
  "keeps lib m (Ok (m', acts)) \<longleftrightarrow> kept lib (mg_agents m) (mg_agents m')"
  "keeps lib m (Error e)" "keeps lib m (Crash c)"
  by (simp_all add: keeps_def)

lemma keeps_bind: "(\<And>x. r = Ok x \<Longrightarrow> keeps lib m (f x)) \<Longrightarrow> keeps lib m (bind_res r f)"
  by (cases r) simp_all

lemma kept_refl [simp]: "kept lib ag ag"
  by (simp add: kept_def)

lemma kept_trans: "kept lib a b \<Longrightarrow> kept lib b c \<Longrightarrow> kept lib a c"
  by (simp add: kept_def)

lemma keeps_from: "keeps lib m0 r \<Longrightarrow> kept lib (mg_agents m) (mg_agents m0) \<Longrightarrow> keeps lib m r"
  by (auto simp: keeps_def split: res.splits intro: kept_trans)

lemma kept_new: "ag ip = None \<Longrightarrow> kept lib ag (ag(ip \<mapsto> a))"
  by (auto simp: kept_def holds_vtep_def holds_subnet_def)

lemma kept_update:
  assumes "ag ip = Some a" "\<And>x. agent_vtep lib a x \<Longrightarrow> agent_vtep lib a' x"
    "\<And>k n. agent_subnet lib a k n \<Longrightarrow> agent_subnet lib a' k n"
  shows "kept lib ag (ag(ip \<mapsto> a'))"
  using assms by (auto simp: kept_def holds_vtep_def holds_subnet_def)

lemma update_op_agents: "update_op lib op w m = Ok (m', acts) \<Longrightarrow> mg_agents m' = mg_agents m"
  by (auto simp: update_op_def store_def Let_def res_simps split: option.splits res.splits if_splits)

lemma update_op_keeps [simp]: "keeps lib m (update_op lib op w m)"
  by (auto simp: keeps_def split: res.split dest!: update_op_agents)

lemma register_reply_keeps [simp]: "keeps lib m (register_reply pid aip r m)"
  by (auto simp: register_reply_def split: outcome.split option.split)

lemma store_done_keeps: "keeps lib m (store_done lib r m)"
  by (auto simp: store_done_def store_def Let_def demote_def keeps_def res_simps
      split: option.splits res.splits prod.splits if_splits)

lemma recover_agents_keep:
  "recover_agents lib infos ovs v agents = Ok (ovs', v', agents') \<Longrightarrow> agents ip = Some a \<Longrightarrow> agents' ip = Some a"
proof (induction infos arbitrary: ovs v agents)
  case (Cons info infos)
  from Cons.prems(1) obtain b ovs1 v1 where
    "recover_agents lib infos ovs1 v1
       (if agents (ag_ip b) = None then agents(ag_ip b \<mapsto> b) else agents) = Ok (ovs', v', agents')"
    by (auto simp: res_simps Let_def)
  moreover have "(if agents (ag_ip b) = None then agents(ag_ip b \<mapsto> b) else agents) ip = Some a"
    using Cons.prems(2) by auto
  ultimately show ?case by (rule Cons.IH)
qed simp

lemma recovered_keeps: "keeps lib m (recovered lib r m)"
proof -
  have "kept lib (mg_agents m) agents'"
    if "recover_agents lib infos ovs v (mg_agents m) = Ok (ovs', v', agents')" for infos ovs v ovs' v' agents'
    using recover_agents_keep [OF that] by (auto simp: kept_def holds_vtep_def holds_subnet_def)
  then show ?thesis
    by (auto simp: recovered_def recovery_done_def demote_def split: fetch_result.split res.split)
qed

context stout_lib
begin

lemma addOverlays_keeps:
  assumes "pools_inv lib ovs v agents" "agents ip = Some a" "addOverlays lib cfg ovs a mm = Ok (ovs', a', mm', mut)"
  shows "agent_vtep lib a x \<Longrightarrow> agent_vtep lib a' x" "agent_subnet lib a k n \<Longrightarrow> agent_subnet lib a' k n"
proof -
  from addOverlays_spec [OF pools_invD(3,2) [OF assms(1)] assms(3)] obtain new where
    a': "a' = a\<lparr>ag_overlays := ag_overlays a @ new\<rparr>" and
    g: "\<forall>(k, ao) \<in> set new. \<not> hm_contains (ag_overlays a) k" by fast
  show "agent_vtep lib a x \<Longrightarrow> agent_vtep lib a' x" by (simp add: a' agent_vtep_def)
  have "map_of (ag_overlays a @ new) k = map_of (ag_overlays a) k" if "map_of (ag_overlays a) k \<noteq> None"
  proof -
    have "map_of new k = None"
    proof (rule ccontr)
      assume "map_of new k \<noteq> None"
      then obtain ao where "(k, ao) \<in> set new" by (auto dest: map_of_SomeD)
      with g that show False by (auto simp: hm_contains_iff hm_keys_def map_of_eq_None_iff)
    qed
    with that show ?thesis by (auto simp: map_add_def)
  qed
  then show "agent_subnet lib a k n \<Longrightarrow> agent_subnet lib a' k n"
    by (auto simp: a' agent_subnet_def simp del: map_of_append)
qed

lemma reregister_overlays_keeps:
  assumes "pools_inv lib (mg_overlays m) (mg_vtep m) ((mg_agents m)(aip \<mapsto> a))"
    "kept lib (mg_agents m) ((mg_agents m)(aip \<mapsto> a))"
  shows "keeps lib m (reregister_overlays lib pid aip a cfg m)"
  unfolding reregister_overlays_def
proof (rule keeps_bind)
  fix x assume x: "addOverlays lib cfg (mg_overlays m) a (mg_metrics m) = Ok x"
  obtain ovs a' mm mut where x': "x = (ovs, a', mm, mut)" by (cases x)
  have "kept lib ((mg_agents m)(aip \<mapsto> a)) ((mg_agents m)(aip \<mapsto> a, aip \<mapsto> a'))"
    by (rule kept_update [where a = a])
      (use addOverlays_keeps [OF assms(1) _ x [unfolded x'], where ip = aip] in simp_all)
  with assms(2) have k: "kept lib (mg_agents m) ((mg_agents m)(aip \<mapsto> a'))"
    using kept_trans by (metis fun_upd_upd)
  then show "keeps lib m (case x of (ovs, a', mm, mutated) \<Rightarrow>
       let m1 = m\<lparr>mg_overlays := ovs, mg_agents := (mg_agents m)(aip \<mapsto> a'), mg_metrics := mm\<rparr> in
       if mutated then update_op lib (ModifyAgent (getAgentInfo lib a')) (W_Register pid aip) m1
       else if list_ex (\<lambda>x. ai_ip x = show_ip lib aip) (ns_agents (mg_state m1))
       then register_reply pid aip (Ready True) m1
       else Ok (count register_dropped m1, []))"
    by (auto simp: x' Let_def intro!: keeps_from [OF update_op_keeps] keeps_from [OF register_reply_keeps])
qed

lemma reregister_keeps:
  assumes "master_inv lib sh m" "mg_agents m aip = Some a"
  shows "keeps lib m (reregister lib pid aip a cfg m)"
  unfolding reregister_def
proof (rule keeps_bind)
  fix be assume "getBackendInfo a = Ok be"
  then have b: "ag_backend a = Some be" by (simp add: getBackendInfo_def res_simps)
  note pi = master_invD(1) [OF assms(1)]
  have same: "(mg_agents m)(aip \<mapsto> a) = mg_agents m" using assms(2) by auto
  have up: "keeps lib m (reregister_overlays lib pid aip (setBackendInfo (Some be') a) cfg (m\<lparr>mg_vtep := v\<rparr>))"
    if al: "allocateIP6 lib (mg_vtep m) = Ok (n6, v)" and be': "vtep_str be' = vtep_str be" for be' n6 v
  proof (rule keeps_from [OF reregister_overlays_keeps])
    from allocateIP6_frame [OF al] have st: "vtep_step (mg_vtep m) v" by auto
    show "pools_inv lib (mg_overlays (m\<lparr>mg_vtep := v\<rparr>)) (mg_vtep (m\<lparr>mg_vtep := v\<rparr>))
        ((mg_agents (m\<lparr>mg_vtep := v\<rparr>))(aip \<mapsto> setBackendInfo (Some be') a))"
      using backend_pools [OF pools_inv_step [OF pi pools_step_refl st] assms(2) b be'] by simp
    show "kept lib (mg_agents (m\<lparr>mg_vtep := v\<rparr>))
        ((mg_agents (m\<lparr>mg_vtep := v\<rparr>))(aip \<mapsto> setBackendInfo (Some be') a))"
      by (rule kept_update [where a = a])
        (use assms(2) b be' in \<open>auto simp: agent_vtep_def agent_subnet_def setBackendInfo_def\<close>)
  qed simp
  have keep: "keeps lib m (reregister_overlays lib pid aip a cfg m)"
    by (rule reregister_overlays_keeps) (simp_all add: same pi)
  have v: "vtep_str (be\<lparr>be_vxlan := Some ((vxlan_of be)\<lparr>vx_vtep_ip6 := Some s\<rparr>)\<rparr>) = vtep_str be" for s
    by (simp add: vtep_str_def vxlan_of_def)
  show "keeps lib m (if vt_network6 (mg_vtep m) \<noteq> None \<and> vx_vtep_ip6 (vxlan_of be) = None then
         (case allocateIP6 lib (mg_vtep m) of
            Crash c \<Rightarrow> Crash c
          | Error _ \<Rightarrow> Ok (count ip6_failed (count register_dropped m), [])
          | Ok (n6, v) \<Rightarrow>
              (let be' = be\<lparr>be_vxlan := Some ((vxlan_of be)\<lparr>vx_vtep_ip6 := Some (show_net lib n6)\<rparr>)\<rparr>
               in reregister_overlays lib pid aip (setBackendInfo (Some be') a) cfg (m\<lparr>mg_vtep := v\<rparr>)))
       else reregister_overlays lib pid aip a cfg m)"
    using keep up [OF _ v] by (auto simp: Let_def split: res.split)
qed

lemma install_agent_keeps:
  assumes "mg_agents m aip = None" shows "keeps lib m (install_agent lib pid aip be cfg m)"
  unfolding install_agent_def
  by (rule keeps_bind)
    (auto split: prod.split intro!: keeps_from [OF update_op_keeps] kept_new assms)

lemma registerAgent_keeps:
  assumes "master_inv lib sh m" shows "keeps lib m (registerAgent lib pid cfg m)"
proof -
  have "keeps lib m (register_new lib pid aip cfg (count f m))" if "mg_agents m aip = None" for aip f
    using that by (auto simp: register_new_def split: res.split prod.split intro!: keeps_from [OF install_agent_keeps])
  moreover have "keeps lib m (reregister lib pid aip a cfg (count f m))" if "mg_agents m aip = Some a" for aip a f
    by (rule keeps_from [OF reregister_keeps [where sh = sh]]) (use assms that in simp_all)
  ultimately show ?thesis
    by (auto simp: registerAgent_def Let_def recover_def split: option.split intro!: keeps_bind
        intro: keeps_from [of _ "count _ m"])
qed

lemma agentRegistered_keeps:
  assumes "master_inv lib sh m" shows "keeps lib m (agentRegistered lib from aos m)"
proof -
  have "kept lib (mg_agents m) ((mg_agents m)(aip \<mapsto> a'))"
    if a: "mg_agents m aip = Some a" and u: "update_states aos a = Ok a'" for aip a a'
    using update_states_agent [OF u pools_invD(4) [OF master_invD(1) [OF assms] a]]
    by (intro kept_update [where a = a] a) simp_all
  then show ?thesis
    by (auto simp: agentRegistered_def Let_def intro!: keeps_bind split: option.split)
qed

lemma handle_keeps:
  assumes "master_inv lib sh m" "e \<noteq> E_Due" shows "keeps lib m (handle lib e m)"
proof -
  have "keeps lib m (deleteAgentsEndpoint lib req m)" for req
    by (auto simp: deleteAgentsEndpoint_def split: option.split res.split intro!: keeps_bind dest!: update_op_agents)
  with assms(2) registerAgent_keeps [OF assms(1)] agentRegistered_keeps [OF assms(1)] recovered_keeps
    store_done_keeps show ?thesis by (cases e) (simp_all add: stateEndpoint_def)
qed

end

section \<open>Properties\<close>

text \<open>
  C9: Requests are answered in order and exactly once: in a reachable state, the step that runs a
  due callback takes the first of the pending requests and queues none, and every other step of a
  process that goes on leaves the pending requests as they are and appends what it queues. A
  request is pending from the moment its operation is queued, while the write that carries it is
  under way, and until its callback runs.
\<close>

theorem answered_in_order:
  assumes "createManagerProcess h lib junk mc = Ok m0" "reachable lib m0 m" "step lib m e acts m'"
    "\<not> mg_terminated m'"
  shows "if e = E_Due then pending m = fst (hd (mg_due m)) # pending m'
    else \<exists>new. pending m' = pending m @ new"
proof -
  from assms(3) have s: "\<not> mg_terminated m" "enabled e m" "handle lib e m = Ok (m', acts)"
    by (auto elim: stepE)
  note inv = reachable_log_inv [OF assms(1,2) s(1)]
  show ?thesis
  proof (cases "e = E_Due")
    case True
    with s(2,3) obtain w r due where d: "mg_due m = (w, r) # due"
      "run_waiter lib w r (m\<lparr>mg_due := due\<rparr>) = Ok (m', acts)" by (cases "mg_due m") auto
    have "pending m' = pending (m\<lparr>mg_due := due\<rparr>)"
      using d(2) by (cases w) (auto simp: register_reply_def delete_reply_def dest!: deleteAgents_queue
          split: outcome.splits option.splits res.splits)
    then show ?thesis using True d(1) by (simp add: pending_def)
  next
    case False
    with handle_queued [OF inv, of e lib] s(3) assms(4) show ?thesis by simp
  qed
qed

text \<open>
  C8: A write to the replicated log that succeeds is always handled, and moves the queue on: the
  state written becomes the current one, every operation it carries is answered with its success,
  in order, and if operations were queued meanwhile, all of them are in the next write, which
  starts at once. In particular the handler never crashes, so no operation waits for ever while
  writes succeed.
\<close>

theorem write_progress:
  assumes "createManagerProcess h lib junk mc = Ok m0" "reachable lib m0 m" "\<not> mg_terminated m"
    "mg_inflight m = Some (st, rs)"
  shows "\<exists>acts m'. step lib m (E_Stored Store_Done) acts m' \<and> \<not> mg_terminated m' \<and>
    mg_state m' = st \<and> mg_due m' = mg_due m @ map (\<lambda>(op, ok, w). (w, Ready ok)) rs \<and> mg_ops m' = [] \<and>
    (if mg_ops m = [] then acts = [] \<and> mg_inflight m' = None
     else \<exists>st' rs'. acts = [Log_Store st'] \<and> mg_inflight m' = Some (st', rs') \<and>
       map (\<lambda>(op, ok, w). (op, w)) rs' = mg_ops m)"
proof -
  have inv: "mg_log m \<noteq> None"
    using reachable_log_inv [OF assms(1-3)] assms(4) by (auto simp: log_inv_def)
  let ?m = "m\<lparr>mg_storing := False, mg_inflight := None, mg_state := st, mg_stored := Some st,
      mg_due := mg_due m @ map (\<lambda>(op, ok, w). (w, Ready ok)) rs\<rparr>"
  obtain st' rs' where a: "apply_all lib (mg_agents m) (mg_ops m) st = Ok (st', rs')"
    using apply_all_Ok [of lib "mg_agents m" "mg_ops m" st] by (metis surj_pair)
  have h: "handle lib (E_Stored Store_Done) m =
      (if mg_ops m = [] then Ok (?m, [])
       else Ok (?m\<lparr>mg_storing := True, mg_inflight := Some (st', rs'), mg_ops := []\<rparr>, [Log_Store st']))"
    using inv a by (auto simp: store_done_def assms(4) Let_def store_def)
  show ?thesis
  proof (cases "mg_ops m = []")
    case True
    with h have "step lib m (E_Stored Store_Done) [] ?m" using assms(3,4) by (intro step) simp_all
    with True assms(3) show ?thesis by (intro exI [of _ "[]"] exI [of _ ?m]) simp
  next
    case False
    let ?m' = "?m\<lparr>mg_storing := True, mg_inflight := Some (st', rs'), mg_ops := []\<rparr>"
    from False h have "step lib m (E_Stored Store_Done) [Log_Store st'] ?m'"
      using assms(3,4) by (intro step) simp_all
    with False assms(3) apply_all_ops [OF a] show ?thesis
      by (intro exI [of _ "[Log_Store st']"] exI [of _ ?m']) simp
  qed
qed


lemma run9_take:
  assumes "run9 (take n events9) = Some (m0, m, tr)"
  shows "createManagerProcess host9 ref_lib (replicate 6 0) config9 = Ok m0" "well_configured m0"
    "reachable ref_lib m0 m"
proof -
  from run9_Some [OF assms] have c: "createManagerProcess host9 ref_lib (replicate 6 0) config9 = Ok m0"
    and e: "exec ref_lib (take n events9) m0 = Some (m, tr)" by simp_all
  have "\<forall>e \<in> set (take n events9). event_ok ref_lib e" using events9_ok by (meson in_set_takeD)
  with exec_reachable [OF e] c well_configured9 [OF c] show
    "createManagerProcess host9 ref_lib (replicate 6 0) config9 = Ok m0" "well_configured m0"
    "reachable ref_lib m0 m" by simp_all
qed

lemma run9_due:
  "case run9 (take 5 events9) of None \<Rightarrow> False
   | Some (m0, m, tr) \<Rightarrow> \<not> mg_terminated m \<and> map fst (mg_due m) = [W_Register (pid9 0x0A000001) (V4 0x0A000001)] \<and>
       (case handle ref_lib E_Due m of Ok (m', acts) \<Rightarrow> \<not> mg_terminated m' | _ \<Rightarrow> False)"
  by code_simp

theorem answered_in_order_witness:
  "\<exists>m m' acts. step ref_lib m E_Due acts m' \<and>
     pending m = W_Register (pid9 0x0A000001) (V4 0x0A000001) # pending m'"
proof -
  from run9_due obtain m0 m tr where r: "run9 (take 5 events9) = Some (m0, m, tr)"
    and m: "\<not> mg_terminated m" "map fst (mg_due m) = [W_Register (pid9 0x0A000001) (V4 0x0A000001)]"
      "case handle ref_lib E_Due m of Ok (m', acts) \<Rightarrow> \<not> mg_terminated m' | _ \<Rightarrow> False"
    by (auto split: option.splits)
  from m(3) obtain m' acts where h: "handle ref_lib E_Due m = Ok (m', acts)" "\<not> mg_terminated m'"
    by (cases "handle ref_lib E_Due m") auto
  have "enabled E_Due m" using m(2) by auto
  from step [OF m(1) this h(1)] have st: "step ref_lib m E_Due acts m'" .
  have "fst (hd (mg_due m)) = W_Register (pid9 0x0A000001) (V4 0x0A000001)" using m(2) by (cases "mg_due m") auto
  with answered_in_order [OF run9_take(1,3) [OF r] st h(2)] st show ?thesis by auto
qed

lemma run9_inflight:
  "case run9 (take 4 events9) of None \<Rightarrow> False
   | Some (m0, m, tr) \<Rightarrow> \<not> mg_terminated m \<and> length (mg_ops m) = 1 \<and>
       (case mg_inflight m of None \<Rightarrow> False | Some (st, rs) \<Rightarrow> map ai_ip (ns_agents st) = [''10.0.0.1''])"
  by code_simp

theorem write_progress_witness:
  "\<exists>m m' st. step ref_lib m (E_Stored Store_Done) [Log_Store st] m' \<and> mg_inflight m' \<noteq> None"
proof -
  from run9_inflight obtain m0 m tr st rs where r: "run9 (take 4 events9) = Some (m0, m, tr)"
    and m: "\<not> mg_terminated m" "length (mg_ops m) = 1" "mg_inflight m = Some (st, rs)"
    by (auto split: option.splits)
  have "mg_ops m \<noteq> []" using m(2) by auto
  with write_progress [OF run9_take(1,3) [OF r] m(1,3)] show ?thesis by auto
qed

lemma run9_second:
  "case run9 (take 3 events9) of None \<Rightarrow> False
   | Some (m0, m, tr) \<Rightarrow> \<not> mg_terminated m \<and>
       vtep_of ref_lib m (V4 0x0A000001) = Some (V4 0x2C800001) \<and>
       is_ok (handle ref_lib (register9 0x0A000002) m)"
  by code_simp


end
