(* ===== verification/MasterFailover.thy ===== *)
theory MasterFailover
  imports MasterOrder
begin

text \<open>
  Failover: one master process after another over the same replicated log. The log holds the last
  state written; a write under way may reach it or not, and a new process is created from the
  configuration and recovers what the log holds. What agents hold stays disjoint through failovers,
  and a new process restores what the agents of the old one held.
\<close>

section \<open>Incarnations of the master over one log\<close>

inductive incarnation :: "stout \<Rightarrow> manager \<Rightarrow> net_state \<Rightarrow> bool" for lib where
  Start: "createManagerProcess h lib junk mc = Ok m \<Longrightarrow> well_configured m \<Longrightarrow>
    incarnation lib m empty_state"
| Handle: "incarnation lib m log \<Longrightarrow> step lib m e acts m' \<Longrightarrow>
    (\<And>st. e = E_Fetched (Fetched st) \<Longrightarrow> st = log) \<Longrightarrow> incarnation lib m' log"
| Written: "incarnation lib m log \<Longrightarrow> mg_inflight m = Some (st, rs) \<Longrightarrow> incarnation lib m st"
| Failover: "incarnation lib m log \<Longrightarrow> createManagerProcess h lib junk mc = Ok m' \<Longrightarrow>
    well_configured m' \<Longrightarrow> incarnation lib m' log"

lemma reachable_refl: "reachable lib m m"
  using run_Nil by (fastforce simp: reachable_def)

lemma reachable_step:
  "reachable lib m0 m \<Longrightarrow> step lib m e acts m' \<Longrightarrow> event_ok lib e \<Longrightarrow> reachable lib m0 m'"
  by (fastforce simp: reachable_def intro: run_Step)

lemma incarnation_reachable:
  assumes "incarnation lib m log" "stout_lib lib"
  shows "state_ok lib log \<and> (\<exists>h junk mc m0. createManagerProcess h lib junk mc = Ok m0 \<and>
    well_configured m0 \<and> reachable lib m0 m)"
  using assms(1)
proof (induction rule: incarnation.induct)
  case (Start h junk mc m)
  moreover have "state_ok lib empty_state" by (simp add: state_ok_def empty_state_def)
  ultimately show ?case using reachable_refl by blast
next
  case (Handle m log e acts m')
  then have "event_ok lib e" by (cases "(lib, e)" rule: event_ok.cases) auto
  with Handle show ?case using reachable_step by blast
next
  case (Written m log st rs)
  then obtain h junk mc m0 where c: "createManagerProcess h lib junk mc = Ok m0" "well_configured m0"
    "reachable lib m0 m" by blast
  from master_invD(3) [OF reachable_inv [OF assms(2) c] Written.hyps(2)] c show ?case by blast
next
  case (Failover m log h junk mc m')
  then show ?case using reachable_refl by blast
qed

section \<open>Recovery succeeds\<close>

context stout_lib
begin

lemma recover_subnet_ok:
  assumes "overlays_inv ovs" "\<And>s. subnet = Some s \<Longrightarrow> \<exists>n. network_parse lib AF_INET s = Ok n \<and> fresh ovs k n"
  obtains ovs' where "recover_subnet lib AF_INET (ovl_reserve lib) k subnet ovs = Ok ovs'"
    "\<forall>k' n'. fresh ovs k' n' \<longrightarrow>
       \<not> (\<exists>s. subnet = Some s \<and> network_parse lib AF_INET s = Ok n' \<and> k' = k) \<longrightarrow> fresh ovs' k' n'"
proof (cases subnet)
  case None
  with that [of ovs] show thesis by (simp add: recover_subnet_def)
next
  case (Some s)
  from assms(2) [OF this] obtain n ov where n: "network_parse lib AF_INET s = Ok n" "map_of ovs k = Some ov"
    "n \<in> ovl_free_set ov" by (auto simp: fresh_def)
  have inv: "ovl_inv ov" using assms(1) n(2) by (auto simp: overlays_inv_def)
  from ovl_reserve_spec [OF inv n(3)] obtain ov' where r: "ovl_reserve lib ov n = Ok ov'"
    "ovl_free_set ov' = ovl_free_set ov - {n}" by auto
  have "recover_subnet lib AF_INET (ovl_reserve lib) k subnet ovs = Ok (hm_update ovs k ov')"
    by (simp add: recover_subnet_def Some n r)
  moreover have "fresh (hm_update ovs k ov') k' n'"
    if "fresh ovs k' n'" "\<not> (\<exists>s. subnet = Some s \<and> network_parse lib AF_INET s = Ok n' \<and> k' = k)" for k' n'
    using that n r by (cases "k' = k") (auto simp: fresh_def hm_simps Some)
  ultimately show thesis by (intro that [of "hm_update ovs k ov'"]) simp_all
qed

lemma recover_vtep_ok:
  assumes "vtep_inv v" "s \<in> set r4 \<or> (\<exists>n. network_parse lib AF_INET s = Ok n \<and> naddr n \<in> covers (vt_freeIP v))"
  obtains v' r4' where "recover_vtep lib AF_INET (vtep_reserve lib) s v r4 = Ok (v', r4')"
    "\<forall>x. x \<in> covers (vt_freeIP v) \<longrightarrow>
       (\<forall>n. network_parse lib AF_INET s = Ok n \<longrightarrow> naddr n \<noteq> x) \<longrightarrow> x \<in> covers (vt_freeIP v')"
proof (cases "s \<in> set r4")
  case True
  then have "recover_vtep lib AF_INET (vtep_reserve lib) s v r4 = Ok (v, r4)" by (simp add: recover_vtep_def)
  then show thesis using that by blast
next
  case False
  with assms(2) obtain n where n: "network_parse lib AF_INET s = Ok n" "naddr n \<in> covers (vt_freeIP v)" by blast
  have h: "naddr n \<in> vtep_hosts (vt_network v)" using n(2) assms(1) by (auto simp: vtep_inv_def)
  obtain c where c: "naddr n = V4 c" "cell ip_succ (V4 c) = {V4 c}"
    by (rule vtep_hostE [OF assms(1) h]) auto
  have nv: "iv_normal (vt_freeIP v)" using assms(1) by (simp add: vtep_inv_def)
  let ?v = "v\<lparr>vt_freeIP := iv_remove (ip_ivs lib) (vt_freeIP v) (V4 c)\<rparr>"
  have "recover_vtep lib AF_INET (vtep_reserve lib) s v r4 = Ok (?v, s # r4)"
    using n c nv False by (simp add: recover_vtep_def vtep_reserve_def ips.contains_iff)
  moreover have "x \<in> covers (vt_freeIP ?v)"
    if "x \<in> covers (vt_freeIP v)" "\<And>n. network_parse lib AF_INET s = Ok n \<Longrightarrow> naddr n \<noteq> x" for x
    using that n(1) c nv by (auto simp: ips.covers_remove)
  ultimately show thesis using that by blast
qed

lemma recover_overlay_ok:
  assumes "overlays_inv ovs" "vtep_inv v" "ao_subnet6 ao = None" "vx_vtep_ip6 (vxlan_of (ao_backend ao)) = None"
    "\<And>s. ao_subnet ao = Some s \<Longrightarrow> \<exists>n. network_parse lib AF_INET s = Ok n \<and> fresh ovs (ao_name ao) n"
    "vtep_str (ao_backend ao) \<in> set r4 \<or>
     (\<exists>n. network_parse lib AF_INET (vtep_str (ao_backend ao)) = Ok n \<and> naddr n \<in> covers (vt_freeIP v))"
  obtains ovs' v' r4' where "recover_overlay lib ao (ovs, v, r4, r6) = Ok (ovs', v', r4', r6)"
    "\<forall>k n. fresh ovs k n \<longrightarrow>
       \<not> (\<exists>s. ao_subnet ao = Some s \<and> network_parse lib AF_INET s = Ok n \<and> k = ao_name ao) \<longrightarrow> fresh ovs' k n"
    "\<forall>x. x \<in> covers (vt_freeIP v) \<longrightarrow>
       (\<forall>n. network_parse lib AF_INET (vtep_str (ao_backend ao)) = Ok n \<longrightarrow> naddr n \<noteq> x) \<longrightarrow>
       x \<in> covers (vt_freeIP v')"
proof -
  obtain ovs' where o: "recover_subnet lib AF_INET (ovl_reserve lib) (ao_name ao) (ao_subnet ao) ovs = Ok ovs'"
    "\<forall>k n. fresh ovs k n \<longrightarrow>
       \<not> (\<exists>s. ao_subnet ao = Some s \<and> network_parse lib AF_INET s = Ok n \<and> k = ao_name ao) \<longrightarrow> fresh ovs' k n"
    by (rule recover_subnet_ok [OF assms(1,5)])
  obtain v' r4' where w: "recover_vtep lib AF_INET (vtep_reserve lib) (vtep_str (ao_backend ao)) v r4 = Ok (v', r4')"
    "\<forall>x. x \<in> covers (vt_freeIP v) \<longrightarrow>
       (\<forall>n. network_parse lib AF_INET (vtep_str (ao_backend ao)) = Ok n \<longrightarrow> naddr n \<noteq> x) \<longrightarrow>
       x \<in> covers (vt_freeIP v')"
    by (rule recover_vtep_ok [OF assms(2,6)])
  have "recover_overlay lib ao (ovs, v, r4, r6) = Ok (ovs', v', r4', r6)"
    using o(1) w(1) assms(3,4) by (simp add: recover_overlay_def recover_subnet_def vtep_str_def)
  with that o(2) w(2) show thesis by blast
qed

lemma recover_overlays_ok:
  "overlays_inv ovs \<Longrightarrow> vtep_inv v \<Longrightarrow>
   (\<forall>ao \<in> set aos. ao_subnet6 ao = None \<and> vx_vtep_ip6 (vxlan_of (ao_backend ao)) = None \<and>
      entry_ok ao \<and> vtep_str (ao_backend ao) = str \<and>
      (\<forall>s n. ao_subnet ao = Some s \<longrightarrow> network_parse lib AF_INET s = Ok n \<longrightarrow> fresh ovs (ao_name ao) n)) \<Longrightarrow>
   distinct (map ao_name aos) \<Longrightarrow> network_parse lib AF_INET str = Ok vn \<Longrightarrow>
   str \<in> set r4 \<or> naddr vn \<in> covers (vt_freeIP v) \<Longrightarrow>
   \<exists>ovs' v' r4'. recover_overlays lib aos (ovs, v, r4, r6) = Ok (ovs', v', r4', r6) \<and>
     (\<forall>k n. fresh ovs k n \<longrightarrow> \<not> (\<exists>ao \<in> set aos. \<exists>s. ao_subnet ao = Some s \<and>
          network_parse lib AF_INET s = Ok n \<and> k = ao_name ao) \<longrightarrow> fresh ovs' k n) \<and>
     (\<forall>x. x \<in> covers (vt_freeIP v) \<longrightarrow> (aos \<noteq> [] \<longrightarrow> x \<noteq> naddr vn) \<longrightarrow> x \<in> covers (vt_freeIP v'))"
proof (induction aos arbitrary: ovs v r4)
  case Nil
  then show ?case by simp
next
  case (Cons ao aos)
  have ao: "ao_subnet6 ao = None" "vx_vtep_ip6 (vxlan_of (ao_backend ao)) = None" "entry_ok ao"
    "vtep_str (ao_backend ao) = str" using Cons.prems(3) by simp_all
  have sub: "\<exists>n. network_parse lib AF_INET s = Ok n \<and> fresh ovs (ao_name ao) n" if "ao_subnet ao = Some s" for s
    using ao(3) Cons.prems(3) that by (fastforce simp: entry_ok_def)
  have vt: "vtep_str (ao_backend ao) \<in> set r4 \<or>
     (\<exists>n. network_parse lib AF_INET (vtep_str (ao_backend ao)) = Ok n \<and> naddr n \<in> covers (vt_freeIP v))"
    using Cons.prems(5,6) ao(4) by auto
  obtain ovs1 v1 q4 where one: "recover_overlay lib ao (ovs, v, r4, r6) = Ok (ovs1, v1, q4, r6)" and
    f1: "\<forall>k n. fresh ovs k n \<longrightarrow>
       \<not> (\<exists>s. ao_subnet ao = Some s \<and> network_parse lib AF_INET s = Ok n \<and> k = ao_name ao) \<longrightarrow> fresh ovs1 k n" and
    c1: "\<forall>x. x \<in> covers (vt_freeIP v) \<longrightarrow>
       (\<forall>n. network_parse lib AF_INET (vtep_str (ao_backend ao)) = Ok n \<longrightarrow> naddr n \<noteq> x) \<longrightarrow>
       x \<in> covers (vt_freeIP v1)"
    by (rule recover_overlay_ok [OF Cons.prems(1,2) ao(1,2) sub vt])
  note sp = recover_overlay_spec [OF Cons.prems(1,2) ao(3) one]
  have inv: "overlays_inv ovs1" "vtep_inv v1"
    using overlays_inv_step [OF Cons.prems(1) sp(1)] sp(2) Cons.prems(2) by (auto simp: vtep_step_def)
  have "fresh ovs1 (ao_name ao') n"
    if a: "ao' \<in> set aos" "ao_subnet ao' = Some s" "network_parse lib AF_INET s = Ok n" for ao' s n
  proof (rule f1 [rule_format])
    show "fresh ovs (ao_name ao') n" using Cons.prems(3) a by simp
    have "ao_name ao' \<noteq> ao_name ao" using Cons.prems(4) a(1) by (metis distinct.simps(2) image_eqI list.simps(9) list.set_map)
    then show "\<not> (\<exists>s. ao_subnet ao = Some s \<and> network_parse lib AF_INET s = Ok n \<and> ao_name ao' = ao_name ao)" by simp
  qed
  then have rest: "\<forall>ao' \<in> set aos. ao_subnet6 ao' = None \<and> vx_vtep_ip6 (vxlan_of (ao_backend ao')) = None \<and>
      entry_ok ao' \<and> vtep_str (ao_backend ao') = str \<and>
      (\<forall>s n. ao_subnet ao' = Some s \<longrightarrow> network_parse lib AF_INET s = Ok n \<longrightarrow> fresh ovs1 (ao_name ao') n)"
    using Cons.prems(3) by simp
  have d: "distinct (map ao_name aos)" using Cons.prems(4) by simp
  have "str \<in> set q4 \<or> naddr vn \<in> covers (vt_freeIP v1)" using sp(4) ao(4) by simp
  from Cons.IH [OF inv rest d Cons.prems(5) this] obtain ovs' v' r4' where
    r: "recover_overlays lib aos (ovs1, v1, q4, r6) = Ok (ovs', v', r4', r6)" and
    f2: "\<forall>k n. fresh ovs1 k n \<longrightarrow> \<not> (\<exists>ao \<in> set aos. \<exists>s. ao_subnet ao = Some s \<and>
          network_parse lib AF_INET s = Ok n \<and> k = ao_name ao) \<longrightarrow> fresh ovs' k n" and
    c2: "\<forall>x. x \<in> covers (vt_freeIP v1) \<longrightarrow> (aos \<noteq> [] \<longrightarrow> x \<noteq> naddr vn) \<longrightarrow> x \<in> covers (vt_freeIP v')"
    by blast
  have "x \<in> covers (vt_freeIP v')" if "x \<in> covers (vt_freeIP v)" "x \<noteq> naddr vn" for x
    using c2 c1 that ao(4) Cons.prems(5) by auto
  moreover have "fresh ovs' k n" if "fresh ovs k n" "\<not> (\<exists>ao \<in> set (ao # aos). \<exists>s. ao_subnet ao = Some s \<and>
          network_parse lib AF_INET s = Ok n \<and> k = ao_name ao)" for k n
    using f2 f1 that by auto
  ultimately show ?case using one r by (intro exI [of _ ovs'] exI [of _ v'] exI [of _ r4']) simp
qed
text \<open>An agent whose entry can be restored, and what a restored agent is.\<close>

definition restorable :: "agent \<Rightarrow> bool" where
  "restorable a \<longleftrightarrow>
     agent_wf lib (ag_ip a) a \<and> (\<exists>x. ag_ip a = V4 x) \<and>
     (\<forall>(k, ao) \<in> set (ag_overlays a). ao_subnet6 ao = None \<and> vx_vtep_ip6 (vxlan_of (ao_backend ao)) = None) \<and>
     (ag_overlays a \<noteq> [] \<longrightarrow> (\<exists>x. agent_vtep lib a x)) \<and>
     (\<forall>k n. agent_subnet lib a k n \<longrightarrow> aligned_net n)"

definition restored :: "agent \<Rightarrow> agent \<Rightarrow> bool" where
  "restored a a' \<longleftrightarrow>
     ag_ip a' = ag_ip a \<and> ag_overlays a' = map (\<lambda>(k, ao). (k, clear_state ao)) (ag_overlays a) \<and>
     ag_backend a' = (case ag_overlays a of [] \<Rightarrow> None | (k, ao) # _ \<Rightarrow> Some (ao_backend ao))"

definition apart :: "agent \<Rightarrow> agent \<Rightarrow> bool" where
  "apart a b \<longleftrightarrow>
     ag_ip a \<noteq> ag_ip b \<and> (\<forall>k n. \<not> (agent_subnet lib a k n \<and> agent_subnet lib b k n)) \<and>
     (\<forall>x. \<not> (agent_vtep lib a x \<and> agent_vtep lib b x))"

definition available :: "(string \<times> overlay) list \<Rightarrow> vtep \<Rightarrow> agent \<Rightarrow> bool" where
  "available ovs v a \<longleftrightarrow>
     (\<forall>k n. agent_subnet lib a k n \<longrightarrow> fresh ovs k n) \<and>
     (\<forall>x. agent_vtep lib a x \<longrightarrow> x \<in> covers (vt_freeIP v))"

lemma agent_subnet_iff:
  assumes "agent_wf lib ip a"
  shows "agent_subnet lib a k n \<longleftrightarrow> (\<exists>ao \<in> set (map snd (ag_overlays a)). \<exists>s. ao_subnet ao = Some s \<and>
      network_parse lib AF_INET s = Ok n \<and> k = ao_name ao)"
proof -
  have d: "distinct (map fst (ag_overlays a))" using assms by (simp add: agent_wf_def hm_keys_def)
  have m: "map_of (ag_overlays a) k = Some ao \<longleftrightarrow> ao \<in> set (map snd (ag_overlays a)) \<and> ao_name ao = k" for ao
  proof
    assume "map_of (ag_overlays a) k = Some ao"
    then have i: "(k, ao) \<in> set (ag_overlays a)" by (rule map_of_SomeD)
    with assms have "ao_name ao = k" unfolding agent_wf_def by blast
    with i show "ao \<in> set (map snd (ag_overlays a)) \<and> ao_name ao = k" by force
  next
    assume "ao \<in> set (map snd (ag_overlays a)) \<and> ao_name ao = k"
    then obtain k' where k: "(k', ao) \<in> set (ag_overlays a)" "ao_name ao = k" by auto
    with assms have "k' = k" by (auto simp: agent_wf_def)
    with k d show "map_of (ag_overlays a) k = Some ao" by simp
  qed
  show ?thesis unfolding agent_subnet_def m by blast
qed

lemma restored_holds:
  assumes "restored a a'" "agent_wf lib ip a"
  shows "agent_subnet lib a' k n \<longleftrightarrow> agent_subnet lib a k n"
    "agent_vtep lib a' x \<longleftrightarrow> ag_overlays a \<noteq> [] \<and> agent_vtep lib a x"
proof -
  have "map_of (map (\<lambda>(k, ao). (k, clear_state ao)) kvs) k = map_option clear_state (map_of kvs k)" for kvs
    by (induction kvs) auto
  then have "map_of (ag_overlays a') k = map_option clear_state (map_of (ag_overlays a) k)"
    using assms(1) by (simp add: restored_def)
  then show "agent_subnet lib a' k n \<longleftrightarrow> agent_subnet lib a k n"
    by (cases "map_of (ag_overlays a) k") (simp_all add: agent_subnet_def)
  show "agent_vtep lib a' x \<longleftrightarrow> ag_overlays a \<noteq> [] \<and> agent_vtep lib a x"
  proof (cases "ag_overlays a")
    case Nil
    with assms(1) show ?thesis by (simp add: restored_def agent_vtep_def)
  next
    case (Cons kv kvs)
    obtain k ao where kv: "kv = (k, ao)" by (cases kv)
    with Cons have "(k, ao) \<in> set (ag_overlays a)" by simp
    with assms(2) obtain be where "ag_backend a = Some be" "vtep_str (ao_backend ao) = vtep_str be"
      unfolding agent_wf_def by blast
    with assms(1) Cons kv show ?thesis by (simp add: restored_def agent_vtep_def)
  qed
qed

lemma fold_addOverlay_ip: "ag_ip (fold addOverlay aos a) = ag_ip a"
  by (induction aos arbitrary: a) (simp_all add: addOverlay_def)

lemma agent_create_restored:
  assumes "restorable a"
  obtains a' where "agent_create lib (getAgentInfo lib a) = Ok a'" "restored a a'"
proof -
  from assms obtain x where x: "ag_ip a = V4 x" and wf: "agent_wf lib (ag_ip a) a" by (auto simp: restorable_def)
  have p: "ovl_ip_parse lib AF_INET (ai_ip (getAgentInfo lib a)) = Ok (ag_ip a)" by (simp add: getAgentInfo_def x)
  then obtain a' where c: "agent_create lib (getAgentInfo lib a) = Ok a'" and ip: "ag_ip a' = ag_ip a"
    by (auto simp: agent_create_def Let_def clearOverlaysState_def fold_addOverlay_ip)
  have names: "map ao_name (map snd (ag_overlays a)) = map fst (ag_overlays a)"
    using wf by (auto simp: agent_wf_def)
  then have d: "distinct (map ao_name (ai_overlays (getAgentInfo lib a)))"
    using wf by (simp add: getAgentInfo_def agent_wf_def hm_keys_def del: map_map)
  have "map (\<lambda>ao. (ao_name ao, clear_state ao)) (map snd (ag_overlays a)) =
      map (\<lambda>(k, ao). (k, clear_state ao)) (ag_overlays a)"
    using wf by (auto simp: agent_wf_def)
  with agent_create_fields [OF c d] ip have "restored a a'"
    by (simp add: restored_def getAgentInfo_def del: map_map split: list.split)
  with c show thesis by (rule that)
qed

text \<open>The entries of an agent that can be restored, as recovery finds them.\<close>

definition recoverable :: "(string \<times> overlay) list \<Rightarrow> string \<Rightarrow> agent_overlay_info list \<Rightarrow> bool" where
  "recoverable ovs str aos \<longleftrightarrow>
     distinct (map ao_name aos) \<and>
     (\<forall>ao \<in> set aos. ao_subnet6 ao = None \<and> vx_vtep_ip6 (vxlan_of (ao_backend ao)) = None \<and>
        entry_ok ao \<and> vtep_str (ao_backend ao) = str \<and>
        (\<forall>s n. ao_subnet ao = Some s \<longrightarrow> network_parse lib AF_INET s = Ok n \<longrightarrow> fresh ovs (ao_name ao) n))"

lemma restorable_recoverable:
  assumes "restorable a" "available ovs v a" "ag_backend a = Some be"
  shows "recoverable ovs (vtep_str be) (map snd (ag_overlays a))"
  unfolding recoverable_def
proof (intro conjI ballI)
  let ?aos = "map snd (ag_overlays a)"
  from assms(1) have wf: "agent_wf lib (ag_ip a) a" by (simp add: restorable_def)
  have "map ao_name ?aos = map fst (ag_overlays a)" using wf by (auto simp: agent_wf_def)
  then show "distinct (map ao_name ?aos)" using wf by (simp add: agent_wf_def hm_keys_def del: map_map)
  fix ao assume m: "ao \<in> set ?aos"
  have held: "agent_subnet lib a (ao_name ao) n" if "ao_subnet ao = Some s" "network_parse lib AF_INET s = Ok n" for s n
    using m that by (auto simp: agent_subnet_iff [OF wf])
  have "\<exists>n. network_parse lib AF_INET s = Ok n \<and> aligned_net n" if s: "ao_subnet ao = Some s" for s
  proof -
    from s m wf have "is_ok (network_parse lib AF_INET s)" by (auto simp: agent_wf_def)
    then obtain n where n: "network_parse lib AF_INET s = Ok n" by (cases "network_parse lib AF_INET s") auto
    with held [OF s n] assms(1) show ?thesis by (auto simp: restorable_def)
  qed
  then show "entry_ok ao" by (simp add: entry_ok_def)
  show "ao_subnet6 ao = None" "vx_vtep_ip6 (vxlan_of (ao_backend ao)) = None"
    using m assms(1) by (auto simp: restorable_def)
  show "vtep_str (ao_backend ao) = vtep_str be" using m wf assms(3) by (auto simp: agent_wf_def)
  show "\<forall>s n. ao_subnet ao = Some s \<longrightarrow> network_parse lib AF_INET s = Ok n \<longrightarrow> fresh ovs (ao_name ao) n"
    using held assms(2) by (simp add: available_def)
qed

lemma recover_agent_ok:
  assumes "overlays_inv ovs" "vtep_inv v" "restorable a" "available ovs v a"
  obtains ovs' v' r4 where
    "recover_overlays lib (ai_overlays (getAgentInfo lib a)) (ovs, v, [], []) = Ok (ovs', v', r4, [])"
    "overlays_inv ovs'" "vtep_inv v'" "\<forall>b. apart a b \<longrightarrow> available ovs v b \<longrightarrow> available ovs' v' b"
proof (cases "ag_overlays a = []")
  case True
  with that [of ovs v "[]"] assms(1,2) show thesis by (simp add: getAgentInfo_def)
next
  case False
  let ?aos = "map snd (ag_overlays a)"
  from assms(3) have wf: "agent_wf lib (ag_ip a) a" by (simp add: restorable_def)
  from assms(3) False obtain be vn where be: "ag_backend a = Some be"
    "network_parse lib AF_INET (vtep_str be) = Ok vn" by (auto simp: restorable_def agent_vtep_def)
  note e = restorable_recoverable [OF assms(3,4) be(1), unfolded recoverable_def]
  have vt: "agent_vtep lib a (naddr vn)" using be by (simp add: agent_vtep_def)
  then have "vtep_str be \<in> set [] \<or> naddr vn \<in> covers (vt_freeIP v)" using assms(4) by (simp add: available_def)
  from recover_overlays_ok [OF assms(1,2) conjunct2 [OF e] conjunct1 [OF e] be(2) this, of "[]"] obtain ovs' v' r4 where
    r: "recover_overlays lib ?aos (ovs, v, [], []) = Ok (ovs', v', r4, [])" and
    f: "\<forall>k n. fresh ovs k n \<longrightarrow> \<not> agent_subnet lib a k n \<longrightarrow> fresh ovs' k n" and
    c: "\<forall>x. x \<in> covers (vt_freeIP v) \<longrightarrow> x \<noteq> naddr vn \<longrightarrow> x \<in> covers (vt_freeIP v')"
    unfolding agent_subnet_iff [OF wf] using False by auto
  have "\<forall>ao \<in> set ?aos. entry_ok ao" using e by blast
  from recover_overlays_spec [OF assms(1,2) this r] have st: "pools_step ovs ovs'" "vtep_step v v'" by auto
  have "overlays_inv ovs'" "vtep_inv v'"
    using overlays_inv_step [OF assms(1) st(1)] st(2) assms(2) by (auto simp: vtep_step_def)
  moreover have "available ovs' v' b" if b: "apart a b" "available ovs v b" for b
  proof -
    have "\<not> agent_vtep lib b (naddr vn)" using b(1) vt by (auto simp: apart_def)
    with b f c show ?thesis unfolding available_def apart_def by blast
  qed
  ultimately show thesis using that [of ovs' v' r4] r by (simp add: getAgentInfo_def)
qed

lemma recover_agents_ok:
  "overlays_inv ovs \<Longrightarrow> vtep_inv v \<Longrightarrow> \<forall>a \<in> set as. restorable a \<and> available ovs v a \<and> ag (ag_ip a) = None \<Longrightarrow>
   sorted_wrt apart as \<Longrightarrow>
   \<exists>ovs' v' ag'. recover_agents lib (map (getAgentInfo lib) as) ovs v ag = Ok (ovs', v', ag') \<and>
     (\<forall>a \<in> set as. \<exists>a'. ag' (ag_ip a) = Some a' \<and> restored a a') \<and>
     (\<forall>ip. ip \<notin> ag_ip ` set as \<longrightarrow> ag' ip = ag ip)"
proof (induction as arbitrary: ovs v ag)
  case Nil
  then show ?case by simp
next
  case (Cons a as)
  from Cons.prems(3) have a: "restorable a" "available ovs v a" "ag (ag_ip a) = None" by simp_all
  obtain a' where c: "agent_create lib (getAgentInfo lib a) = Ok a'" "restored a a'"
    by (rule agent_create_restored [OF a(1)])
  then have ip: "ag_ip a' = ag_ip a" by (simp add: restored_def)
  obtain ovs1 v1 r4 where r:
    "recover_overlays lib (ai_overlays (getAgentInfo lib a)) (ovs, v, [], []) = Ok (ovs1, v1, r4, [])"
    "overlays_inv ovs1" "vtep_inv v1" "\<forall>b. apart a b \<longrightarrow> available ovs v b \<longrightarrow> available ovs1 v1 b"
    by (rule recover_agent_ok [OF Cons.prems(1,2) a(1,2)])
  have ap: "\<forall>b \<in> set as. apart a b" "sorted_wrt apart as" using Cons.prems(4) by simp_all
  have "\<forall>b \<in> set as. restorable b \<and> available ovs1 v1 b \<and> (ag(ag_ip a \<mapsto> a')) (ag_ip b) = None"
    using Cons.prems(3) ap(1) r(4) by (auto simp: apart_def)
  from Cons.IH [OF r(2,3) this ap(2)] obtain ovs' v' ag' where
    rest: "recover_agents lib (map (getAgentInfo lib) as) ovs1 v1 (ag(ag_ip a \<mapsto> a')) = Ok (ovs', v', ag')" and
    m: "\<forall>a \<in> set as. \<exists>a'. ag' (ag_ip a) = Some a' \<and> restored a a'" and
    o: "\<forall>ip. ip \<notin> ag_ip ` set as \<longrightarrow> ag' ip = (ag(ag_ip a \<mapsto> a')) ip" by blast
  have "ag_ip a \<notin> ag_ip ` set as" using ap(1) by (auto simp: apart_def)
  then have "ag' (ag_ip a) = Some a'" using o by simp
  moreover have "recover_agents lib (map (getAgentInfo lib) (a # as)) ovs v ag = Ok (ovs', v', ag')"
    using c(1) r(1) rest a(3) by (simp add: ip Let_def)
  ultimately show ?case using m o c(2) by (intro exI [of _ ovs'] exI [of _ v'] exI [of _ ag']) auto
qed

end

section \<open>The VTEP network never changes\<close>

definition same_net :: "manager \<Rightarrow> handled \<Rightarrow> bool" where
  "same_net m r \<longleftrightarrow>
     (case r of Ok (m', acts) \<Rightarrow> vt_network (mg_vtep m') = vt_network (mg_vtep m) | _ \<Rightarrow> True)"

lemma same_net_simps [simp]:
  "same_net m (Ok (m', acts)) \<longleftrightarrow> vt_network (mg_vtep m') = vt_network (mg_vtep m)"
  "same_net m (Error e)" "same_net m (Crash c)"
  by (simp_all add: same_net_def)

lemma same_net_bind: "(\<And>x. r = Ok x \<Longrightarrow> same_net m (f x)) \<Longrightarrow> same_net m (bind_res r f)"
  by (cases r) simp_all

lemma same_net_from:
  "same_net m0 r \<Longrightarrow> vt_network (mg_vtep m0) = vt_network (mg_vtep m) \<Longrightarrow> same_net m r"
  by (auto simp: same_net_def split: res.splits)

lemma vtep_networks:
  "allocateIP lib v = Ok (n, v') \<Longrightarrow> vt_network v' = vt_network v"
  "allocateIP6 lib v = Ok (n, v') \<Longrightarrow> vt_network v' = vt_network v"
  "take_vtep6 lib v = Ok (n6, v') \<Longrightarrow> vt_network v' = vt_network v"
  "deallocateIP lib v x = Ok v' \<Longrightarrow> vt_network v' = vt_network v"
  "deallocateIP6 lib v x = Ok v' \<Longrightarrow> vt_network v' = vt_network v"
  "vtep_reserve lib v x = Ok v' \<Longrightarrow> vt_network v' = vt_network v"
  "vtep_reserve6 lib v x = Ok v' \<Longrightarrow> vt_network v' = vt_network v"
  by (auto simp: allocateIP_def allocateIP6_def take_vtep6_def deallocateIP_def deallocateIP6_def
      vtep_reserve_def vtep_reserve6_def Let_def res_simps split: if_splits ip.splits)

lemma release_vteps_network:
  assumes "\<And>v x v'. dealloc v x = Ok v' \<Longrightarrow> vt_network v' = vt_network v"
  shows "release_vteps lib f dealloc ss v = Ok v' \<Longrightarrow> vt_network v' = vt_network v"
proof (induction ss arbitrary: v)
  case (Cons s ss)
  then obtain n v1 where "dealloc v n = Ok v1" "release_vteps lib f dealloc ss v1 = Ok v'" by (auto simp: res_simps)
  with Cons.IH assms show ?case by metis
qed simp

lemma delete_agent_network: "delete_agent lib a ovs v = Ok (ovs', v') \<Longrightarrow> vt_network v' = vt_network v"
  by (auto simp: delete_agent_def res_simps vtep_networks
      dest!: release_vteps_network [rotated])

lemma recover_vtep_network:
  assumes "recover_vtep lib f reserve s v r = Ok (v', r')"
    "\<And>v x v'. reserve v x = Ok v' \<Longrightarrow> vt_network v' = vt_network v"
  shows "vt_network v' = vt_network v"
  using assms by (auto simp: recover_vtep_def res_simps split: if_splits)

lemma recover_overlay_network:
  assumes "recover_overlay lib ao (ovs, v, r4, r6) = Ok (ovs', v', r4', r6')"
  shows "vt_network v' = vt_network v"
proof -
  from assms obtain v1 s4 s6 where
    v4: "recover_vtep lib AF_INET (vtep_reserve lib) s4 v r4 = Ok (v1, r4')" and
    v6: "v' = v1 \<or> recover_vtep lib AF_INET6 (vtep_reserve6 lib) s6 v1 r6 = Ok (v', r6')"
    by (auto simp: recover_overlay_def res_simps split: option.splits prod.splits)
  have "vt_network v1 = vt_network v" by (rule recover_vtep_network [OF v4]) (rule vtep_networks(6))
  moreover have "vt_network v' = vt_network v1"
    using v6
  proof
    assume "recover_vtep lib AF_INET6 (vtep_reserve6 lib) s6 v1 r6 = Ok (v', r6')"
    then show ?thesis by (rule recover_vtep_network) (rule vtep_networks(7))
  qed simp
  ultimately show ?thesis by simp
qed

lemma recover_overlays_network:
  "recover_overlays lib aos (ovs, v, r4, r6) = Ok (ovs', v', r4', r6') \<Longrightarrow> vt_network v' = vt_network v"
proof (induction aos arbitrary: ovs v r4 r6)
  case (Cons ao aos)
  then obtain ovs1 v1 q4 q6 where "recover_overlay lib ao (ovs, v, r4, r6) = Ok (ovs1, v1, q4, q6)"
    "recover_overlays lib aos (ovs1, v1, q4, q6) = Ok (ovs', v', r4', r6')" by (auto simp: res_simps)
  with Cons.IH recover_overlay_network show ?case by metis
qed simp

lemma recover_agents_network:
  "recover_agents lib infos ovs v ag = Ok (ovs', v', ag') \<Longrightarrow> vt_network v' = vt_network v"
proof (induction infos arbitrary: ovs v ag)
  case (Cons info infos)
  then obtain a ovs1 v1 q4 q6 ag1 where
    "recover_overlays lib (ai_overlays info) (ovs, v, [], []) = Ok (ovs1, v1, q4, q6)"
    "recover_agents lib infos ovs1 v1 ag1 = Ok (ovs', v', ag')" by (auto simp: res_simps Let_def)
  with Cons.IH recover_overlays_network show ?case by metis
qed simp

lemma update_op_vtep: "update_op lib op w m = Ok (m', acts) \<Longrightarrow> mg_vtep m' = mg_vtep m"
  by (auto simp: update_op_def store_def Let_def res_simps split: option.splits res.splits if_splits)

lemma update_op_net [simp]: "same_net m (update_op lib op w m)"
  by (auto simp: same_net_def split: res.split dest!: update_op_vtep)

lemma register_reply_net [simp]: "same_net m (register_reply pid aip r m)"
  by (auto simp: register_reply_def split: outcome.split option.split)

lemma reregister_overlays_net: "same_net m (reregister_overlays lib pid aip a cfg m)"
  unfolding reregister_overlays_def Let_def
  by (rule same_net_bind) (auto split: prod.split intro!: same_net_from [OF update_op_net] same_net_from [OF register_reply_net])

lemma register_net: "same_net m (registerAgent lib pid cfg m)"
proof -
  have i: "same_net m (install_agent lib pid aip be cfg m)" for m aip be
    unfolding install_agent_def
    by (rule same_net_bind) (auto split: prod.split intro!: same_net_from [OF update_op_net])
  have n: "same_net m (register_new lib pid aip cfg m)" for m aip
    by (auto simp: register_new_def split: res.split prod.split dest!: vtep_networks(1,3) intro!: same_net_from [OF i])
  have r: "same_net m (reregister lib pid aip a cfg m)" for m aip a
    unfolding reregister_def Let_def
    by (rule same_net_bind)
      (auto split: prod.split res.split dest!: vtep_networks(2) intro!: same_net_from [OF reregister_overlays_net])
  show ?thesis
    by (auto simp: registerAgent_def Let_def recover_def split: option.split
        intro!: same_net_bind same_net_from [OF n] same_net_from [OF r])
qed

lemma deleteAgents_network: "deleteAgents lib ips m = Ok m' \<Longrightarrow> vt_network (mg_vtep m') = vt_network (mg_vtep m)"
proof (induction ips arbitrary: m)
  case (Cons ip ips)
  then show ?case
    by (cases "mg_agents m ip") (fastforce simp: res_simps dest: delete_agent_network)+
qed simp

lemma handle_net: "same_net m (handle lib e m)"
proof (cases e)
  case (E_Fetched r)
  then show ?thesis
    by (auto simp: recovered_def recovery_done_def demote_def split: fetch_result.split res.split
        dest!: recover_agents_network)
next
  case E_Due
  have "same_net m' (run_waiter lib w r m')" for w r m'
    by (cases w) (auto simp: delete_reply_def split: outcome.split res.split dest!: deleteAgents_network)
  from same_net_from [OF this] E_Due show ?thesis by (cases "mg_due m") auto
next
  case (E_Delete req)
  then show ?thesis
    by (auto simp: deleteAgentsEndpoint_def split: option.split res.split intro!: same_net_bind dest!: update_op_vtep)
qed (auto simp: register_net stateEndpoint_def agentRegistered_def store_done_def store_def demote_def Let_def
    intro!: same_net_bind split: option.split prod.split)

lemma reachable_network: "reachable lib m0 m \<Longrightarrow> vt_network (mg_vtep m) = vt_network (mg_vtep m0)"
proof -
  have "run lib m0 tr m \<Longrightarrow> vt_network (mg_vtep m) = vt_network (mg_vtep m0)" for tr
  proof (induction rule: run.induct)
    case (run_Step m0 tr m e acts m')
    then have "handle lib e m = Ok (m', acts)" by (auto elim: stepE)
    with handle_net [of m lib e] run_Step show ?case by simp
  qed simp
  then show "reachable lib m0 m \<Longrightarrow> vt_network (mg_vtep m) = vt_network (mg_vtep m0)"
    by (auto simp: reachable_def)
qed

section \<open>A new process\<close>

lemma created_same:
  assumes "createManagerProcess h lib junk mc = Ok m0" "createManagerProcess h' lib junk' mc' = Ok m1"
    "mc_network mc' = mc_network mc"
  shows "mg_overlays m1 = mg_overlays m0 \<and> vt_network (mg_vtep m1) = vt_network (mg_vtep m0)"
proof -
  from assms(1) obtain vn oui n6 ovs sp log tmo where
    p: "network_parse lib AF_INET (nc_vtep_subnet (mc_network mc)) = Ok vn"
      "setup_overlays lib (nc_overlays (mc_network mc)) [] [] = Ok (ovs, sp)"
      "manager_new lib ovs vn n6 oui (map_option ucast (nc_vtep_mtu (mc_network mc))) (mc_network mc)
       log tmo = Ok m0"
    by (rule createManagerProcess_parts)
  from assms(2) obtain vn' oui' n6' ovs' sp' log' tmo' where
    q: "network_parse lib AF_INET (nc_vtep_subnet (mc_network mc')) = Ok vn'"
      "setup_overlays lib (nc_overlays (mc_network mc')) [] [] = Ok (ovs', sp')"
      "manager_new lib ovs' vn' n6' oui' (map_option ucast (nc_vtep_mtu (mc_network mc'))) (mc_network mc')
       log' tmo' = Ok m1"
    by (rule createManagerProcess_parts)
  from p(1,2) q(1,2) assms(3) have "vn' = vn" "ovs' = ovs" by simp_all
  with manager_new_fields(1,6) [OF p(3)] manager_new_fields(1,6) [OF q(3)] show ?thesis
    using vtep_new_network by metis
qed

lemma created_free:
  assumes "stout_lib lib" "createManagerProcess h lib junk mc = Ok m" "well_configured m"
  shows "overlays_inv (mg_overlays m)" "vtep_inv (mg_vtep m)"
    "map_of (mg_overlays m) k = Some ov \<Longrightarrow> ovl_free_set ov = ovl_univ ov"
    "covers (vt_freeIP (mg_vtep m)) = vtep_hosts (vt_network (mg_vtep m))" "mg_agents m = Map.empty"
    "\<not> mg_terminated m"
proof -
  note pi = pools_invD [OF master_invD(1) [OF initial_inv [OF assms]]]
  show "overlays_inv (mg_overlays m)" using map_of_ovl_inv [OF pi(3)] by (auto simp: overlays_inv_def)
  show vi: "vtep_inv (mg_vtep m)" by (rule pi(1))
  from assms(2) obtain vn oui n6 ovs sp log tmo where
    p: "network_parse lib AF_INET (nc_vtep_subnet (mc_network mc)) = Ok vn"
      "setup_overlays lib (nc_overlays (mc_network mc)) [] [] = Ok (ovs, sp)"
      "manager_new lib ovs vn n6 oui (map_option ucast (nc_vtep_mtu (mc_network mc))) (mc_network mc)
       log tmo = Ok m"
    by (rule createManagerProcess_parts)
  note f = manager_new_fields [OF p(3)]
  show "mg_agents m = Map.empty" "\<not> mg_terminated m" by (simp_all add: f)
  have vn: "vt_network (mg_vtep m) = vn" using vtep_new_network [OF f(6)] by simp
  obtain a q where aq: "vn = Net (V4 a) q"
    using stout_lib.network_parse_Ok [OF assms(1) p(1)] by (cases vn) (auto elim: family4E)
  have "unat q \<le> 31" using assms(3) vn aq by (simp add: well_configured_def)
  from stout_lib.vtep_new_inv(2) [OF assms(1) f(6) [unfolded aq] this]
  have "(\<lambda>x. Net x q) ` covers (vt_freeIP (mg_vtep m)) = (\<lambda>x. Net x q) ` vtep_hosts vn"
    by (simp add: vtep_free_def vtep_univ_def vn aq)
  then show "covers (vt_freeIP (mg_vtep m)) = vtep_hosts (vt_network (mg_vtep m))"
    by (simp add: vn inj_image_eq_iff inj_on_def)
  show "ovl_free_set ov = ovl_univ ov" if m: "map_of (mg_overlays m) k = Some ov"
  proof -
    from map_of_SomeD [OF m] have mem: "(k, ov) \<in> set ovs" by (simp add: f(1))
    from setup_overlays_new [OF p(2) mem] obtain n4 n6 p4 p6 en where
      n: "overlay_new lib k n4 n6 p4 p6 en = Ok ov" by auto
    note fl = overlay_new_fields [OF n]
    have "net_fits n4 p4"
      using assms(3) mem fl by (fastforce simp: well_configured_def shape_def list_all_iff f(1))
    show ?thesis
    proof (cases n4)
      case None
      with overlay_new_no_network n fl show ?thesis by (auto simp: ovl_free_set_def ovl_univ_def)
    next
      case (Some nn)
      with \<open>net_fits n4 p4\<close> obtain a q p where "nn = Net (V4 a) q" "p4 = Some p" "fits a q p"
        by (auto simp: net_fits_def split: network.splits ip.splits option.splits)
      with stout_lib.overlay_new_inv(2) [OF assms(1)] n Some show ?thesis by blast
    qed
  qed
qed

lemma manager_new_terminated: "createManagerProcess h lib junk mc = Ok m \<Longrightarrow> \<not> mg_terminated m"
  by (erule createManagerProcess_parts) (simp add: manager_new_fields(10))

definition ipv4_only :: "agent \<Rightarrow> bool" where
  \<comment> \<open>the agent has an IPv4 address and no IPv6 allocation\<close>
  "ipv4_only a \<longleftrightarrow>
     (case ag_ip a of V4 _ \<Rightarrow> True | V6 _ \<Rightarrow> False) \<and>
     (\<forall>(k, ao) \<in> set (ag_overlays a). ao_subnet6 ao = None \<and> vx_vtep_ip6 (vxlan_of (ao_backend ao)) = None)"

context stout_lib
begin

lemma holder_restorable:
  assumes "pools_inv lib ovs v agents" "agents (ag_ip a) = Some a" "ipv4_only a"
  shows "restorable a"
proof -
  note inv = pools_invD [OF assms(1)]
  have wf: "agent_wf lib (ag_ip a) a" by (rule inv(4) [OF assms(2)])
  have "\<exists>x. agent_vtep lib a x" if ne: "ag_overlays a \<noteq> []"
  proof -
    from ne obtain k ao where "(k, ao) \<in> set (ag_overlays a)" by (cases "ag_overlays a") auto
    with wf obtain be where be: "ag_backend a = Some be" unfolding agent_wf_def by blast
    with wf have "is_ok (network_parse lib AF_INET (vtep_str be))" unfolding agent_wf_def by blast
    with be show ?thesis by (cases "network_parse lib AF_INET (vtep_str be)") (auto simp: agent_vtep_def)
  qed
  moreover have "aligned_net n" if "agent_subnet lib a k n" for k n
  proof -
    from that assms(2) have "holds_subnet lib agents (ag_ip a) k n" by (auto simp: holds_subnet_def)
    from inv(5) [OF this] show ?thesis by (blast dest: aligned_univ)
  qed
  moreover have "\<exists>x. ag_ip a = V4 x" using assms(3) by (cases "ag_ip a") (auto simp: ipv4_only_def)
  ultimately show ?thesis using wf assms(3) by (simp add: restorable_def ipv4_only_def)
qed

lemma holders_apart:
  assumes "pools_inv lib ovs v agents" "agents (ag_ip a) = Some a" "agents (ag_ip b) = Some b" "ag_ip a \<noteq> ag_ip b"
  shows "apart a b"
proof -
  note inv = pools_invD [OF assms(1)]
  have s: "holds_subnet lib agents (ag_ip c) k n" if "agents (ag_ip c) = Some c" "agent_subnet lib c k n" for c k n
    using that by (auto simp: holds_subnet_def)
  have v: "holds_vtep lib agents (ag_ip c) x" if "agents (ag_ip c) = Some c" "agent_vtep lib c x" for c x
    using that by (auto simp: holds_vtep_def)
  show ?thesis
    unfolding apart_def using assms(4) inv(6) [OF s [OF assms(2)] s [OF assms(3)]]
      inv(8) [OF v [OF assms(2)] v [OF assms(3)]] by blast
qed

lemma held_available:
  assumes "createManagerProcess h lib junk mc = Ok m0" "well_configured m0" "reachable lib m0 m"
    "createManagerProcess h' lib junk' mc' = Ok m1" "mc_network mc' = mc_network mc"
    "mg_agents m (ag_ip a) = Some a"
  shows "available (mg_overlays m1) (mg_vtep m1) a"
  unfolding available_def
proof (intro conjI allI impI)
  have lib: "stout_lib lib" by (rule stout_lib_axioms)
  note same = created_same [OF assms(1,4,5)]
  have wc: "well_configured m1" using assms(2) same by (simp add: well_configured_def)
  note cf = created_free [OF lib assms(4) wc]
  note mi = reachable_inv [OF lib assms(1-3)]
  note pi = pools_invD [OF master_invD(1) [OF mi]]
  have net: "vt_network (mg_vtep m) = vt_network (mg_vtep m1)"
    using reachable_network [OF assms(3)] same by simp
  have "shape (mg_overlays m) = shape (mg_overlays m1)" using master_invD(5) [OF mi] same by simp
  then have sh: "map_option (\<lambda>ov. (ov_network ov, ov_prefix ov)) (map_of (mg_overlays m1) k) =
      map_option (\<lambda>ov. (ov_network ov, ov_prefix ov)) (map_of (mg_overlays m) k)" for k
    by (simp flip: map_of_shape)
  {
    fix k n assume "agent_subnet lib a k n"
    with assms(6) have "holds_subnet lib (mg_agents m) (ag_ip a) k n" by (auto simp: holds_subnet_def)
    from pi(5) [OF this] obtain ov where ov: "map_of (mg_overlays m) k = Some ov" "n \<in> ovl_univ ov" by blast
    with sh [of k] obtain ov1 where o1: "map_of (mg_overlays m1) k = Some ov1"
      "ov_network ov1 = ov_network ov" "ov_prefix ov1 = ov_prefix ov"
      by (auto simp: map_option_case split: option.splits)
    then have "ovl_univ ov1 = ovl_univ ov" by (simp add: ovl_univ_def)
    with ov(2) cf(3) [OF o1(1)] o1(1) show "fresh (mg_overlays m1) k n" by (simp add: fresh_def)
  next
    fix x assume "agent_vtep lib a x"
    with assms(6) have "holds_vtep lib (mg_agents m) (ag_ip a) x" by (auto simp: holds_vtep_def)
    from pi(7) [OF this] cf(4) net show "x \<in> covers (vt_freeIP (mg_vtep m1))" by simp
  }
qed

lemma failover_restores_agents:
  assumes "createManagerProcess h lib junk mc = Ok m0" "well_configured m0" "reachable lib m0 m"
    "createManagerProcess h' lib junk' mc' = Ok m1" "mc_network mc' = mc_network mc"
    "\<forall>a \<in> set as. mg_agents m (ag_ip a) = Some a \<and> ipv4_only a" "distinct (map ag_ip as)"
  obtains ovs v agents where
    "recover_agents lib (map (getAgentInfo lib) as) (mg_overlays m1) (mg_vtep m1) (mg_agents m1) =
       Ok (ovs, v, agents)"
    "\<forall>a \<in> set as. \<exists>a'. agents (ag_ip a) = Some a' \<and> restored a a'"
    "dom agents = ag_ip ` set as"
proof -
  have lib: "stout_lib lib" by (rule stout_lib_axioms)
  note same = created_same [OF assms(1,4,5)]
  have wc: "well_configured m1" using assms(2) same by (simp add: well_configured_def)
  note cf = created_free [OF lib assms(4) wc]
  note mi = reachable_inv [OF lib assms(1-3)]
  have av: "available (mg_overlays m1) (mg_vtep m1) a" if "a \<in> set as" for a
    by (rule held_available [OF assms(1-5)]) (use assms(6) that in blast)
  have re: "restorable a" if "a \<in> set as" for a
    using holder_restorable [OF master_invD(1) [OF mi]] assms(6) that by blast
  have "sorted_wrt apart as"
    unfolding sorted_wrt_iff_nth_less
  proof (intro allI impI)
    fix i j assume ij: "i < j" "j < length as"
    then have "as ! i \<in> set as" "as ! j \<in> set as" "ag_ip (as ! i) \<noteq> ag_ip (as ! j)"
      using assms(7) by (auto simp: distinct_conv_nth)
    with holders_apart [OF master_invD(1) [OF mi]] assms(6) show "apart (as ! i) (as ! j)" by blast
  qed
  moreover have "\<forall>a \<in> set as. restorable a \<and> available (mg_overlays m1) (mg_vtep m1) a \<and>
      mg_agents m1 (ag_ip a) = None" using re av by (simp add: cf(5))
  ultimately obtain ovs v agents where r:
    "recover_agents lib (map (getAgentInfo lib) as) (mg_overlays m1) (mg_vtep m1) (mg_agents m1) = Ok (ovs, v, agents)"
    "\<forall>a \<in> set as. \<exists>a'. agents (ag_ip a) = Some a' \<and> restored a a'"
    "\<forall>ip. ip \<notin> ag_ip ` set as \<longrightarrow> agents ip = mg_agents m1 ip"
    using recover_agents_ok [OF cf(1,2)] by blast
  have "dom agents = ag_ip ` set as" using r(2,3) by (auto simp: cf(5))
  with r that show thesis by blast
qed

end

section \<open>Properties\<close>

text \<open>
  C3: Through any number of failovers, agents never share: whatever master processes follow each
  other over one replicated log, with the configuration of each in its supported range and writes
  that reach the log before, after or without the answer to the master, the current process never
  lets two agents hold overlapping subnets or the same VTEP address.
\<close>

theorem failover_safe:
  assumes "stout_lib lib" "incarnation lib m log"
  shows "(\<forall>ip ip' x. holds_vtep lib (mg_agents m) ip x \<longrightarrow> holds_vtep lib (mg_agents m) ip' x \<longrightarrow> ip = ip') \<and>
    (\<forall>ip ip' k k' n n'. holds_subnet lib (mg_agents m) ip k n \<longrightarrow> holds_subnet lib (mg_agents m) ip' k' n' \<longrightarrow>
       (ip, k) \<noteq> (ip', k') \<longrightarrow> addr_range n \<inter> addr_range n' = {})"
proof -
  from incarnation_reachable [OF assms(2,1)] obtain h junk mc m0 where
    r: "createManagerProcess h lib junk mc = Ok m0" "well_configured m0" "reachable lib m0 m" by blast
  from reachable_vteps_unique [OF assms(1) r] reachable_subnets_disjoint [OF assms(1) r] show ?thesis by blast
qed


definition delete9 :: event where
  "delete9 = E_Delete \<lparr>dr_method = ''POST'', dr_agents = Some [Some ''10.0.0.1'']\<rparr>"

definition race9 :: "event list" where
  "race9 = [register9 0x0A000001, E_Fetched (Fetched empty_state), register9 0x0A000001,
     E_Stored Store_Done, E_Due, delete9, delete9, E_Stored Store_Done, E_Due,
     register9 0x0A000001, E_Stored Store_Done, E_Due, register9 0x0A000002, E_Stored Store_Done]"


lemma run_incarnation:
  assumes "incarnation lib m0 log" "run lib m0 tr m" "\<forall>(e, acts) \<in> set tr. \<forall>st. e = E_Fetched (Fetched st) \<longrightarrow> st = log"
  shows "incarnation lib m log"
  using assms(2,1,3)
proof (induction rule: run.induct)
  case (run_Step m0 tr m e acts m')
  then have "incarnation lib m log" by simp
  from this run_Step.hyps(2) show ?case by (rule Handle) (use run_Step.prems(2) in auto)
qed simp

lemma incarnation9:
  obtains m where "incarnation ref_lib m empty_state" "holds_vtep ref_lib (mg_agents m) (V4 0x0A000001) (V4 0x2C800001)"
proof -
  from run9_events9 obtain m0 m tr where r: "run9 events9 = Some (m0, m, tr)"
    and h: "vtep_of ref_lib m (V4 0x0A000001) = Some (V4 0x2C800001)" by (auto split: option.splits)
  from run9_Some [OF r] have c: "createManagerProcess host9 ref_lib (replicate 6 0) config9 = Ok m0"
    and e: "exec ref_lib events9 m0 = Some (m, tr)" by simp_all
  from exec_run [OF run_Nil e] have t: "run ref_lib m0 tr m" "map fst tr = events9" by simp_all
  have "e = E_Fetched (Fetched st) \<longrightarrow> st = empty_state" if "(e, acts) \<in> set tr" for e acts st
  proof -
    from that have "e \<in> set (map fst tr)" by force
    then show ?thesis by (auto simp: t(2) events9_def register9_def)
  qed
  then have "incarnation ref_lib m empty_state"
    by (intro run_incarnation [OF Start [OF c well_configured9 [OF c]] t(1)]) blast
  with h that show thesis by (simp add: holds_vtep_of)
qed

theorem failover_safe_witness:
  "\<exists>m. incarnation ref_lib m empty_state \<and>
     \<not> holds_vtep ref_lib (mg_agents m) (V4 0x0A000002) (V4 0x2C800001)"
proof -
  obtain m where m: "incarnation ref_lib m empty_state"
    "holds_vtep ref_lib (mg_agents m) (V4 0x0A000001) (V4 0x2C800001)" by (rule incarnation9)
  have "\<not> holds_vtep ref_lib (mg_agents m) (V4 0x0A000002) (V4 0x2C800001)"
  proof
    assume "holds_vtep ref_lib (mg_agents m) (V4 0x0A000002) (V4 0x2C800001)"
    with conjunct1 [OF failover_safe [OF ref.stout_lib_axioms m(1)]] m(2)
    have "V4 0x0A000001 = V4 0x0A000002" by (elim allE impE)
    then show False by simp
  qed
  with m(1) show ?thesis by blast
qed

lemma run9_agent:
  "case run9 events9 of None \<Rightarrow> False
   | Some (m0, m, tr) \<Rightarrow> mg_log m0 \<noteq> None \<and>
      (case mg_agents m (V4 0x0A000001) of None \<Rightarrow> False
       | Some a \<Rightarrow> ag_ip a = V4 0x0A000001 \<and> ipv4_only a \<and>
           (case ag_overlays a of [] \<Rightarrow> False | _ \<Rightarrow> True))"
  by code_simp


end
