(* ===== verification/CommandRunner.thy ===== *)
theory CommandRunner
  imports Base
begin

text \<open>
  The runner of external commands (\<open>common/shell.hpp\<close>) and the futures of libprocess it is written
  with. A future is modelled by the state it ends in; a chained continuation is the function of
  that state which the library documents: \<open>then\<close> runs its callback on a value and passes failures
  and discards on, \<open>await\<close> collects the ended futures without looking at them.
\<close>

section \<open>Futures\<close>

datatype 'a future = F_Ready 'a | F_Failed string | F_Discarded

fun f_then :: "'a future \<Rightarrow> ('a \<Rightarrow> 'b future) \<Rightarrow> 'b future" where
  "f_then (F_Ready x) f = f x"
| "f_then (F_Failed e) f = F_Failed e"
| "f_then F_Discarded f = F_Discarded"

fun f_ready :: "'a future \<Rightarrow> bool" where
  "f_ready (F_Ready x) = True"
| "f_ready (F_Failed e) = False"
| "f_ready F_Discarded = False"

text \<open>\<open>isFailed() ? failure() : "discarded"\<close>, the message of a future that is not ready.\<close>

fun failure_text :: "'a future \<Rightarrow> string" where
  "failure_text (F_Failed e) = e"
| "failure_text _ = ''discarded''"

lemma f_then_Ready_iff [simp]: "f_then x f = F_Ready y \<longleftrightarrow> (\<exists>v. x = F_Ready v \<and> f v = F_Ready y)"
  by (cases x) auto

lemma f_ready_iff: "f_ready x \<longleftrightarrow> (\<exists>v. x = F_Ready v)"
  by (cases x) auto

section \<open>Running a command\<close>

text \<open>
  What the operating system reports of a subprocess: its exit status (\<open>None\<close> if it could not be
  reaped), its standard output and its standard error.
\<close>

record proc_end =
  pe_status :: "int option future"
  pe_out :: "string future"
  pe_err :: "string future"

text \<open>
  A subprocess is not created, or it ends before the time limit, or it overruns the limit and
  is reaped after \<open>killtree\<close>. The second component of the last two is what \<open>await\<close> collects.
\<close>

datatype proc_run = No_Process string | Ended proc_end | Overran proc_end

definition quoted :: "string \<Rightarrow> string" where
  "quoted s = CHR 0x27 # s @ [CHR 0x27]"

definition timed_out :: "string \<Rightarrow> proc_end" where
  "timed_out limit =
     \<lparr>pe_status = F_Ready (Some (-1)), pe_out = F_Ready '''', pe_err = F_Ready (''timeout after '' @ limit)\<rparr>"

definition command_result :: "string \<Rightarrow> proc_end \<Rightarrow> string future" where
  "command_result command t =
     (case pe_status t of
        F_Ready (Some status) \<Rightarrow>
          if \<not> f_ready (pe_out t) then
            F_Failed (''Failed to read stderr from the subprocess: '' @ failure_text (pe_out t))
          else if \<not> f_ready (pe_err t) then
            F_Failed (''Failed to read stderr from the subprocess: '' @ failure_text (pe_err t))
          else if status \<noteq> 0 then
            f_then (pe_err t) (\<lambda>err. F_Failed (''Failed to execute '' @ quoted command @ '': '' @ err))
          else pe_out t
      | F_Ready None \<Rightarrow> F_Failed ''Failed to reap the subprocess''
      | s \<Rightarrow> F_Failed (''Failed to get the exit status of '' @ quoted command @ '': '' @ failure_text s))"

text \<open>
  Creating a subprocess is the function \<open>spawn\<close> of the path and the arguments; the names of the
  shell are those of \<open>os::Shell\<close>. Both are outside the sources.
\<close>

type_synonym spawner = "string \<Rightarrow> string list \<Rightarrow> proc_run"

record shell =
  sh_name :: string
  sh_arg0 :: string
  sh_arg1 :: string

definition runCommand :: "spawner \<Rightarrow> string \<Rightarrow> string list \<Rightarrow> string \<Rightarrow> string future" where
  \<comment> \<open>the time limit is given as the text it is printed as\<close>
  "runCommand spawn command argv limit =
     (case spawn command argv of
        No_Process e \<Rightarrow> F_Failed (''Unable to execute '' @ quoted command @ '': '' @ e)
      | Ended t \<Rightarrow> command_result command t
      | Overran t \<Rightarrow> command_result command (timed_out limit))"

definition runScriptCommand :: "shell \<Rightarrow> spawner \<Rightarrow> string \<Rightarrow> string \<Rightarrow> string future" where
  "runScriptCommand sh spawn command limit =
     runCommand spawn (sh_name sh) [sh_arg0 sh, sh_arg1 sh, command] limit"

section \<open>Properties\<close>

text \<open>
  C27: A command succeeds exactly when its subprocess was created and ended within its time limit
  with exit status 0 and both output streams could be read; its result is then the standard
  output, whatever was written to the standard error.
\<close>

theorem runCommand_succeeds:
  "runCommand spawn command argv limit = F_Ready s \<longleftrightarrow>
     (\<exists>t. spawn command argv = Ended t \<and> pe_status t = F_Ready (Some 0) \<and>
        pe_out t = F_Ready s \<and> f_ready (pe_err t))"
proof (cases "spawn command argv")
  case (Ended t)
  then show ?thesis
    by (cases "pe_status t"; cases "pe_out t")
       (auto simp: runCommand_def command_result_def f_ready_iff split: option.splits)
qed (auto simp: runCommand_def command_result_def timed_out_def)

lemma runCommand_ended:
  "spawn command argv = Ended t \<Longrightarrow> runCommand spawn command argv limit = command_result command t"
  by (simp add: runCommand_def)

lemma runCommand_overran:
  "spawn command argv = Overran t \<Longrightarrow> runCommand spawn command argv limit =
     F_Failed (''Failed to execute '' @ quoted command @ '': timeout after '' @ limit)"
  by (simp add: runCommand_def command_result_def timed_out_def)

lemma command_result_not_discarded: "command_result command t \<noteq> F_Discarded"
  by (auto simp: command_result_def f_ready_iff split: future.splits option.splits if_splits)

lemma runCommand_not_discarded [simp]: "runCommand spawn command argv limit \<noteq> F_Discarded"
  by (auto simp: runCommand_def command_result_not_discarded split: proc_run.splits)

lemma runScriptCommand_not_discarded [simp]: "runScriptCommand sh spawn command limit \<noteq> F_Discarded"
  by (simp add: runScriptCommand_def)

end
