(* ===== verification/OverlayAgent.thy ===== *)
theory OverlayAgent
  imports MasterSetup CommandRunner
begin

text \<open>
  The state of the overlay agent, \<open>class ManagerProcess\<close> of \<open>overlay/agent.hpp\<close>, and the
  configuration of one overlay network (\<open>overlay/agent.cpp\<close>): the CNI configuration of the Mesos
  bridge, the Docker network, the masquerading rules. A configuration runs external commands and
  waits for them: it is a job whose stage says which command it waits for, and each operation here
  takes it from one stage to the next.
\<close>

section \<open>State\<close>

record agent_metrics =
  am_registering :: int
  am_config_failed :: int
  am_config_failures :: int
  am_without_subnets :: int
  am_docker_failures :: int
  am_register_sent :: int
  am_update_received :: int
  am_update_dropped :: int
  am_registered_sent :: int
  am_registered_dropped :: int
  am_ack_received :: int
  am_ack_dropped :: int

definition agent_metrics0 :: agent_metrics where
  "agent_metrics0 =
    \<lparr>am_registering = 0, am_config_failed = 0, am_config_failures = 0, am_without_subnets = 0,
     am_docker_failures = 0, am_register_sent = 0, am_update_received = 0, am_update_dropped = 0,
     am_registered_sent = 0, am_registered_dropped = 0, am_ack_received = 0, am_ack_dropped = 0\<rparr>"

datatype phase = REGISTERING | REGISTERED

text \<open>A libprocess address: the \<open>UPID\<close> of the master's process, with its port.\<close>

record peer = upid +
  up_port :: u32

text \<open>
  What the configuration of an overlay waits for: the exit of \<open>docker network inspect\<close>, of the
  script that creates the Docker network, of the two scripts that change the isolation chains, the
  call of \<open>_configure\<close> dispatched with the outcome of the Docker part, or the masquerading script.
\<close>

datatype stage =
    Inspecting
  | Creating string
  | Isolating
  | Isolating2
  | Deciding "unit future"
  | Masquerading string

record job =
  jb_id :: nat
  jb_name :: string
  jb_mesos :: "unit future"
  jb_stage :: stage

text \<open>A future the process holds: one that has ended, or the one of a job.\<close>

datatype pending = Now "unit future" | Later nat

text \<open>
  The fields from \<open>ap_jobs\<close> on are what libprocess keeps for the process: the jobs, the calls of
  \<open>await\<close> in \<open>updateAgentOverlays\<close>, and the delayed calls of \<open>doReliableRegistration\<close>.
\<close>

record agent_proc =
  ap_cni_dir :: string
  ap_data_dir :: "string option"
  ap_network :: agent_network_config
  ap_phase :: phase
  ap_connected :: bool
  ap_master :: "peer option"
  ap_overlays :: "(string \<times> agent_overlay_info) list"
  ap_max_attempts :: u32
  ap_attempts :: u32
  ap_metrics :: agent_metrics
  ap_jobs :: "job list"
  ap_next :: nat
  ap_awaits :: "pending list list"
  ap_timers :: "int list"

text \<open>JSON as \<open>jsonify\<close> writes it: the fields of an object in order.\<close>

datatype json =
    J_String string
  | J_Bool bool
  | J_Number int
  | J_Array "json list"
  | J_Object "(string \<times> json) list"

text \<open>
  What the agent uses of stout, and what can turn out either way each time it is used: whether a
  file can be written and a Docker client started (\<open>Some\<close> error message if not), and the random
  part of the back-off.
\<close>

record agent_lib =
  al_stout :: stout
  al_upper :: "string \<Rightarrow> string"
  al_join :: "string \<Rightarrow> string \<Rightarrow> string"
  al_show_int :: "int \<Rightarrow> string"
  al_show_ms :: "int \<Rightarrow> string"                 \<comment> \<open>a duration in milliseconds\<close>
  al_parse_any :: "string \<Rightarrow> ip option"
  al_shell :: shell

record luck =
  lk_write :: "string \<Rightarrow> json \<Rightarrow> string option"
  lk_docker :: "string option"
  lk_random :: "int \<Rightarrow> int"

datatype agent_action =
    Send_RegisterAgent peer agent_network_config
  | Send_AgentRegistered peer "agent_overlay_info list"
  | Link "upid"
  | Redetect "(string \<times> u32) option"
  | Delay_Registration int int
  | Write_File string json
  | Run_Inspect string
  | Run_Script string
  | Reply_Overlay agent_info
  | Reply_Unsupported

type_synonym agent_handled = "(agent_proc \<times> agent_action list) res"

definition tally :: "(agent_metrics \<Rightarrow> agent_metrics) \<Rightarrow> agent_proc \<Rightarrow> agent_proc" where
  "tally f m = m\<lparr>ap_metrics := f (ap_metrics m)\<rparr>"

definition docker_failed :: "agent_metrics \<Rightarrow> agent_metrics" where
  "docker_failed mm = mm\<lparr>am_docker_failures := am_docker_failures mm + 1\<rparr>"

section \<open>The Mesos bridge\<close>

definition bridge_of :: "bridge_info option \<Rightarrow> bridge_info" where
  "bridge_of b = field_or default_bridge b"

definition cni_config ::
  "agent_lib \<Rightarrow> string option \<Rightarrow> agent_network_config \<Rightarrow> string \<Rightarrow> network \<Rightarrow> bridge_info \<Rightarrow> json" where
  \<comment> \<open>the lambda \<open>config\<close>\<close>
  "cni_config al dataDir cfg name subnet bridge = J_Object
    [(''name'', J_String name),
     (''type'', J_String ''mesos-cni-port-mapper''),
     (''excludeDevices'', J_Array [J_String (br_name bridge)]),
     (''chain'', J_String (al_upper al (br_name bridge))),
     (''delegate'', J_Object
       [(''type'', J_String ''bridge''),
        (''bridge'', J_String (br_name bridge)),
        (''isGateway'', J_Bool True),
        (''ipMasq'', J_Bool False),
        (''hairpinMode'', J_Bool True),
        (''mtu'', J_Number (uint (overlay_mtu cfg))),
        (''ipam'', J_Object
          ([(''type'', J_String ''host-local'')] @
           (case dataDir of None \<Rightarrow> [] | Some d \<Rightarrow> [(''dataDir'', J_String d)]) @
           [(''subnet'', J_String (show_net (al_stout al) subnet)),
            (''routes'', J_Array [J_Object [(''dst'', J_String ''0.0.0.0/0'')]])]))])]"

definition configureMesosNetwork ::
  "agent_lib \<Rightarrow> luck \<Rightarrow> string \<Rightarrow> agent_proc \<Rightarrow> (unit future \<times> agent_action list) res" where
  "configureMesosNetwork al lk name m =
     (case map_of (ap_overlays m) name of
        None \<Rightarrow> Crash Check_Failed
      | Some ov \<Rightarrow>
          if \<not> mesos_bridge (ap_network m) then Ok (F_Ready (), [])
          else if ao_subnet ov = None then Ok (F_Ready (), [])
          else
            (let bridge = bridge_of (ao_mesos_bridge ov) in
             case network_parse (al_stout al) AF_INET (field_or '''' (br_ip bridge)) of
               Crash c \<Rightarrow> Crash c
             | Error e \<Rightarrow> Ok (F_Failed ''Failed to parse bridge ip'', [])
             | Ok subnet \<Rightarrow>
                 (let path = al_join al (ap_cni_dir m) (name @ ''.conf'');
                      config = cni_config al (ap_data_dir m) (ap_network m) name subnet bridge
                  in case lk_write lk path config of
                       Some e \<Rightarrow> Ok (F_Failed (''Failed to write CNI config: '' @ e), [])
                     | None \<Rightarrow> Ok (F_Ready (), [Write_File path config]))))"

section \<open>The Docker network\<close>

text \<open>
  The outcome of the Docker part, or the stage that waits for the next command. The messages of a
  failed parse carry no reason here: the reasons of \<open>Network::parse\<close> are the model's error kinds.
\<close>

definition command_limit :: "agent_lib \<Rightarrow> agent_proc \<Rightarrow> string" where
  "command_limit al m = al_show_ms al (uint (command_timeout (ap_network m)))"

definition isolation_command :: "string \<Rightarrow> string" where
  "isolation_command chain =
     ''iptables -w -D '' @ chain @ '' -j RETURN; iptables -w -I '' @ chain @ '' 1 -j RETURN''"

fun stage_command :: "stage \<Rightarrow> string option" where
  "stage_command (Creating cmd) = Some cmd"
| "stage_command Isolating = Some (isolation_command ''DOCKER-ISOLATION'')"
| "stage_command Isolating2 = Some (isolation_command ''DOCKER-ISOLATION-STAGE-2'')"
| "stage_command (Masquerading cmd) = Some cmd"
| "stage_command _ = None"

definition configureDockerNetwork :: "luck \<Rightarrow> string \<Rightarrow> agent_proc \<Rightarrow> (agent_proc \<times> stage) res" where
  \<comment> \<open>with \<open>checkDockerNetwork\<close> up to the exit of the Docker client\<close>
  "configureDockerNetwork lk name m =
     (if map_of (ap_overlays m) name = None then Crash Check_Failed
      else if \<not> docker_bridge (ap_network m) then Ok (m, Deciding (F_Ready ()))
      else
        (case lk_docker lk of
           Some e \<Rightarrow>
             Ok (tally docker_failed m,
                 Deciding (F_Failed (''Unable to execute docker network inspect: '' @ e)))
         | None \<Rightarrow> Ok (m, Inspecting)))"

definition docker_isolate :: "agent_lib \<Rightarrow> string \<Rightarrow> string future \<Rightarrow> agent_proc \<Rightarrow> (agent_proc \<times> stage) res" where
  \<comment> \<open>\<open>__configureDockerNetwork\<close>\<close>
  "docker_isolate al name r m =
     (if map_of (ap_overlays m) name = None then Crash Check_Failed
      else if \<not> f_ready r then
        Ok (tally docker_failed m,
            Deciding (F_Failed (''Unable to configure docker network: '' @ failure_text r)))
      else Ok (m, Isolating))"

definition bridge_subnet ::
  "agent_lib \<Rightarrow> family \<Rightarrow> string option \<Rightarrow> network option res" where
  "bridge_subnet al f s =
     (case s of
        None \<Rightarrow> Ok None
      | Some s \<Rightarrow> bind_res (network_parse (al_stout al) f s) (\<lambda>n. Ok (Some n)))"

definition docker_create_command ::
  "agent_lib \<Rightarrow> agent_network_config \<Rightarrow> string \<Rightarrow> bridge_info \<Rightarrow> network option \<Rightarrow> network option \<Rightarrow> string" where
  "docker_create_command al cfg name bridge subnet subnet6 =
     ''docker network create --driver=bridge '' @
     ''--opt=com.docker.network.bridge.name='' @ br_name bridge @ '' '' @
     ''--opt=com.docker.network.bridge.enable_ip_masquerade=false '' @
     ''--opt=com.docker.network.driver.mtu='' @ al_show_int al (uint (overlay_mtu cfg)) @ '' '' @
     (case subnet of None \<Rightarrow> '''' | Some n \<Rightarrow> ''--subnet='' @ show_net (al_stout al) n) @ '' '' @
     (case subnet6 of None \<Rightarrow> '''' | Some n \<Rightarrow> ''--ipv6 --subnet='' @ show_net (al_stout al) n) @ '' '' @
     name"

definition docker_create :: "agent_lib \<Rightarrow> string \<Rightarrow> bool \<Rightarrow> agent_proc \<Rightarrow> (agent_proc \<times> stage) res" where
  \<comment> \<open>\<open>_configureDockerNetwork\<close>\<close>
  "docker_create al name exists m =
     (if exists then docker_isolate al name (F_Ready '''') m
      else
        (case map_of (ap_overlays m) name of
           None \<Rightarrow> Crash Check_Failed
         | Some ov \<Rightarrow>
             (case ao_docker_bridge ov of
                None \<Rightarrow> Ok (m, Deciding (F_Failed ''Missing Docker bridge info''))
              | Some bridge \<Rightarrow>
                  (case bridge_subnet al AF_INET (br_ip bridge) of
                     Crash c \<Rightarrow> Crash c
                   | Error e \<Rightarrow> Ok (m, Deciding (F_Failed ''Failed to parse bridge ip''))
                   | Ok subnet \<Rightarrow>
                       (case (if enable_ipv6 (ap_network m)
                              then bridge_subnet al AF_INET6 (br_ip6 bridge) else Ok None) of
                          Crash c \<Rightarrow> Crash c
                        | Error e \<Rightarrow> Ok (m, Deciding (F_Failed ''Failed to parse bridge ipv6''))
                        | Ok subnet6 \<Rightarrow>
                            if subnet = None \<and> subnet6 = None then Ok (m, Deciding (F_Ready ()))
                            else Ok (m, Creating
                              (docker_create_command al (ap_network m) name bridge subnet subnet6)))))))"

definition inspected :: "agent_lib \<Rightarrow> string \<Rightarrow> int option future \<Rightarrow> agent_proc \<Rightarrow> (agent_proc \<times> stage) res" where
  \<comment> \<open>the end of \<open>checkDockerNetwork\<close>, and the continuation of \<open>configureDockerNetwork\<close>\<close>
  "inspected al name status m =
     (case status of
        F_Ready (Some st) \<Rightarrow>
          if st \<noteq> 0 then docker_create al name False (tally docker_failed m)
          else docker_create al name True m
      | F_Ready None \<Rightarrow> Ok (m, Deciding (F_Failed ''Failed to reap the subprocess''))
      | F_Failed e \<Rightarrow> Ok (m, Deciding (F_Failed e))
      | F_Discarded \<Rightarrow> Ok (m, Deciding F_Discarded))"

section \<open>One overlay\<close>

definition IPSET_OVERLAY :: string where "IPSET_OVERLAY = ''overlay''"

definition set_error :: "string \<Rightarrow> agent_overlay_info \<Rightarrow> agent_overlay_info" where
  "set_error e ao = ao\<lparr>ao_state := Some ((field_or empty_ostate (ao_state ao))\<lparr>os_error := Some e\<rparr>)\<rparr>"

definition change_overlay :: "string \<Rightarrow> (agent_overlay_info \<Rightarrow> agent_overlay_info) \<Rightarrow> agent_proc \<Rightarrow> agent_proc res" where
  \<comment> \<open>a change of \<open>overlays[name]\<close> under the check that it exists\<close>
  "change_overlay name f m =
     (case map_of (ap_overlays m) name of
        None \<Rightarrow> Crash Check_Failed
      | Some ov \<Rightarrow> Ok (m\<lparr>ap_overlays := hm_update (ap_overlays m) name (f ov)\<rparr>))"

definition overlaySuccess :: "string \<Rightarrow> agent_proc \<Rightarrow> agent_proc res" where
  "overlaySuccess name = change_overlay name (set_status STATUS_OK)"

definition overlayFailure :: "string \<Rightarrow> string \<Rightarrow> agent_proc \<Rightarrow> agent_proc res" where
  "overlayFailure name e = change_overlay name (set_error e \<circ> set_status STATUS_FAILED)"

definition masquerade_command :: "string option \<Rightarrow> string" where
  "masquerade_command subnet =
     (case subnet of
        None \<Rightarrow> ''''
      | Some s \<Rightarrow>
          ''ipset add -exist '' @ IPSET_OVERLAY @ '' '' @ s @ '' nomatch &&'' @
          '' iptables -w -t nat -C POSTROUTING -s '' @ s @ '' -m set'' @
          '' --match-set '' @ IPSET_OVERLAY @ '' dst -j MASQUERADE ||'' @
          '' iptables -w -t nat -A POSTROUTING -s '' @ s @ '' -m'' @
          '' set --match-set '' @ IPSET_OVERLAY @ '' dst -j MASQUERADE'')"

fun join_errors :: "string list \<Rightarrow> string" where
  "join_errors [] = ''''"
| "join_errors [e] = e"
| "join_errors (e # es) = e @ '';'' @ join_errors es"

definition config_errors :: "unit future \<Rightarrow> unit future \<Rightarrow> string list" where
  "config_errors mesos docker =
     (if f_ready mesos then [] else [failure_text mesos]) @
     (if f_ready docker then [] else [failure_text docker])"

text \<open>The end of a configuration, or its last stage.\<close>

datatype decision = Finished "unit future" | Continue stage

definition decide :: "string \<Rightarrow> unit future \<Rightarrow> unit future \<Rightarrow> agent_proc \<Rightarrow> (agent_proc \<times> decision) res" where
  \<comment> \<open>\<open>_configure\<close>\<close>
  "decide name mesos docker m =
     (case map_of (ap_overlays m) name of
        None \<Rightarrow> Crash Check_Failed
      | Some ov \<Rightarrow>
          (let errors = config_errors mesos docker in
           if errors \<noteq> [] then
             bind_res (overlayFailure name (join_errors errors) m) (\<lambda>m1.
               Ok (m1, Finished (F_Failed (join_errors errors))))
           else if \<not> mesos_bridge (ap_network m) \<and> \<not> docker_bridge (ap_network m) then
             bind_res (overlaySuccess name m) (\<lambda>m1. Ok (m1, Finished (F_Ready ())))
           else Ok (m, Continue (Masquerading (masquerade_command (oi_subnet (ao_info ov)))))))"

definition masqueraded :: "string \<Rightarrow> string future \<Rightarrow> agent_proc \<Rightarrow> (agent_proc \<times> unit future) res" where
  \<comment> \<open>the callbacks on the masquerading script; the failure callback runs before \<open>await\<close> hears of it\<close>
  "masqueraded name r m =
     (case r of
        F_Ready _ \<Rightarrow> bind_res (overlaySuccess name m) (\<lambda>m1. Ok (m1, F_Ready ()))
      | F_Failed e \<Rightarrow> bind_res (overlayFailure name e m) (\<lambda>m1. Ok (m1, F_Failed e))
      | F_Discarded \<Rightarrow> bind_res (overlayFailure name ''discarded'' m) (\<lambda>m1. Ok (m1, F_Discarded)))"

section \<open>Jobs\<close>

fun settle :: "nat \<Rightarrow> unit future \<Rightarrow> pending \<Rightarrow> pending" where
  "settle i r (Now x) = Now x"
| "settle i r (Later j) = (if i = j then Now r else Later j)"

definition find_job :: "nat \<Rightarrow> job list \<Rightarrow> job option" where
  "find_job i js = find (\<lambda>j. jb_id j = i) js"

definition finish_job :: "nat \<Rightarrow> unit future \<Rightarrow> agent_proc \<Rightarrow> agent_proc" where
  "finish_job i r m =
     m\<lparr>ap_jobs := filter (\<lambda>j. jb_id j \<noteq> i) (ap_jobs m),
       ap_awaits := map (map (settle i r)) (ap_awaits m)\<rparr>"

definition set_stage :: "nat \<Rightarrow> stage \<Rightarrow> agent_proc \<Rightarrow> agent_proc" where
  "set_stage i st m =
     m\<lparr>ap_jobs := map (\<lambda>j. if jb_id j = i then j\<lparr>jb_stage := st\<rparr> else j) (ap_jobs m)\<rparr>"

definition commands_of :: "stage \<Rightarrow> agent_action list" where
  \<comment> \<open>the script a stage starts with\<close>
  "commands_of st = (case stage_command st of None \<Rightarrow> [] | Some cmd \<Rightarrow> [Run_Script cmd])"

definition move_job :: "nat \<Rightarrow> (agent_proc \<times> stage) res \<Rightarrow> agent_handled" where
  "move_job i r = bind_res r (\<lambda>(m, st). Ok (set_stage i st m, commands_of st))"

definition configure :: "agent_lib \<Rightarrow> luck \<Rightarrow> string \<Rightarrow> agent_proc \<Rightarrow> (agent_proc \<times> agent_action list \<times> nat) res" where
  "configure al lk name m =
     bind_res (change_overlay name (set_status STATUS_CONFIGURING) m) (\<lambda>m1.
     bind_res (configureMesosNetwork al lk name m1) (\<lambda>(mesos, acts).
     bind_res (configureDockerNetwork lk name m1) (\<lambda>(m2, st).
       Ok (m2\<lparr>ap_jobs := ap_jobs m2 @ [\<lparr>jb_id = ap_next m2, jb_name = name, jb_mesos = mesos, jb_stage = st\<rparr>],
              ap_next := ap_next m2 + 1\<rparr>,
           acts @ (if st = Inspecting then [Run_Inspect name] else []),
           ap_next m2))))"

definition job_inspected :: "agent_lib \<Rightarrow> nat \<Rightarrow> int option future \<Rightarrow> agent_proc \<Rightarrow> agent_handled" where
  "job_inspected al i status m =
     (case find_job i (ap_jobs m) of
        None \<Rightarrow> Ok (m, [])
      | Some j \<Rightarrow> move_job i (inspected al (jb_name j) status m))"

definition job_script :: "agent_lib \<Rightarrow> nat \<Rightarrow> proc_run \<Rightarrow> agent_proc \<Rightarrow> agent_handled" where
  \<comment> \<open>a script ends: the continuations of \<open>_configureDockerNetwork\<close>, of
      \<open>__configureDockerNetwork\<close> and of \<open>_configure\<close>\<close>
  "job_script al i run m =
     (case find_job i (ap_jobs m) of
        None \<Rightarrow> Ok (m, [])
      | Some j \<Rightarrow>
          (case stage_command (jb_stage j) of
             None \<Rightarrow> Ok (m, [])
           | Some cmd \<Rightarrow>
               (let r = runScriptCommand (al_shell al) (\<lambda>_ _. run) cmd (command_limit al m) in
                case jb_stage j of
                  Creating _ \<Rightarrow>
                    move_job i
                      (case r of
                         F_Ready out \<Rightarrow> docker_isolate al (jb_name j) (F_Ready out) m
                       | F_Failed e \<Rightarrow> Ok (m, Deciding (F_Failed e))
                       | F_Discarded \<Rightarrow> Ok (m, Deciding F_Discarded))
                | Isolating \<Rightarrow>
                    move_job i
                      (case r of
                         F_Ready _ \<Rightarrow> Ok (m, Deciding (F_Ready ()))
                       | F_Failed _ \<Rightarrow> Ok (m, Isolating2)
                       | F_Discarded \<Rightarrow> Ok (m, Deciding F_Discarded))
                | Isolating2 \<Rightarrow> move_job i (Ok (m, Deciding (f_then r (\<lambda>_. F_Ready ()))))
                | _ \<Rightarrow>
                    bind_res (masqueraded (jb_name j) r m) (\<lambda>(m1, res). Ok (finish_job i res m1, [])))))"

definition job_decide :: "nat \<Rightarrow> agent_proc \<Rightarrow> agent_handled" where
  "job_decide i m =
     (case find_job i (ap_jobs m) of
        None \<Rightarrow> Ok (m, [])
      | Some j \<Rightarrow>
          (case jb_stage j of
             Deciding docker \<Rightarrow>
               bind_res (decide (jb_name j) (jb_mesos j) docker m) (\<lambda>(m1, d).
                 case d of
                   Finished r \<Rightarrow> Ok (finish_job i r m1, [])
                 | Continue st \<Rightarrow> move_job i (Ok (m1, st)))
           | _ \<Rightarrow> Ok (m, [])))"

end
