(* ===== verification/AgentProcess.thy ===== *)
theory AgentProcess
  imports OverlayAgent
begin

text \<open>
  The handlers of the overlay agent (\<open>overlay/agent.cpp\<close>): its creation from the configuration,
  the registration with the overlay master and its retries, the update message that starts the
  configuration of the overlays, the acknowledgement, the detection of masters and the HTTP
  endpoint. \<open>agent_handle\<close> dispatches the events and \<open>agent_step\<close> is the transition relation.
\<close>

section \<open>Creation\<close>

record agent_config =
  ac_master :: "string option"
  ac_cni_dir :: string
  ac_network :: "agent_network_config option"
  ac_max_attempts :: "u32 option"
  ac_cni_data_dir :: "string option"

definition max_configuration_attempts :: "agent_config \<Rightarrow> u32" where
  "max_configuration_attempts c = field_or 4 (ac_max_attempts c)"

text \<open>What creation uses of the host: directories, files, the environment, the detector library.\<close>

record host =
  ho_mkdir :: "string \<Rightarrow> string option"                  \<comment> \<open>error, if any\<close>
  ho_exists :: "string \<Rightarrow> bool"
  ho_read :: "string \<Rightarrow> string + string"                \<comment> \<open>error or contents\<close>
  ho_getenv :: "string \<Rightarrow> string option"
  ho_detector :: "string \<Rightarrow> string option"               \<comment> \<open>error of \<open>MasterDetector::create\<close>, if any\<close>
  ho_parse_config :: "string \<Rightarrow> string + agent_config"    \<comment> \<open>JSON and protobuf\<close>

definition ipset_setup :: string where
  "ipset_setup =
     ''ipset create -exist '' @ IPSET_OVERLAY @ '' hash:net counters && '' @
     ''ipset add -exist '' @ IPSET_OVERLAY @ '' 0.0.0.0/1 && '' @
     ''ipset add -exist '' @ IPSET_OVERLAY @ '' 128.0.0.0/1 && '' @
     ''ipset add -exist '' @ IPSET_OVERLAY @ '' 127.0.0.0/1''"

definition starts_with :: "string \<Rightarrow> string \<Rightarrow> bool" where
  "starts_with s p \<longleftrightarrow> take (length p) s = p"

definition createDetector :: "host \<Rightarrow> agent_config \<Rightarrow> string + string" where
  \<comment> \<open>the detector is represented by the address it was created for\<close>
  "createDetector h cfg =
     (let master =
        (case ac_master cfg of
           Some s \<Rightarrow> Some s
         | None \<Rightarrow>
             (case ho_getenv h ''MESOS_MASTER'' of
                Some s \<Rightarrow> Some s
              | None \<Rightarrow> ho_getenv h ''MESOS_ZK''))
      in case master of
           None \<Rightarrow> Inl ''Master unspecified''
         | Some s \<Rightarrow>
             (case (if starts_with s ''file://'' then ho_read h (drop 7 s) else Inr s) of
                Inl e \<Rightarrow> Inl (''Error reading master configuration file '' @ quoted (drop 7 s) @ '': '' @ e)
              | Inr addr \<Rightarrow>
                  (case ho_detector h addr of
                     Some e \<Rightarrow> Inl (''Unable to create master detector: '' @ e)
                   | None \<Rightarrow> Inr addr)))"

definition agent_new :: "string \<Rightarrow> string option \<Rightarrow> agent_network_config \<Rightarrow> u32 \<Rightarrow> agent_proc" where
  "agent_new dir dataDir cfg attempts =
     \<lparr>ap_cni_dir = dir, ap_data_dir = dataDir, ap_network = cfg, ap_phase = REGISTERING,
      ap_connected = (mesos_bridge cfg = False), ap_master = None, ap_overlays = [],
      ap_max_attempts = attempts, ap_attempts = 0, ap_metrics = agent_metrics0, ap_jobs = [],
      ap_next = 0, ap_awaits = [], ap_timers = []\<rparr>"

definition agent_create_process ::
  "agent_lib \<Rightarrow> host \<Rightarrow> spawner \<Rightarrow> agent_config \<Rightarrow> (string + string) option \<Rightarrow> string + (agent_proc \<times> string)" where
  \<comment> \<open>\<open>ManagerProcess::create\<close>; the optional argument is the detector a test passes\<close>
  "agent_create_process al h spawn cfg detector =
     (case ho_mkdir h (ac_cni_dir cfg) of
        Some e \<Rightarrow> Inl (''Failed to create CNI config directory: '' @ e)
      | None \<Rightarrow>
          (let net = field_or default_network_config (ac_network cfg);
               ipset =
                 (if mesos_bridge net \<or> docker_bridge net then
                    runScriptCommand (al_shell al) spawn ipset_setup (al_show_ms al (uint (command_timeout net)))
                  else F_Ready '''')
           in if \<not> f_ready ipset then Inl (''Unable to create ipset:'' @ failure_text ipset)
              else
                (case (case detector of Some d \<Rightarrow> d | None \<Rightarrow> createDetector h cfg) of
                   Inl e \<Rightarrow> Inl e
                 | Inr d \<Rightarrow>
                     Inr (agent_new (ac_cni_dir cfg) (ac_cni_data_dir cfg) net
                            (max_configuration_attempts cfg), d))))"

definition agent_create_manager ::
  "agent_lib \<Rightarrow> host \<Rightarrow> spawner \<Rightarrow> agent_config \<Rightarrow> (string + string) option \<Rightarrow> string + (agent_proc \<times> string)" where
  \<comment> \<open>\<open>Manager::create\<close>\<close>
  "agent_create_manager al h spawn cfg detector =
     (case agent_create_process al h spawn cfg detector of
        Inl e \<Rightarrow> Inl (''Unable to create `ManagerProcess`:'' @ e)
      | Inr p \<Rightarrow> Inr p)"

fun module_config :: "host \<Rightarrow> (string \<times> string) list \<Rightarrow> agent_config option \<Rightarrow> agent_config option option" where
  \<comment> \<open>the loop over the module's parameters; \<open>None\<close> where it returns \<open>nullptr\<close>\<close>
  "module_config h [] cfg = Some cfg"
| "module_config h ((key, value) # ps) cfg =
     (if key = ''agent_config'' then
        (if \<not> ho_exists h value then None
         else
           (case ho_read h value of
              Inl e \<Rightarrow> None
            | Inr text \<Rightarrow>
                (case ho_parse_config h text of
                   Inl e \<Rightarrow> None
                 | Inr c \<Rightarrow> module_config h ps (Some c))))
      else module_config h ps cfg)"

definition createOverlayAgentManager ::
  "agent_lib \<Rightarrow> host \<Rightarrow> spawner \<Rightarrow> (string \<times> string) list \<Rightarrow> (agent_proc \<times> string) option" where
  "createOverlayAgentManager al h spawn ps =
     (case module_config h ps None of
        Some (Some cfg) \<Rightarrow>
          (case agent_create_manager al h spawn cfg None of Inl e \<Rightarrow> None | Inr p \<Rightarrow> Some p)
      | _ \<Rightarrow> None)"

section \<open>Registration\<close>

definition MINUTE :: int where "MINUTE = 60000000000"

definition REGISTRATION_RETRY_INTERVAL_MAX :: int where
  "REGISTRATION_RETRY_INTERVAL_MAX = 10 * MINUTE"

definition INITIAL_BACKOFF_PERIOD :: int where
  "INITIAL_BACKOFF_PERIOD = 5000000000"

definition doReliableRegistration :: "luck \<Rightarrow> int \<Rightarrow> agent_proc \<Rightarrow> agent_handled" where
  "doReliableRegistration lk maxBackoff m =
     (if ap_phase m = REGISTERED then Ok (m, [])
      else
        (case ap_master m of
           None \<Rightarrow> Ok (m, [])
         | Some master \<Rightarrow>
             (let bound = min maxBackoff REGISTRATION_RETRY_INTERVAL_MAX
              in Ok ((tally (\<lambda>mm. mm\<lparr>am_register_sent := am_register_sent mm + 1\<rparr>) m)
                       \<lparr>ap_timers := ap_timers m @ [bound * 2]\<rparr>,
                     [Send_RegisterAgent master (ap_network m),
                      Delay_Registration (lk_random lk bound) (bound * 2)]))))"

definition registering :: "agent_proc \<Rightarrow> agent_proc" where
  "registering m = tally (\<lambda>mm. mm\<lparr>am_registering := 1\<rparr>) (m\<lparr>ap_phase := REGISTERING\<rparr>)"

definition initialize :: "agent_proc \<Rightarrow> agent_handled" where
  "initialize m = Ok (registering m, [Redetect None])"

definition exited :: "luck \<Rightarrow> upid \<Rightarrow> agent_proc \<Rightarrow> agent_handled" where
  \<comment> \<open>whichever process has exited\<close>
  "exited lk pid m = doReliableRegistration lk INITIAL_BACKOFF_PERIOD (registering m)"

text \<open>The detector's result: no master, or the address of the leading one.\<close>

definition MASTER_MANAGER_PROCESS_ID :: string where "MASTER_MANAGER_PROCESS_ID = ''overlay-master''"

definition detected :: "agent_lib \<Rightarrow> luck \<Rightarrow> (string \<times> u32) option future \<Rightarrow> agent_proc \<Rightarrow> agent_handled" where
  "detected al lk leader m =
     (let m1 = registering (m\<lparr>ap_attempts := 0\<rparr>) in
      case leader of
        F_Failed e \<Rightarrow> Crash Exit_Failure
      | F_Discarded \<Rightarrow> Ok (m1\<lparr>ap_master := None\<rparr>, [Redetect None])
      | F_Ready None \<Rightarrow> Ok (m1\<lparr>ap_master := None\<rparr>, [Redetect None])
      | F_Ready (Some (addr, port)) \<Rightarrow>
          (case al_parse_any al addr of
             None \<Rightarrow> Crash Exit_Failure
           | Some ip \<Rightarrow>
               (let master = \<lparr>up_id = MASTER_MANAGER_PROCESS_ID, up_ip = ip, up_port = port\<rparr> in
                bind_res (doReliableRegistration lk INITIAL_BACKOFF_PERIOD (m1\<lparr>ap_master := Some master\<rparr>))
                  (\<lambda>(m2, acts). Ok (m2, [Link (upid.truncate master)] @ acts @ [Redetect (Some (addr, port))])))))"

definition retry :: "luck \<Rightarrow> nat \<Rightarrow> agent_proc \<Rightarrow> agent_handled" where
  \<comment> \<open>a delayed call of \<open>doReliableRegistration\<close>\<close>
  "retry lk i m =
     (if i < length (ap_timers m) then
        doReliableRegistration lk (ap_timers m ! i)
          (m\<lparr>ap_timers := take i (ap_timers m) @ drop (Suc i) (ap_timers m)\<rparr>)
      else Ok (m, []))"

section \<open>Updates\<close>

definition update_dropped :: "agent_metrics \<Rightarrow> agent_metrics" where
  "update_dropped mm = mm\<lparr>am_update_dropped := am_update_dropped mm + 1\<rparr>"

text \<open>
  The loop of \<open>updateAgentOverlays\<close>: the number of overlays without a subnet and the futures so
  far, or \<open>None\<close> if it returns because an overlay is being configured.
\<close>

fun update_overlays ::
  "agent_lib \<Rightarrow> luck \<Rightarrow> agent_overlay_info list \<Rightarrow> int \<Rightarrow> pending list \<Rightarrow> agent_proc \<Rightarrow>
   (agent_proc \<times> agent_action list \<times> (int \<times> pending list) option) res" where
  "update_overlays al lk [] n futures m = Ok (m, [], Some (n, futures))"
| "update_overlays al lk (ov # ovs) n futures m =
     (let known = (case map_of (ap_overlays m) (ao_name ov) of
                     None \<Rightarrow> None
                   | Some old \<Rightarrow> if has_status old then Some (status_of old) else None)
      in if known = Some STATUS_CONFIGURING then Ok (tally update_dropped m, [], None)
         else if known = Some STATUS_OK then
           update_overlays al lk ovs n (futures @ [Now (F_Ready ())]) m
         else if ao_state ov \<noteq> None then Crash Check_Failed
         else
           bind_res (configure al lk (ao_name ov) (m\<lparr>ap_overlays := hm_put (ap_overlays m) (ao_name ov) ov\<rparr>))
             (\<lambda>(m1, acts, i).
           bind_res (update_overlays al lk ovs (if oi_subnet (ao_info ov) = None then n + 1 else n)
               (futures @ [Later i]) m1)
             (\<lambda>(m2, acts', r). Ok (m2, acts @ acts', r))))"

definition updateAgentOverlays ::
  "agent_lib \<Rightarrow> luck \<Rightarrow> agent_overlay_info list \<Rightarrow> agent_proc \<Rightarrow> agent_handled" where
  "updateAgentOverlays al lk ovs m0 =
     (let m = tally (\<lambda>mm. mm\<lparr>am_update_received := am_update_received mm + 1\<rparr>) m0 in
      if ap_phase m \<noteq> REGISTERING then Ok (tally update_dropped m, [])
      else
        bind_res (update_overlays al lk ovs 0 [] m) (\<lambda>(m1, acts, r).
          case r of
            None \<Rightarrow> Ok (m1, acts)
          | Some (n, futures) \<Rightarrow>
              (let m2 = tally (\<lambda>mm. mm\<lparr>am_without_subnets := n\<rparr>) m1 in
               if ovs \<noteq> [] \<and> futures = [] then Ok (tally update_dropped m2, acts)
               else Ok (m2\<lparr>ap_awaits := ap_awaits m2 @ [futures]\<rparr>, acts))))"

definition registered_drop :: "agent_metrics \<Rightarrow> agent_metrics" where
  "registered_drop mm = mm\<lparr>am_registered_dropped := am_registered_dropped mm + 1\<rparr>"

definition settled :: "agent_overlay_info \<Rightarrow> bool" where
  \<comment> \<open>the four checks of \<open>_updateAgentOverlays\<close>\<close>
  "settled ov \<longleftrightarrow> has_status ov \<and> status_of ov \<noteq> STATUS_CONFIGURING \<and> status_of ov \<noteq> STATUS_INVALID"

definition updated :: "unit future list future \<Rightarrow> agent_proc \<Rightarrow> agent_handled" where
  \<comment> \<open>\<open>_updateAgentOverlays\<close>\<close>
  "updated results m =
     (case results of
        F_Ready rs \<Rightarrow>
          (let messages = filter (\<lambda>r. \<not> f_ready r) rs;
               m1 = (if messages = [] then m
                     else tally (\<lambda>mm. mm\<lparr>am_config_failures := am_config_failures mm + int (length messages)\<rparr>) m)
           in if ap_phase m1 \<noteq> REGISTERING then Ok (tally registered_drop m1, [])
              else
                (case ap_master m1 of
                   None \<Rightarrow> Crash Check_Failed
                 | Some master \<Rightarrow>
                     if list_all settled (map snd (ap_overlays m1)) then
                       Ok (tally (\<lambda>mm. mm\<lparr>am_registered_sent := am_registered_sent mm + 1\<rparr>) m1,
                           [Send_AgentRegistered master (map snd (ap_overlays m1))])
                     else Crash Check_Failed))
      | _ \<Rightarrow> Ok (tally update_dropped m, []))"

fun ended :: "pending \<Rightarrow> unit future option" where
  "ended (Now r) = Some r"
| "ended (Later i) = None"

definition awaited :: "nat \<Rightarrow> agent_proc \<Rightarrow> agent_handled" where
  \<comment> \<open>a call of \<open>await\<close> whose futures have all ended\<close>
  "awaited i m =
     (if i < length (ap_awaits m) then
        updated (F_Ready (map (the \<circ> ended) (ap_awaits m ! i)))
          (m\<lparr>ap_awaits := take i (ap_awaits m) @ drop (Suc i) (ap_awaits m)\<rparr>)
      else Ok (m, []))"

section \<open>Acknowledgement\<close>

definition configured :: "agent_overlay_info \<Rightarrow> bool" where
  "configured ov \<longleftrightarrow> has_status ov \<and> status_of ov = STATUS_OK"

definition agentRegisteredAcknowledgement :: "upid \<Rightarrow> agent_proc \<Rightarrow> agent_handled" where
  "agentRegisteredAcknowledgement from m0 =
     (let m = tally (\<lambda>mm. mm\<lparr>am_ack_received := am_ack_received mm + 1\<rparr>) m0;
          m1 = m\<lparr>ap_attempts := ap_attempts m + 1\<rparr>;
          done = (\<lambda>m. tally (\<lambda>mm. mm\<lparr>am_registering := 0\<rparr>) (m\<lparr>ap_phase := REGISTERED, ap_connected := True\<rparr>))
      in if ap_attempts m1 > ap_max_attempts m1 then
           Ok (done (tally (\<lambda>mm. mm\<lparr>am_config_failed := 1\<rparr>) m1), [Link from])
         else if list_all configured (map snd (ap_overlays m1)) then Ok (done m1, [Link from])
         else Ok (tally (\<lambda>mm. mm\<lparr>am_ack_dropped := am_ack_dropped mm + 1\<rparr>) m1, [Link from]))"

section \<open>The endpoint\<close>

definition agent_overlay_endpoint :: "agent_lib \<Rightarrow> ip \<Rightarrow> bool \<Rightarrow> bool \<Rightarrow> agent_proc \<Rightarrow> agent_handled" where
  \<comment> \<open>the two flags: does the client accept JSON, does it accept protobuf\<close>
  "agent_overlay_endpoint al self accepts_json accepts_protobuf m =
     (let agent = \<lparr>ai_ip = show_ip (al_stout al) self, ai_overlays = map snd (ap_overlays m),
                   ai_attempts = Some (ap_attempts m)\<rparr>
      in if accepts_json \<or> accepts_protobuf then Ok (m, [Reply_Overlay agent])
         else Ok (m, [Reply_Unsupported]))"

section \<open>The process\<close>

datatype agent_event =
    A_Update "agent_overlay_info list"
  | A_Ack upid
  | A_Detected "(string \<times> u32) option future"
  | A_Exited upid
  | A_Retry nat
  | A_Inspected nat "int option future"
  | A_Script nat proc_run
  | A_Decide nat
  | A_Awaited nat
  | A_Overlay ip bool bool

fun agent_handle :: "agent_lib \<Rightarrow> luck \<Rightarrow> agent_event \<Rightarrow> agent_proc \<Rightarrow> agent_handled" where
  "agent_handle al lk (A_Update ovs) m = updateAgentOverlays al lk ovs m"
| "agent_handle al lk (A_Ack from) m = agentRegisteredAcknowledgement from m"
| "agent_handle al lk (A_Detected leader) m = detected al lk leader m"
| "agent_handle al lk (A_Exited pid) m = exited lk pid m"
| "agent_handle al lk (A_Retry i) m = retry lk i m"
| "agent_handle al lk (A_Inspected i status) m = job_inspected al i status m"
| "agent_handle al lk (A_Script i run) m = job_script al i run m"
| "agent_handle al lk (A_Decide i) m = job_decide i m"
| "agent_handle al lk (A_Awaited i) m = awaited i m"
| "agent_handle al lk (A_Overlay self js pb) m = agent_overlay_endpoint al self js pb m"

text \<open>Which events can occur: a job must wait for what ends, a call of \<open>await\<close> must be complete.\<close>

fun agent_enabled :: "agent_event \<Rightarrow> agent_proc \<Rightarrow> bool" where
  "agent_enabled (A_Retry i) m \<longleftrightarrow> i < length (ap_timers m)"
| "agent_enabled (A_Inspected i status) m \<longleftrightarrow>
     (case find_job i (ap_jobs m) of None \<Rightarrow> False | Some j \<Rightarrow> jb_stage j = Inspecting)"
| "agent_enabled (A_Script i run) m \<longleftrightarrow>
     (case find_job i (ap_jobs m) of None \<Rightarrow> False | Some j \<Rightarrow> stage_command (jb_stage j) \<noteq> None)"
| "agent_enabled (A_Decide i) m \<longleftrightarrow>
     (case find_job i (ap_jobs m) of
        None \<Rightarrow> False
      | Some j \<Rightarrow> (case jb_stage j of Deciding docker \<Rightarrow> True | _ \<Rightarrow> False))"
| "agent_enabled (A_Awaited i) m \<longleftrightarrow>
     i < length (ap_awaits m) \<and> list_all (\<lambda>p. ended p \<noteq> None) (ap_awaits m ! i)"
| "agent_enabled _ m \<longleftrightarrow> True"

inductive agent_step :: "agent_lib \<Rightarrow> agent_proc \<Rightarrow> agent_event \<Rightarrow> agent_action list \<Rightarrow> agent_proc \<Rightarrow> bool" for al where
  agent_step: "agent_enabled e m \<Longrightarrow> agent_handle al lk e m = Ok (m', acts) \<Longrightarrow> agent_step al m e acts m'"

inductive_cases agent_stepE: "agent_step al m e acts m'"

text \<open>The states of an agent that was created and initialized.\<close>

inductive agent_reachable :: "agent_lib \<Rightarrow> agent_proc \<Rightarrow> bool" for al where
  init: "initialize (agent_new dir dataDir cfg attempts) = Ok (m, acts) \<Longrightarrow> agent_reachable al m"
| more: "agent_reachable al m \<Longrightarrow> agent_step al m e acts m' \<Longrightarrow> agent_reachable al m'"

end
