(* ===== verification/AgentSafety.thy ===== *)
theory AgentSafety
  imports AgentProcess
begin

text \<open>
  What holds in every reachable state of the overlay agent: each overlay is configured, failed or
  has exactly one running configuration; configurations end; the process leaves its registering
  state only when all overlays are configured or its attempts are used up; and the situations in
  which the process can abort.
\<close>

section \<open>Parsing never fails a check\<close>

lemma bind_res_Crash_iff:
  "bind_res x f = Crash c \<longleftrightarrow> x = Crash c \<or> (\<exists>v. x = Ok v \<and> f v = Crash c)"
  by (cases x) auto

lemma mask6_loop_Crash: "mask6_loop p i bs = Crash c \<Longrightarrow> c = Undefined_Behaviour"
proof (induction p i bs rule: mask6_loop.induct)
  case (1 p i m)
  then show ?case by (subst (asm) (2) mask6_loop.simps) (auto split: if_splits)
qed

lemma network_parse_Crash: "network_parse lib f s = Crash c \<Longrightarrow> c = Undefined_Behaviour"
proof -
  have "to_mask p g = Crash c \<Longrightarrow> c = Undefined_Behaviour" for p g
    by (cases g) (auto simp: bind_res_Crash_iff dest: mask6_loop_Crash split: if_splits)
  then show "network_parse lib f s = Crash c \<Longrightarrow> c = Undefined_Behaviour"
    by (auto simp: network_parse_def mk_network_def bind_res_Crash_iff split: option.splits)
qed

section \<open>The stages of a configuration\<close>

fun rank :: "stage \<Rightarrow> nat" where
  "rank Inspecting = 6"
| "rank (Creating c) = 5"
| "rank Isolating = 4"
| "rank Isolating2 = 3"
| "rank (Deciding r) = 2"
| "rank (Masquerading c) = 1"

text \<open>
  The operations on stages change at most the counter of Docker failures, and go down in rank;
  they abort only where a parse does.
\<close>

definition counted :: "agent_proc \<Rightarrow> agent_proc \<Rightarrow> bool" where
  "counted m m' \<longleftrightarrow> (\<exists>n. m' = m\<lparr>ap_metrics := (ap_metrics m)\<lparr>am_docker_failures := n\<rparr>\<rparr>)"

lemma counted_refl [intro]: "counted m m"
  unfolding counted_def by (rule exI [of _ "am_docker_failures (ap_metrics m)"]) simp

lemma counted_tally [intro]: "counted m m' \<Longrightarrow> counted m (tally docker_failed m')"
  by (auto simp: counted_def tally_def docker_failed_def)

definition goes_below :: "nat \<Rightarrow> agent_proc \<Rightarrow> (agent_proc \<times> stage) res \<Rightarrow> bool" where
  "goes_below n m r \<longleftrightarrow>
     (case r of
        Ok (m', st) \<Rightarrow> counted m m' \<and> rank st < n
      | Error e \<Rightarrow> False
      | Crash c \<Rightarrow> c = Undefined_Behaviour)"

lemma goes_below_Ok [simp]: "goes_below n m (Ok (m', st)) \<longleftrightarrow> counted m m' \<and> rank st < n"
  by (simp add: goes_below_def)

lemma goes_below_mono: "goes_below n m r \<Longrightarrow> n \<le> n' \<Longrightarrow> goes_below n' m r"
  by (auto simp: goes_below_def split: res.splits)

lemma goes_below_tally: "goes_below n (tally docker_failed m) r \<Longrightarrow> goes_below n m r"
  by (auto simp: goes_below_def counted_def tally_def docker_failed_def split: res.splits)

lemma goes_below_UB [simp]: "goes_below n m (Crash c) \<longleftrightarrow> c = Undefined_Behaviour"
  by (simp add: goes_below_def)

lemma bridge_subnet_Crash: "bridge_subnet al f s = Crash c \<Longrightarrow> c = Undefined_Behaviour"
  by (auto simp: bridge_subnet_def bind_res_Crash_iff dest: network_parse_Crash split: option.splits)

lemma isolate_below:
  "map_of (ap_overlays m) name \<noteq> None \<Longrightarrow> goes_below 5 m (docker_isolate al name r m)"
  by (auto simp: docker_isolate_def)

lemma create_below:
  assumes "map_of (ap_overlays m) name \<noteq> None"
  shows "goes_below 6 m (docker_create al name ex m)"
  using assms goes_below_mono [OF isolate_below [OF assms, of al "F_Ready ''''"], of 6]
  by (auto simp: docker_create_def dest: bridge_subnet_Crash split: option.splits res.splits if_splits)

lemma inspected_below:
  assumes "map_of (ap_overlays m) name \<noteq> None"
  shows "goes_below 6 m (inspected al name status m)"
proof -
  have "goes_below 6 m (docker_create al name ex (tally docker_failed m))" for ex
    by (rule goes_below_tally, rule create_below) (simp add: assms tally_def)
  with create_below [OF assms] show ?thesis
    by (auto simp: inspected_def split: future.splits option.splits)
qed

lemma docker_below:
  "map_of (ap_overlays m) name \<noteq> None \<Longrightarrow> goes_below 7 m (configureDockerNetwork lk name m)"
  by (auto simp: configureDockerNetwork_def split: option.splits)

lemma mesos_outcome:
  assumes "map_of (ap_overlays m) name \<noteq> None"
  shows "case configureMesosNetwork al lk name m of
    Ok r \<Rightarrow> True | Error e \<Rightarrow> False | Crash c \<Rightarrow> c = Undefined_Behaviour"
  using assms
  by (auto simp: configureMesosNetwork_def Let_def dest: network_parse_Crash split: option.splits res.splits)

section \<open>The invariant\<close>

definition job_names :: "agent_proc \<Rightarrow> string set" where
  "job_names m = jb_name ` set (ap_jobs m)"

definition job_ids :: "agent_proc \<Rightarrow> nat set" where
  "job_ids m = jb_id ` set (ap_jobs m)"

definition agent_inv :: "agent_proc \<Rightarrow> bool" where
  "agent_inv m \<longleftrightarrow>
     (\<forall>i \<in> job_ids m. i < ap_next m) \<and>
     distinct (map jb_id (ap_jobs m)) \<and> distinct (map jb_name (ap_jobs m)) \<and>
     (\<forall>k \<in> job_names m. map_of (ap_overlays m) k \<noteq> None) \<and>
     (\<forall>k ov. map_of (ap_overlays m) k = Some ov \<longrightarrow>
        ao_name ov = k \<and> has_status ov \<and> status_of ov \<noteq> STATUS_INVALID \<and>
        (status_of ov = STATUS_CONFIGURING \<longleftrightarrow> k \<in> job_names m)) \<and>
     (\<forall>ps \<in> set (ap_awaits m). \<forall>i. Later i \<in> set ps \<longrightarrow> i \<in> job_ids m) \<and>
     am_registering (ap_metrics m) = (if ap_phase m = REGISTERING then 1 else 0) \<and>
     distinct (hm_keys (ap_overlays m))"

lemma agent_invD:
  assumes "agent_inv m"
  shows "\<And>i. i \<in> job_ids m \<Longrightarrow> i < ap_next m"
    "inj_on jb_id (set (ap_jobs m))" "inj_on jb_name (set (ap_jobs m))"
    "distinct (map jb_id (ap_jobs m))" "distinct (map jb_name (ap_jobs m))"
    "\<And>k. k \<in> job_names m \<Longrightarrow> map_of (ap_overlays m) k \<noteq> None"
    "\<And>k ov. map_of (ap_overlays m) k = Some ov \<Longrightarrow> ao_name ov = k"
    "\<And>k ov. map_of (ap_overlays m) k = Some ov \<Longrightarrow> has_status ov"
    "\<And>k ov. map_of (ap_overlays m) k = Some ov \<Longrightarrow> status_of ov \<noteq> STATUS_INVALID"
    "\<And>k ov. map_of (ap_overlays m) k = Some ov \<Longrightarrow> status_of ov = STATUS_CONFIGURING \<longleftrightarrow> k \<in> job_names m"
    "\<And>ps i. ps \<in> set (ap_awaits m) \<Longrightarrow> Later i \<in> set ps \<Longrightarrow> i \<in> job_ids m"
    "am_registering (ap_metrics m) = (if ap_phase m = REGISTERING then 1 else 0)"
    "distinct (hm_keys (ap_overlays m))"
  using assms unfolding agent_inv_def distinct_map by blast+

text \<open>The fields the invariant is about.\<close>

lemma agent_inv_cong:
  "ap_jobs m' = ap_jobs m \<Longrightarrow> ap_next m' = ap_next m \<Longrightarrow> ap_overlays m' = ap_overlays m \<Longrightarrow>
   (\<forall>ps \<in> set (ap_awaits m'). ps \<in> set (ap_awaits m)) \<Longrightarrow>
   am_registering (ap_metrics m') = (if ap_phase m' = REGISTERING then 1 else 0) \<Longrightarrow>
   agent_inv m \<Longrightarrow> agent_inv m'"
  by (simp add: agent_inv_def job_names_def job_ids_def) blast

lemma agent_inv_counted: "counted m m' \<Longrightarrow> agent_inv m \<Longrightarrow> agent_inv m'"
  by (erule exE [OF iffD1 [OF counted_def]]) (simp add: agent_inv_def job_names_def job_ids_def)

lemma set_stage_maps [simp]:
  "map jb_id (ap_jobs (set_stage i st m)) = map jb_id (ap_jobs m)"
  "map jb_name (ap_jobs (set_stage i st m)) = map jb_name (ap_jobs m)"
  "ap_overlays (set_stage i st m) = ap_overlays m" "ap_awaits (set_stage i st m) = ap_awaits m"
  "ap_next (set_stage i st m) = ap_next m" "ap_metrics (set_stage i st m) = ap_metrics m"
  "ap_phase (set_stage i st m) = ap_phase m" "ap_master (set_stage i st m) = ap_master m"
  by (auto simp: set_stage_def)

lemma job_sets: "job_names m = set (map jb_name (ap_jobs m))" "job_ids m = set (map jb_id (ap_jobs m))"
  by (simp_all add: job_names_def job_ids_def)

lemma agent_inv_stage: "agent_inv m \<Longrightarrow> agent_inv (set_stage i st m)"
  by (simp only: agent_inv_def job_sets set_stage_maps) simp

lemma find_job_Some: "find_job i js = Some j \<Longrightarrow> j \<in> set js \<and> jb_id j = i"
  by (auto simp: find_job_def find_Some_iff)

lemma job_known:
  "agent_inv m \<Longrightarrow> find_job i (ap_jobs m) = Some j \<Longrightarrow> map_of (ap_overlays m) (jb_name j) \<noteq> None"
  by (auto simp: agent_inv_def job_names_def dest: find_job_Some)

lemma finished_names:
  assumes "agent_inv m" "find_job i (ap_jobs m) = Some j"
  shows "job_names (finish_job i r m) = job_names m - {jb_name j}"
    "job_ids (finish_job i r m) = job_ids m - {i}"
proof -
  note inj = agent_invD(2,3) [OF assms(1)]
  from find_job_Some [OF assms(2)] have j: "j \<in> set (ap_jobs m)" "jb_id j = i" by simp_all
  have "set (ap_jobs (finish_job i r m)) = set (ap_jobs m) - {j}"
    using j by (auto simp: finish_job_def dest: inj_onD [OF inj(1)])
  then show "job_names (finish_job i r m) = job_names m - {jb_name j}"
    "job_ids (finish_job i r m) = job_ids m - {i}"
    using inj_on_image_set_diff [OF inj(1), of "set (ap_jobs m)" "{j}"] j
      inj_on_image_set_diff [OF inj(2), of "set (ap_jobs m)" "{j}"]
    by (simp_all add: job_names_def job_ids_def)
qed

lemma settle_Later: "Later k = settle i r p \<longleftrightarrow> k \<noteq> i \<and> p = Later k"
  by (cases p) auto

lemma Later_settle [simp]: "Later k \<in> settle i r ` S \<longleftrightarrow> k \<noteq> i \<and> Later k \<in> S"
  by (auto simp: image_iff settle_Later)

lemma agent_inv_finish:
  assumes inv: "agent_inv m" and j: "find_job i (ap_jobs m) = Some j"
    and ov: "ao_name ov = jb_name j" "has_status ov" "status_of ov = STATUS_OK \<or> status_of ov = STATUS_FAILED"
  shows "agent_inv (finish_job i r (m\<lparr>ap_overlays := hm_update (ap_overlays m) (jb_name j) ov\<rparr>))"
    (is "agent_inv (finish_job i r ?m)")
proof -
  have n: "job_names (finish_job i r ?m) = job_names m - {jb_name j}"
    "job_ids (finish_job i r ?m) = job_ids m - {i}"
    using finished_names [OF inv j] by (simp_all add: job_names_def job_ids_def finish_job_def)
  have d: "distinct (map jb_id (ap_jobs (finish_job i r ?m)))"
    "distinct (map jb_name (ap_jobs (finish_job i r ?m)))"
    using agent_invD(4,5) [OF inv] by (simp_all add: finish_job_def distinct_map_filter)
  have o: "map_of (ap_overlays (finish_job i r ?m)) k =
      (if k = jb_name j then Some ov else map_of (ap_overlays m) k)" for k
    using job_known [OF inv j] by (simp add: finish_job_def hm_simps)
  have a: "i' \<in> job_ids m - {i}"
    if "ps \<in> set (ap_awaits (finish_job i r ?m))" "Later i' \<in> set ps" for ps i'
    using that agent_invD(11) [OF inv] by (auto simp: finish_job_def)
  have p: "ap_phase (finish_job i r ?m) = ap_phase m" "ap_metrics (finish_job i r ?m) = ap_metrics m"
    "ap_next (finish_job i r ?m) = ap_next m" "hm_keys (ap_overlays (finish_job i r ?m)) = hm_keys (ap_overlays m)"
    by (simp_all add: finish_job_def hm_simps)
  show ?thesis
    unfolding agent_inv_def n o p
  proof (intro conjI allI ballI impI)
    fix k ov' assume "(if k = jb_name j then Some ov else map_of (ap_overlays m) k) = Some ov'"
    then show "ao_name ov' = k" "has_status ov'" "status_of ov' \<noteq> STATUS_INVALID"
      "status_of ov' = STATUS_CONFIGURING \<longleftrightarrow> k \<in> job_names m - {jb_name j}"
      using ov agent_invD(7-10) [OF inv, of k ov'] by (auto split: if_splits)
  qed (use d a agent_invD(1,6,12,13) [OF inv] in auto)
qed

section \<open>Starting configurations\<close>

lemma hm_update_put: "hm_update (hm_put m k v) k v' = hm_put m k v'"
proof -
  have "hm_update (hm_update m k v) k v' = hm_update m k v'" for m
    by (induction m k v rule: hm_update.induct) auto
  moreover have "k \<notin> fst ` set m \<Longrightarrow> hm_update (m @ [(k, v)]) k v' = m @ [(k, v')]" for m
    by (induction m) auto
  ultimately show ?thesis
    by (auto simp: hm_put_def hm_contains_def map_of_eq_None_iff split: if_splits)
qed

text \<open>What the configuration of an overlay that has just been entered into the map does.\<close>

lemma configure_fresh:
  assumes "ao_name ov = k"
  shows "case configure al lk k (m\<lparr>ap_overlays := hm_put (ap_overlays m) k ov\<rparr>) of
    Ok (m', acts, i) \<Rightarrow>
      (\<exists>n j. i = ap_next m \<and> jb_id j = ap_next m \<and> jb_name j = k \<and> rank (jb_stage j) < 7 \<and>
         m' = m\<lparr>ap_overlays := hm_put (ap_overlays m) k (set_status STATUS_CONFIGURING ov),
                ap_metrics := (ap_metrics m)\<lparr>am_docker_failures := n\<rparr>,
                ap_jobs := ap_jobs m @ [j], ap_next := ap_next m + 1\<rparr>)
  | Error e \<Rightarrow> False
  | Crash c \<Rightarrow> c = Undefined_Behaviour"
proof -
  let ?m = "m\<lparr>ap_overlays := hm_put (ap_overlays m) k (set_status STATUS_CONFIGURING ov)\<rparr>"
  have k: "map_of (ap_overlays ?m) k \<noteq> None" by (simp add: hm_simps)
  have c: "change_overlay k (set_status STATUS_CONFIGURING) (m\<lparr>ap_overlays := hm_put (ap_overlays m) k ov\<rparr>) = Ok ?m"
    by (simp add: change_overlay_def hm_simps hm_update_put)
  show ?thesis
  proof (cases "configureMesosNetwork al lk k ?m")
    case (Ok r)
    then obtain mesos acts where r: "configureMesosNetwork al lk k ?m = Ok (mesos, acts)" by (cases r) auto
    show ?thesis
    proof (cases "configureDockerNetwork lk k ?m")
      case (Ok r')
      then obtain m2 st where d: "configureDockerNetwork lk k ?m = Ok (m2, st)" by (cases r') auto
      with docker_below [OF k, of lk] obtain n where
        "m2 = ?m\<lparr>ap_metrics := (ap_metrics ?m)\<lparr>am_docker_failures := n\<rparr>\<rparr>" "rank st < 7"
        by (auto simp: counted_def)
      then show ?thesis
        by (simp add: configure_def c r d)
           (rule exI [of _ n], rule exI [of _ "\<lparr>jb_id = ap_next m, jb_name = k, jb_mesos = mesos, jb_stage = st\<rparr>"], simp)
    qed (use docker_below [OF k, of lk] in \<open>auto simp: configure_def c r goes_below_def\<close>)
  qed (use mesos_outcome [OF k, of al lk] in \<open>auto simp: configure_def c\<close>)
qed

definition status_at :: "agent_proc \<Rightarrow> string \<Rightarrow> overlay_status option" where
  "status_at m k = map_option status_of (map_of (ap_overlays m) k)"

text \<open>
  How a process evolves while an update is handled: jobs are added, each for an overlay that had
  none, everything else but the overlays and two counters stays.
\<close>

definition evolves :: "agent_proc \<Rightarrow> agent_proc \<Rightarrow> bool" where
  "evolves m m' \<longleftrightarrow>
     (\<exists>js. ap_jobs m' = ap_jobs m @ js) \<and> ap_awaits m' = ap_awaits m \<and> ap_phase m' = ap_phase m \<and>
     ap_master m' = ap_master m \<and> ap_timers m' = ap_timers m \<and> ap_network m' = ap_network m \<and>
     (\<forall>k. status_at m' k = status_at m k \<or> status_at m k \<in> {None, Some STATUS_FAILED} \<and> status_at m' k = Some STATUS_CONFIGURING)"

lemma evolves_refl: "evolves m m"
  by (simp add: evolves_def)

lemma evolves_trans: "evolves m m' \<Longrightarrow> evolves m' m'' \<Longrightarrow> evolves m m''"
proof -
  assume a: "evolves m m'" and b: "evolves m' m''"
  from a b obtain js js' where "ap_jobs m' = ap_jobs m @ js" "ap_jobs m'' = ap_jobs m' @ js'"
    unfolding evolves_def by blast
  then have "\<exists>js. ap_jobs m'' = ap_jobs m @ js" by simp
  moreover have "status_at m'' k = status_at m k \<or> status_at m k \<in> {None, Some STATUS_FAILED} \<and> status_at m'' k = Some STATUS_CONFIGURING" for k
  proof -
    from a have "status_at m' k = status_at m k \<or> status_at m k \<in> {None, Some STATUS_FAILED} \<and> status_at m' k = Some STATUS_CONFIGURING"
      by (simp add: evolves_def)
    moreover from b have "status_at m'' k = status_at m' k \<or> status_at m' k \<in> {None, Some STATUS_FAILED} \<and> status_at m'' k = Some STATUS_CONFIGURING"
      by (simp add: evolves_def)
    ultimately show ?thesis by auto
  qed
  ultimately show ?thesis using a b by (simp add: evolves_def)
qed

lemma agent_inv_configured:
  assumes inv: "agent_inv m" and k: "k \<notin> job_names m" "ao_name ov = k" and j: "jb_id j = ap_next m" "jb_name j = k"
  shows "agent_inv (m\<lparr>ap_overlays := hm_put (ap_overlays m) k (set_status STATUS_CONFIGURING ov),
      ap_metrics := (ap_metrics m)\<lparr>am_docker_failures := n\<rparr>,
      ap_jobs := ap_jobs m @ [j], ap_next := ap_next m + 1\<rparr>)" (is "agent_inv ?m")
proof -
  have n: "job_names ?m = insert k (job_names m)" "job_ids ?m = insert (ap_next m) (job_ids m)"
    using j by (auto simp: job_names_def job_ids_def)
  have "ap_next m \<notin> job_ids m" using agent_invD(1) [OF inv] by auto
  then have d: "distinct (map jb_id (ap_jobs ?m))" "distinct (map jb_name (ap_jobs ?m))"
    using agent_invD(4,5) [OF inv] j k by (auto simp: job_names_def job_ids_def)
  show ?thesis
    unfolding agent_inv_def n
  proof (intro conjI allI ballI impI)
    fix k' ov' assume "map_of (ap_overlays ?m) k' = Some ov'"
    then have "(if k' = k then Some (set_status STATUS_CONFIGURING ov) else map_of (ap_overlays m) k') = Some ov'"
      by (simp add: hm_simps)
    then show "ao_name ov' = k'" "has_status ov'" "status_of ov' \<noteq> STATUS_INVALID"
      "status_of ov' = STATUS_CONFIGURING \<longleftrightarrow> k' \<in> insert k (job_names m)"
      using k agent_invD(7-10) [OF inv, of k' ov'] by (auto split: if_splits)
  next
    fix i assume "i \<in> insert (ap_next m) (job_ids m)"
    then show "i < ap_next ?m" using agent_invD(1) [OF inv, of i] by auto
  next
    fix k' assume "k' \<in> insert k (job_names m)"
    then show "map_of (ap_overlays ?m) k' \<noteq> None" using agent_invD(6) [OF inv, of k'] by (auto simp: hm_simps)
  next
    fix ps i assume "ps \<in> set (ap_awaits ?m)" "Later i \<in> set ps"
    then show "i \<in> insert (ap_next m) (job_ids m)" using agent_invD(11) [OF inv] by simp
  qed (use d agent_invD(12,13) [OF inv] in \<open>simp_all add: hm_simps\<close>)
qed

text \<open>One round of the loop that starts a configuration.\<close>

lemma configure_ok:
  assumes inv: "agent_inv m" and k: "ao_name ov \<notin> job_names m" "status_at m (ao_name ov) \<noteq> Some STATUS_OK"
  shows "case configure al lk (ao_name ov) (m\<lparr>ap_overlays := hm_put (ap_overlays m) (ao_name ov) ov\<rparr>) of
    Ok (m', acts, i) \<Rightarrow> agent_inv m' \<and> evolves m m' \<and> i \<in> job_ids m'
  | Error e \<Rightarrow> False
  | Crash c \<Rightarrow> c = Undefined_Behaviour"
proof -
  have "status_at m (ao_name ov) \<in> {None, Some STATUS_FAILED}"
  proof (cases "map_of (ap_overlays m) (ao_name ov)")
    case (Some old)
    with agent_invD(9,10) [OF inv Some] k show ?thesis by (cases "status_of old") (auto simp: status_at_def)
  qed (simp add: status_at_def)
  then have ev: "evolves m (m\<lparr>ap_overlays := hm_put (ap_overlays m) (ao_name ov) (set_status STATUS_CONFIGURING ov),
      ap_metrics := (ap_metrics m)\<lparr>am_docker_failures := n\<rparr>,
      ap_jobs := ap_jobs m @ [j], ap_next := ap_next m + 1\<rparr>)" for n j
    by (simp add: evolves_def status_at_def hm_simps)
  let ?r = "configure al lk (ao_name ov) (m\<lparr>ap_overlays := hm_put (ap_overlays m) (ao_name ov) ov\<rparr>)"
  note c = configure_fresh [of ov "ao_name ov", OF refl, where al = al and lk = lk and m = m]
  show ?thesis
  proof (cases ?r)
    case (Ok x)
    then obtain m' acts i where r: "?r = Ok (m', acts, i)" by (cases x) auto
    with c obtain n j where j: "i = ap_next m" "jb_id j = ap_next m" "jb_name j = ao_name ov"
      "m' = m\<lparr>ap_overlays := hm_put (ap_overlays m) (ao_name ov) (set_status STATUS_CONFIGURING ov),
         ap_metrics := (ap_metrics m)\<lparr>am_docker_failures := n\<rparr>,
         ap_jobs := ap_jobs m @ [j], ap_next := ap_next m + 1\<rparr>" by auto
    with agent_inv_configured [OF inv k(1) refl j(2,3)] ev show ?thesis
      by (simp add: r job_ids_def)
  qed (use c in simp_all)
qed

text \<open>What the loop leaves, and one round that starts a configuration before the others.\<close>

definition updates_ok ::
  "agent_overlay_info list \<Rightarrow> pending list \<Rightarrow> agent_proc \<Rightarrow>
   (agent_proc \<times> agent_action list \<times> (int \<times> pending list) option) res \<Rightarrow> bool" where
  "updates_ok ovs fs m res \<longleftrightarrow>
     (case res of
        Ok (m', acts, r) \<Rightarrow> agent_inv m' \<and> evolves m m' \<and>
          (case r of None \<Rightarrow> True
           | Some (n', fs') \<Rightarrow> (\<forall>i. Later i \<in> set fs' \<longrightarrow> Later i \<in> set fs \<or> i \<in> job_ids m') \<and>
               length fs' = length fs + length ovs)
      | Error e \<Rightarrow> False
      | Crash c \<Rightarrow> c = Undefined_Behaviour \<or> c = Check_Failed \<and> (\<exists>ov \<in> set ovs. ao_state ov \<noteq> None))"

lemma updates_ok_started:
  assumes "updates_ok ovs (fs @ [Later i]) m1 res" "evolves m m1" "i \<in> job_ids m1"
  shows "updates_ok (ov # ovs) fs m (bind_res res (\<lambda>(m2, acts', r). Ok (m2, acts @ acts', r)))"
proof (cases res)
  case (Ok x)
  obtain m2 acts2 r where x: "x = (m2, acts2, r)" by (cases x)
  from assms(1) have m2: "agent_inv m2" "evolves m1 m2" by (simp_all add: updates_ok_def Ok x)
  have "i \<in> job_ids m2" using assms(3) m2(2) by (auto simp: evolves_def job_ids_def)
  with assms(1) m2 evolves_trans [OF assms(2) m2(2)] show ?thesis
    by (auto simp: updates_ok_def Ok x split: option.splits)
qed (use assms(1) in \<open>auto simp: updates_ok_def\<close>)

lemma update_overlays_ok: "agent_inv m \<Longrightarrow> updates_ok ovs fs m (update_overlays al lk ovs n fs m)"
proof (induction ovs arbitrary: n fs m)
  case Nil
  then show ?case by (simp add: updates_ok_def evolves_refl)
next
  case (Cons ov ovs)
  note inv = Cons.prems
  let ?known = "case map_of (ap_overlays m) (ao_name ov) of None \<Rightarrow> None
     | Some old \<Rightarrow> if has_status old then Some (status_of old) else None"
  have known: "?known = status_at m (ao_name ov)"
    using agent_invD(8) [OF inv] by (auto simp: status_at_def split: option.splits)
  consider (busy) "status_at m (ao_name ov) = Some STATUS_CONFIGURING" | (ok) "status_at m (ao_name ov) = Some STATUS_OK"
    | (state) "status_at m (ao_name ov) \<notin> {Some STATUS_CONFIGURING, Some STATUS_OK}" "ao_state ov \<noteq> None"
    | (start) "status_at m (ao_name ov) \<notin> {Some STATUS_CONFIGURING, Some STATUS_OK}" "ao_state ov = None"
    by blast
  then show ?case
  proof cases
    case busy
    have "agent_inv (tally update_dropped m)"
      by (rule agent_inv_cong [OF _ _ _ _ _ inv]) (simp_all add: tally_def update_dropped_def agent_invD(12) [OF inv])
    moreover have "evolves m (tally update_dropped m)" by (simp add: evolves_def tally_def status_at_def)
    ultimately show ?thesis by (simp add: known busy Let_def updates_ok_def)
  next
    case ok
    with Cons.IH [OF inv, where n = n and fs = "fs @ [Now (F_Ready ())]"] show ?thesis
      by (auto simp: known Let_def updates_ok_def split: res.splits option.splits)
  next
    case state
    then show ?thesis by (simp add: known Let_def updates_ok_def)
  next
    case start
    have k: "ao_name ov \<notin> job_names m" "status_at m (ao_name ov) \<noteq> Some STATUS_OK"
      using agent_invD(6) [OF inv, of "ao_name ov"] agent_invD(10) [OF inv, of "ao_name ov"] start(1)
      by (auto simp: status_at_def)
    note c = configure_ok [OF inv k, where al = al and lk = lk]
    let ?r = "configure al lk (ao_name ov) (m\<lparr>ap_overlays := hm_put (ap_overlays m) (ao_name ov) ov\<rparr>)"
    show ?thesis
    proof (cases ?r)
      case (Ok x)
      then obtain m1 acts i where r: "?r = Ok (m1, acts, i)" by (cases x) auto
      with c have m1: "agent_inv m1" "evolves m m1" "i \<in> job_ids m1" by simp_all
      from updates_ok_started [OF Cons.IH [OF m1(1)] m1(2,3)] start show ?thesis
        by (simp add: known Let_def r)
    qed (use c start in \<open>simp_all add: known Let_def updates_ok_def\<close>)
  qed
qed

section \<open>Every handler\<close>

text \<open>A step that leaves the jobs and the overlays alone.\<close>

definition idle :: "agent_proc \<Rightarrow> agent_proc \<Rightarrow> bool" where
  "idle m m' \<longleftrightarrow>
     ap_jobs m' = ap_jobs m \<and> ap_next m' = ap_next m \<and> ap_overlays m' = ap_overlays m \<and>
     (\<forall>ps \<in> set (ap_awaits m'). ps \<in> set (ap_awaits m)) \<and>
     am_registering (ap_metrics m') = (if ap_phase m' = REGISTERING then 1 else 0)"

lemma idle_inv: "idle m m' \<Longrightarrow> agent_inv m \<Longrightarrow> agent_inv m'"
  by (rule agent_inv_cong) (simp_all add: idle_def)

lemma idle_status: "idle m m' \<Longrightarrow> status_at m' k = status_at m k"
  by (simp add: idle_def status_at_def)

lemma tally_sel [simp]:
  "ap_jobs (tally f m) = ap_jobs m" "ap_next (tally f m) = ap_next m"
  "ap_overlays (tally f m) = ap_overlays m" "ap_awaits (tally f m) = ap_awaits m"
  "ap_phase (tally f m) = ap_phase m" "ap_master (tally f m) = ap_master m"
  "ap_timers (tally f m) = ap_timers m" "ap_network (tally f m) = ap_network m"
  "ap_metrics (tally f m) = f (ap_metrics m)" "ap_attempts (tally f m) = ap_attempts m"
  "ap_max_attempts (tally f m) = ap_max_attempts m" "ap_connected (tally f m) = ap_connected m"
  by (simp_all add: tally_def)

definition quiet :: "agent_proc \<Rightarrow> agent_handled \<Rightarrow> bool" where
  \<comment> \<open>an idle step, or the end of the process\<close>
  "quiet m r \<longleftrightarrow>
     (case r of Ok (m', acts) \<Rightarrow> idle m m' | Error e \<Rightarrow> False | Crash c \<Rightarrow> True)"

lemma register_quiet:
  "am_registering (ap_metrics m) = (if ap_phase m = REGISTERING then 1 else 0) \<Longrightarrow>
   quiet m (doReliableRegistration lk b m)"
  by (auto simp: quiet_def idle_def doReliableRegistration_def Let_def split: option.splits)

lemma quiet_trans: "idle m m1 \<Longrightarrow> quiet m1 r \<Longrightarrow> quiet m r"
  by (auto simp: quiet_def idle_def split: res.splits)

lemma exited_quiet: "quiet m (exited lk pid m)"
proof -
  have "idle m (registering m)" by (simp add: idle_def registering_def)
  moreover have "quiet (registering m) (doReliableRegistration lk INITIAL_BACKOFF_PERIOD (registering m))"
    by (rule register_quiet) (simp add: registering_def)
  ultimately show ?thesis unfolding exited_def by (rule quiet_trans)
qed

lemma quiet_bind: "quiet m r \<Longrightarrow> quiet m (bind_res r (\<lambda>(m', acts). Ok (m', f acts)))"
  by (cases r) (auto simp: quiet_def)

lemma detected_quiet: "quiet m (detected al lk leader m)"
proof -
  let ?m = "\<lambda>p. (registering (m\<lparr>ap_attempts := 0\<rparr>))\<lparr>ap_master := p\<rparr>"
  have i: "idle m (?m p)" for p by (simp add: idle_def registering_def)
  have q: "quiet m (bind_res (doReliableRegistration lk INITIAL_BACKOFF_PERIOD (?m p))
      (\<lambda>(m', acts). Ok (m', f acts)))" for p f
    by (rule quiet_bind, rule quiet_trans [OF i], rule register_quiet) (simp add: registering_def)
  have n: "quiet m (Ok (?m p, acts))" "quiet m (Crash c)" for p acts c
    by (simp_all add: quiet_def i)
  show ?thesis
    unfolding detected_def Let_def
    by (cases leader) (auto simp: n intro!: q split: option.splits)
qed

lemma retry_quiet:
  assumes "agent_inv m"
  shows "quiet m (retry lk i m)"
proof (cases "i < length (ap_timers m)")
  case True
  let ?m = "m\<lparr>ap_timers := take i (ap_timers m) @ drop (Suc i) (ap_timers m)\<rparr>"
  have r: "am_registering (ap_metrics m) = (if ap_phase m = REGISTERING then 1 else 0)"
    by (rule agent_invD(12) [OF assms])
  then have "idle m ?m" by (simp add: idle_def)
  moreover have "quiet ?m (doReliableRegistration lk (ap_timers m ! i) ?m)"
    by (rule register_quiet) (use r in simp)
  ultimately show ?thesis by (simp add: retry_def True quiet_trans)
next
  case False
  then show ?thesis using agent_invD(12) [OF assms] by (simp add: retry_def quiet_def idle_def)
qed

lemma ack_quiet: "agent_inv m \<Longrightarrow> quiet m (agentRegisteredAcknowledgement from m)"
  using agent_invD(12) [of m]
  by (auto simp: quiet_def agentRegisteredAcknowledgement_def Let_def idle_def)

lemma awaited_quiet:
  assumes "agent_inv m"
  shows "quiet m (awaited i m)"
proof (cases "i < length (ap_awaits m)")
  case True
  have "set (take i ps @ drop (Suc i) ps) \<subseteq> set ps" for ps :: "pending list list"
    using set_take_subset [of i ps] set_drop_subset [of "Suc i" ps] by auto
  then have d: "idle m (m\<lparr>ap_awaits := take i (ap_awaits m) @ drop (Suc i) (ap_awaits m)\<rparr>)" (is "idle m ?m")
    using agent_invD(12) [OF assms] unfolding idle_def by fastforce
  have "quiet ?m (updated rs ?m)" for rs
    using agent_invD(12) [OF assms]
    by (auto simp: quiet_def updated_def Let_def idle_def registered_drop_def update_dropped_def
        split: option.splits future.splits)
  with True d show ?thesis by (simp add: awaited_def quiet_trans)
next
  case False
  then show ?thesis using agent_invD(12) [OF assms] by (simp add: awaited_def quiet_def idle_def)
qed

lemma overlay_quiet: "agent_inv m \<Longrightarrow> quiet m (agent_overlay_endpoint al self js pb m)"
  using agent_invD(12) [of m] by (simp add: quiet_def agent_overlay_endpoint_def Let_def idle_def)

section \<open>Jobs make progress\<close>

definition work :: "agent_proc \<Rightarrow> nat" where
  "work m = sum_list (map (rank \<circ> jb_stage) (ap_jobs m))"

lemma rank_pos: "0 < rank st"
  by (cases st) simp_all

lemma work_stage:
  "distinct (map jb_id js) \<Longrightarrow> j \<in> set js \<Longrightarrow> jb_id j = i \<Longrightarrow>
   sum_list (map (rank \<circ> jb_stage) (map (\<lambda>j. if jb_id j = i then j\<lparr>jb_stage := st\<rparr> else j) js)) +
     rank (jb_stage j) = sum_list (map (rank \<circ> jb_stage) js) + rank st"
proof (induction js)
  case (Cons a js)
  have "map (\<lambda>j. if jb_id j = i then j\<lparr>jb_stage := st\<rparr> else j) js = js" if "i \<notin> jb_id ` set js"
    using that by (induction js) auto
  with Cons show ?case by (cases "a = j") auto
qed simp

lemma work_finish:
  "distinct (map jb_id js) \<Longrightarrow> j \<in> set js \<Longrightarrow> jb_id j = i \<Longrightarrow>
   sum_list (map (rank \<circ> jb_stage) (filter (\<lambda>j. jb_id j \<noteq> i) js)) + rank (jb_stage j) =
     sum_list (map (rank \<circ> jb_stage) js)"
proof (induction js)
  case (Cons a js)
  have "filter (\<lambda>j. jb_id j \<noteq> i) js = js" if "i \<notin> jb_id ` set js"
    using that by (induction js) auto
  with Cons show ?case by (cases "a = j") auto
qed simp

text \<open>What a step of a job does.\<close>

definition works :: "job \<Rightarrow> agent_proc \<Rightarrow> agent_handled \<Rightarrow> bool" where
  "works j m r \<longleftrightarrow>
     (case r of
        Ok (m', acts) \<Rightarrow> agent_inv m' \<and> work m' < work m \<and> ap_phase m' = ap_phase m \<and>
          ap_master m' = ap_master m \<and> ap_timers m' = ap_timers m \<and> ap_network m' = ap_network m \<and>
          (\<forall>k. status_at m' k = status_at m k \<or>
             k = jb_name j \<and> status_at m' k \<in> {Some STATUS_OK, Some STATUS_FAILED})
      | Error e \<Rightarrow> False
      | Crash c \<Rightarrow> c = Undefined_Behaviour)"

lemma move_works:
  assumes inv: "agent_inv m" and j: "find_job i (ap_jobs m) = Some j"
    and r: "goes_below (rank (jb_stage j)) m r"
  shows "works j m (move_job i r)"
proof (cases r)
  case (Ok x)
  with r obtain n st where x: "r = Ok (m\<lparr>ap_metrics := (ap_metrics m)\<lparr>am_docker_failures := n\<rparr>\<rparr>, st)"
    and st: "rank st < rank (jb_stage j)" by (cases x) (auto simp: counted_def)
  let ?m = "m\<lparr>ap_metrics := (ap_metrics m)\<lparr>am_docker_failures := n\<rparr>\<rparr>"
  have c: "agent_inv ?m" by (rule agent_inv_counted [OF _ inv]) (auto simp: counted_def)
  have "work (set_stage i st ?m) + rank (jb_stage j) = work m + rank st"
    using work_stage [OF agent_invD(4) [OF inv], of j i st] find_job_Some [OF j]
    by (simp add: work_def set_stage_def)
  with st agent_inv_stage [OF c, of i st] show ?thesis
    by (simp add: works_def move_job_def x status_at_def) (simp add: set_stage_def)
qed (use r in \<open>simp_all add: works_def move_job_def goes_below_def\<close>)

lemma finish_works:
  assumes inv: "agent_inv m" and j: "find_job i (ap_jobs m) = Some j"
    and f: "\<And>ov. ao_name (f ov) = ao_name ov \<and> has_status (f ov) \<and>
      (status_of (f ov) = STATUS_OK \<or> status_of (f ov) = STATUS_FAILED)"
  shows "works j m (bind_res (change_overlay (jb_name j) f m) (\<lambda>m1. Ok (finish_job i res m1, [])))"
proof -
  from job_known [OF inv j] obtain ov where ov: "map_of (ap_overlays m) (jb_name j) = Some ov" by blast
  let ?m = "m\<lparr>ap_overlays := hm_update (ap_overlays m) (jb_name j) (f ov)\<rparr>"
  have "agent_inv (finish_job i res ?m)"
    using f [of ov] agent_invD(7) [OF inv ov] by (intro agent_inv_finish [OF inv j]) auto
  moreover have "work (finish_job i res ?m) + rank (jb_stage j) = work m"
    using work_finish [OF agent_invD(4) [OF inv], of j i] find_job_Some [OF j]
    by (simp add: work_def finish_job_def)
  moreover have "status_at (finish_job i res ?m) k = status_at m k \<or>
      k = jb_name j \<and> status_at (finish_job i res ?m) k \<in> {Some STATUS_OK, Some STATUS_FAILED}" for k
    using f [of ov] ov by (auto simp: status_at_def finish_job_def hm_simps)
  ultimately show ?thesis
    using rank_pos [of "jb_stage j"]
    by (simp add: works_def change_overlay_def ov) (simp add: finish_job_def)
qed

lemma failed_status:
  "ao_name (set_error e (set_status STATUS_FAILED ov)) = ao_name ov"
  "has_status (set_error e (set_status STATUS_FAILED ov))"
  "status_of (set_error e (set_status STATUS_FAILED ov)) = STATUS_FAILED"
  by (simp_all add: ao_name_def set_error_def set_status_def has_status_def status_of_def)

lemma success_works:
  "agent_inv m \<Longrightarrow> find_job i (ap_jobs m) = Some j \<Longrightarrow>
   works j m (bind_res (overlaySuccess (jb_name j) m) (\<lambda>m1. Ok (finish_job i res m1, [])))"
  unfolding overlaySuccess_def by (rule finish_works) simp_all

lemma failure_works:
  "agent_inv m \<Longrightarrow> find_job i (ap_jobs m) = Some j \<Longrightarrow>
   works j m (bind_res (overlayFailure (jb_name j) e m) (\<lambda>m1. Ok (finish_job i res m1, [])))"
  unfolding overlayFailure_def by (rule finish_works) (simp_all add: failed_status)

lemma inspected_works:
  assumes "agent_inv m" "find_job i (ap_jobs m) = Some j" "jb_stage j = Inspecting"
  shows "works j m (job_inspected al i status m)"
  using move_works [OF assms(1,2), of "inspected al (jb_name j) status m"]
    inspected_below [OF job_known [OF assms(1,2)], of al status] assms(2,3)
  by (simp add: job_inspected_def)

lemma masqueraded_works:
  assumes "agent_inv m" "find_job i (ap_jobs m) = Some j"
  shows "works j m (bind_res (masqueraded (jb_name j) r m) (\<lambda>(m1, res). Ok (finish_job i res m1, [])))"
proof -
  have b: "bind_res (bind_res x (\<lambda>m1. Ok (m1, res))) (\<lambda>(m1, res). Ok (finish_job i res m1, [])) =
    bind_res x (\<lambda>m1. Ok (finish_job i res m1, []))" for x res by (cases x) simp_all
  show ?thesis
    using success_works [OF assms] failure_works [OF assms]
    by (cases r) (simp_all add: masqueraded_def b)
qed

lemma script_works:
  assumes "agent_inv m" "find_job i (ap_jobs m) = Some j" "stage_command (jb_stage j) \<noteq> None"
  shows "works j m (job_script al i run m)"
proof -
  note mv = move_works [OF assms(1,2)]
  note iso = isolate_below [OF job_known [OF assms(1,2)]]
  show ?thesis
  proof (cases "jb_stage j")
    case (Creating c)
    then show ?thesis
      using assms(2) iso
      by (auto simp: job_script_def Let_def intro!: mv split: future.splits)
  next
    case Isolating
    then show ?thesis
      using assms(2) by (auto simp: job_script_def Let_def intro!: mv split: future.splits)
  next
    case Isolating2
    then show ?thesis
      using assms(2) by (auto simp: job_script_def Let_def intro!: mv)
  next
    case (Masquerading c)
    then show ?thesis
      using assms(2) masqueraded_works [OF assms(1,2)] by (simp add: job_script_def Let_def)
  qed (use assms(3) in simp_all)
qed

lemma decide_works:
  assumes "agent_inv m" "find_job i (ap_jobs m) = Some j" "jb_stage j = Deciding docker"
  shows "works j m (job_decide i m)"
proof -
  obtain ov where ov: "map_of (ap_overlays m) (jb_name j) = Some ov" using job_known [OF assms(1,2)] by blast
  let ?then = "\<lambda>(m1, d). case d of Finished r \<Rightarrow> Ok (finish_job i r m1, []) | Continue st \<Rightarrow> move_job i (Ok (m1, st))"
  have b: "bind_res (bind_res x (\<lambda>m1. Ok (m1, Finished r))) ?then = bind_res x (\<lambda>m1. Ok (finish_job i r m1, []))"
    for x r by (cases x) simp_all
  have "works j m (move_job i (Ok (m, Masquerading c)))" for c
    using assms(3) by (intro move_works [OF assms(1,2)]) auto
  then show ?thesis
    using success_works [OF assms(1,2)] failure_works [OF assms(1,2)]
    by (simp add: job_decide_def assms(2,3) decide_def ov Let_def b)
qed

section \<open>Steps\<close>

fun job_event :: "agent_event \<Rightarrow> bool" where
  "job_event (A_Inspected i status) = True"
| "job_event (A_Script i run) = True"
| "job_event (A_Decide i) = True"
| "job_event _ = False"

fun event_job :: "agent_event \<Rightarrow> nat" where
  "event_job (A_Inspected i status) = i"
| "event_job (A_Script i run) = i"
| "event_job (A_Decide i) = i"
| "event_job _ = 0"

lemma job_event_works:
  assumes "agent_inv m" "job_event e" "agent_enabled e m"
  obtains j where "find_job (event_job e) (ap_jobs m) = Some j" "works j m (agent_handle al lk e m)"
  using assms inspected_works script_works decide_works
  by (cases e) (auto split: option.splits stage.splits)

lemma other_quiet:
  assumes "agent_inv m" "\<not> job_event e" "\<nexists>ovs. e = A_Update ovs"
  shows "quiet m (agent_handle al lk e m)"
  using assms(2,3) ack_quiet [OF assms(1)] detected_quiet exited_quiet retry_quiet [OF assms(1)]
    awaited_quiet [OF assms(1)] overlay_quiet [OF assms(1)]
  by (cases e) auto

lemma update_ok:
  assumes "agent_inv m"
  shows "case updateAgentOverlays al lk ovs m of
    Ok (m', acts) \<Rightarrow> agent_inv m' \<and> (\<forall>k. status_at m' k = status_at m k \<or>
       status_at m k \<in> {None, Some STATUS_FAILED} \<and> status_at m' k = Some STATUS_CONFIGURING) \<and>
       ap_phase m' = ap_phase m \<and> ap_master m' = ap_master m
  | Error e \<Rightarrow> False
  | Crash c \<Rightarrow> c = Undefined_Behaviour \<or> c = Check_Failed \<and> (\<exists>ov \<in> set ovs. ao_state ov \<noteq> None)"
proof -
  let ?m = "tally (\<lambda>mm. mm\<lparr>am_update_received := am_update_received mm + 1\<rparr>) m"
  have i: "idle m ?m" using agent_invD(12) [OF assms] by (simp add: idle_def)
  note inv = idle_inv [OF i assms]
  show ?thesis
  proof (cases "ap_phase m = REGISTERING")
    case False
    have "idle m (tally update_dropped ?m)" using i by (simp add: idle_def update_dropped_def)
    with False idle_inv [OF _ assms] idle_status show ?thesis
      by (auto simp: updateAgentOverlays_def)
  next
    case True
    note u = update_overlays_ok [OF inv, where al = al and lk = lk and ovs = ovs and n = 0 and fs = "[]", unfolded updates_ok_def]
    show ?thesis
    proof (cases "update_overlays al lk ovs 0 [] ?m")
      case (Ok x)
      then obtain m1 acts r where x: "update_overlays al lk ovs 0 [] ?m = Ok (m1, acts, r)" by (cases x) auto
      from u have m1: "agent_inv m1" "evolves ?m m1" by (simp_all add: x)
      then have st: "status_at m1 k = status_at m k \<or>
         status_at m k \<in> {None, Some STATUS_FAILED} \<and> status_at m1 k = Some STATUS_CONFIGURING" for k
        by (simp add: evolves_def idle_status [OF i])
      have p: "ap_phase m1 = ap_phase m" "ap_master m1 = ap_master m" using m1(2) by (simp_all add: evolves_def)
      show ?thesis
      proof (cases r)
        case None
        with m1 st p True show ?thesis by (simp add: updateAgentOverlays_def x)
      next
        case (Some y)
        obtain n fs where y: "y = (n, fs)" by (cases y)
        let ?m2 = "tally (\<lambda>mm. mm\<lparr>am_without_subnets := n\<rparr>) m1"
        have i2: "idle m1 ?m2" using agent_invD(12) [OF m1(1)] by (simp add: idle_def)
        note inv2 = idle_inv [OF i2 m1(1)]
        have fs: "Later i \<in> set fs \<Longrightarrow> i \<in> job_ids m1" "length fs = length ovs" for i
          using u by (auto simp: x Some y)
        have s2: "status_at (?m2\<lparr>ap_awaits := a\<rparr>) k = status_at m1 k" for a k by (simp add: status_at_def)
        have "agent_inv (?m2\<lparr>ap_awaits := ap_awaits ?m2 @ [fs]\<rparr>)"
          using inv2 fs(1) by (auto simp: agent_inv_def job_names_def job_ids_def)
        moreover have "\<not> (ovs \<noteq> [] \<and> fs = [])" using fs(2) by auto
        ultimately show ?thesis using st p True by (auto simp: updateAgentOverlays_def x Some y s2 Let_def)
      qed
    qed (use u True in \<open>simp_all add: updateAgentOverlays_def\<close>)
  qed
qed

lemma step_inv:
  assumes "agent_inv m" "agent_step al m e acts m'"
  shows "agent_inv m'"
proof -
  from assms(2) obtain lk where en: "agent_enabled e m" and h: "agent_handle al lk e m = Ok (m', acts)"
    by (auto elim: agent_stepE)
  consider (job) "job_event e" | (upd) ovs where "e = A_Update ovs" | (other) "\<not> job_event e" "\<nexists>ovs. e = A_Update ovs"
    by blast
  then show ?thesis
  proof cases
    case job
    with job_event_works [OF assms(1) _ en, of al lk] h show ?thesis by (auto simp: works_def)
  next
    case upd
    with update_ok [OF assms(1), where al = al and lk = lk and ovs = ovs] h show ?thesis by simp
  next
    case other
    with other_quiet [OF assms(1), of e al lk] h show ?thesis by (auto simp: quiet_def intro: idle_inv [OF _ assms(1)])
  qed
qed

lemma reachable_agent_inv: "agent_reachable al m \<Longrightarrow> agent_inv m"
proof (induction rule: agent_reachable.induct)
  case (init dir dataDir cfg attempts m acts)
  then have "m = registering (agent_new dir dataDir cfg attempts)" by (simp add: initialize_def)
  then show ?case
    by (simp add: registering_def agent_new_def tally_def agent_inv_def job_names_def job_ids_def hm_keys_def)
qed (rule step_inv)

section \<open>Properties\<close>

text \<open>The life of an overlay, the specification of the configuration.\<close>

inductive lifecycle :: "overlay_status option \<Rightarrow> overlay_status option \<Rightarrow> bool" where
  announced: "lifecycle None (Some STATUS_CONFIGURING)"
| succeeded: "lifecycle (Some STATUS_CONFIGURING) (Some STATUS_OK)"
| failed: "lifecycle (Some STATUS_CONFIGURING) (Some STATUS_FAILED)"
| tried_again: "lifecycle (Some STATUS_FAILED) (Some STATUS_CONFIGURING)"

text \<open>
  C11: Every step of a reachable agent refines the life cycle of each overlay: unknown overlays and
  failed ones can become \<open>STATUS_CONFIGURING\<close>, and from there \<open>STATUS_OK\<close> or \<open>STATUS_FAILED\<close>; nothing
  else happens to a status. So an overlay is never forgotten, and one that is configured stays so.
\<close>

theorem agent_refines_lifecycle:
  assumes "agent_reachable al m" "agent_step al m e acts m'"
  shows "status_at m' k = status_at m k \<or> lifecycle (status_at m k) (status_at m' k)"
proof -
  note inv = reachable_agent_inv [OF assms(1)]
  from assms(2) obtain lk where en: "agent_enabled e m" and h: "agent_handle al lk e m = Ok (m', acts)"
    by (auto elim: agent_stepE)
  consider (job) "job_event e" | (upd) ovs where "e = A_Update ovs" | (other) "\<not> job_event e" "\<nexists>ovs. e = A_Update ovs"
    by blast
  then show ?thesis
  proof cases
    case job
    from job_event_works [OF inv job en] obtain j where j: "find_job (event_job e) (ap_jobs m) = Some j"
      and w: "works j m (agent_handle al lk e m)" .
    have "jb_name j \<in> job_names m" using find_job_Some [OF j] by (simp add: job_names_def)
    with agent_invD(6,10) [OF inv] have "status_at m (jb_name j) = Some STATUS_CONFIGURING"
      by (fastforce simp: status_at_def)
    moreover from w h have "status_at m' k = status_at m k \<or>
        k = jb_name j \<and> status_at m' k \<in> {Some STATUS_OK, Some STATUS_FAILED}" by (simp add: works_def)
    ultimately show ?thesis by (auto intro: lifecycle.intros)
  next
    case upd
    with update_ok [OF inv, where al = al and lk = lk and ovs = ovs] h
    have "status_at m' k = status_at m k \<or>
        status_at m k \<in> {None, Some STATUS_FAILED} \<and> status_at m' k = Some STATUS_CONFIGURING" by simp
    then show ?thesis by (auto intro: lifecycle.intros)
  next
    case other
    with other_quiet [OF inv, of e al lk] h show ?thesis by (auto simp: quiet_def idle_status)
  qed
qed

text \<open>
  C14: An agent leaves the state \<open>REGISTERING\<close> only on an acknowledgement, and only when every
  overlay it knows is in \<open>STATUS_OK\<close> or it has used up its configuration attempts; the gauge
  \<open>registering\<close> then goes down.
\<close>

theorem registered_when_configured:
  assumes "agent_reachable al m" "agent_step al m e acts m'" "ap_phase m = REGISTERING" "ap_phase m' = REGISTERED"
  shows "(\<exists>from. e = A_Ack from) \<and> am_registering (ap_metrics m') = 0 \<and> ap_connected m' \<and>
    (ap_attempts m' > ap_max_attempts m' \<or>
     (\<forall>k ov. map_of (ap_overlays m') k = Some ov \<longrightarrow> status_of ov = STATUS_OK))"
proof -
  note inv = reachable_agent_inv [OF assms(1)]
  from assms(2) obtain lk where en: "agent_enabled e m" and h: "agent_handle al lk e m = Ok (m', acts)"
    by (auto elim: agent_stepE)
  have "\<not> job_event e"
    using job_event_works [OF inv _ en, of al lk] h assms(3,4) by (auto simp: works_def)
  moreover have "e \<noteq> A_Update ovs" for ovs
    using update_ok [OF inv, where al = al and lk = lk and ovs = ovs] h assms(3,4) by auto
  moreover have r: "doReliableRegistration lk b m1 = Ok (m2, acts1) \<Longrightarrow> ap_phase m2 = ap_phase m1" for b m1 m2 acts1
    by (auto simp: doReliableRegistration_def Let_def split: if_splits option.splits)
  have g: "ap_phase (registering m1) = REGISTERING" for m1 by (simp add: registering_def)
  have "ap_phase m' = REGISTERING" if "e = A_Detected leader" for leader
    using h that by (cases leader) (auto simp: detected_def Let_def g res_simps dest!: r split: option.splits)
  moreover have "ap_phase m' = REGISTERING" if "e = A_Exited pid" for pid
    using h that by (auto simp: exited_def g dest!: r)
  moreover have "ap_phase m' = REGISTERING" if "e = A_Retry i" for i
    using h that assms(3) by (auto simp: retry_def dest!: r split: if_splits)
  moreover have "ap_phase m' = REGISTERING" if "e = A_Awaited i" for i
    using h that assms(3) by (auto simp: awaited_def updated_def Let_def split: if_splits option.splits)
  moreover have "ap_phase m' = REGISTERING" if "e = A_Overlay ip js pb" for ip js pb
    using h that assms(3) by (auto simp: agent_overlay_endpoint_def Let_def split: if_splits)
  ultimately obtain pid where e: "e = A_Ack pid" using assms(4) by (cases e) auto
  have "configured ov" if "list_all configured (map snd (ap_overlays m))" "map_of (ap_overlays m) k = Some ov" for k ov
    using that map_of_SomeD [OF that(2)] by (fastforce simp: list_all_iff)
  then show ?thesis
    using h assms(3,4) unfolding e
    by (auto simp: agentRegisteredAcknowledgement_def Let_def configured_def split: if_splits)
qed


text \<open>Runs of the process.\<close>

inductive agent_run :: "agent_lib \<Rightarrow> agent_proc \<Rightarrow> agent_event list \<Rightarrow> agent_proc \<Rightarrow> bool" for al where
  run_end: "agent_run al m [] m"
| run_more: "agent_run al m es m' \<Longrightarrow> agent_step al m' e acts m'' \<Longrightarrow> agent_run al m (es @ [e]) m''"

lemma agent_run_reachable: "agent_run al m es m' \<Longrightarrow> agent_reachable al m \<Longrightarrow> agent_reachable al m'"
  by (induction rule: agent_run.induct) (auto intro: more)

lemma step_work:
  assumes "agent_inv m" "agent_step al m e acts m'" "\<nexists>ovs. e = A_Update ovs"
  shows "(if job_event e then work m' < work m else work m' = work m)"
proof -
  from assms(2) obtain lk where en: "agent_enabled e m" and h: "agent_handle al lk e m = Ok (m', acts)"
    by (auto elim: agent_stepE)
  show ?thesis
  proof (cases "job_event e")
    case True
    with job_event_works [OF assms(1) True en, of al lk] h show ?thesis by (auto simp: works_def)
  next
    case False
    with other_quiet [OF assms(1) False assms(3), of al lk] h show ?thesis
      by (auto simp: quiet_def idle_def work_def)
  qed
qed

lemma run_work:
  "agent_run al m es m' \<Longrightarrow> agent_reachable al m \<Longrightarrow> \<nexists>ovs. A_Update ovs \<in> set es \<Longrightarrow>
   length (filter job_event es) + work m' \<le> work m"
proof (induction rule: agent_run.induct)
  case (run_more m es m' e acts m'')
  then have "agent_inv m'" by (blast intro: reachable_agent_inv agent_run_reachable)
  moreover have "\<nexists>ovs. e = A_Update ovs" using run_more.prems(2) by auto
  ultimately have "if job_event e then work m'' < work m' else work m'' = work m'"
    by (rule step_work [OF _ run_more.hyps(2)])
  with run_more show ?case by (cases "job_event e") auto
qed simp

lemma work_bound: "work m \<le> 6 * length (ap_jobs m)"
proof -
  have r: "rank st \<le> 6" for st by (cases st) auto
  have "sum_list (map (rank \<circ> jb_stage) js) \<le> 6 * length js" for js
  proof (induction js)
    case (Cons j js)
    then show ?case using r [of "jb_stage j"] by simp
  qed simp
  then show ?thesis by (simp add: work_def)
qed

lemma job_can_move:
  assumes inv: "agent_inv m" and "ap_jobs m \<noteq> []"
  obtains e acts m' where "job_event e" "agent_step al m e acts m'"
proof -
  obtain j js where js: "ap_jobs m = j # js" using assms(2) by (cases "ap_jobs m") auto
  let ?i = "jb_id j"
  have f: "find_job ?i (ap_jobs m) = Some j" by (simp add: js find_job_def)
  let ?e = "case jb_stage j of Inspecting \<Rightarrow> A_Inspected ?i (F_Ready (Some 0))
    | Deciding d \<Rightarrow> A_Decide ?i | _ \<Rightarrow> A_Script ?i (No_Process '''')"
  have e: "job_event ?e" "agent_enabled ?e m" "event_job ?e = ?i"
    by (cases "jb_stage j"; simp add: f)+
  fix lk
  from job_event_works [OF inv e(1,2), of al lk] f e(3) have w: "works j m (agent_handle al lk ?e m)" by auto
  have "agent_handle al lk ?e m \<noteq> Crash Undefined_Behaviour"
    using job_known [OF inv f]
    by (cases "jb_stage j")
       (auto simp: f job_inspected_def inspected_def docker_create_def docker_isolate_def move_job_def job_script_def Let_def
          runScriptCommand_def runCommand_def masqueraded_def overlayFailure_def change_overlay_def job_decide_def
          decide_def overlaySuccess_def bind_res_Crash_iff split: if_splits decision.splits)
  with w obtain m' acts where "agent_handle al lk ?e m = Ok (m', acts)"
    by (cases "agent_handle al lk ?e m") (auto simp: works_def)
  with that [OF e(1)] agent_step [OF e(2)] show thesis by blast
qed

text \<open>
  C12: Configurations end: in a run without new updates, jobs take at most six steps each, whatever
  the commands answer and however the steps are interleaved with other events; and as long as a job
  is left, it can take a step.
\<close>

theorem configurations_end:
  assumes "agent_reachable al m" "agent_run al m es m'" "\<nexists>ovs. A_Update ovs \<in> set es"
  shows "length (filter job_event es) \<le> 6 * length (ap_jobs m) \<and>
    (ap_jobs m' \<noteq> [] \<longrightarrow> (\<exists>e acts m''. job_event e \<and> agent_step al m' e acts m''))"
proof -
  have "length (filter job_event es) \<le> 6 * length (ap_jobs m)"
    using run_work [OF assms(2,1,3)] work_bound [of m] by simp
  moreover have "\<exists>e acts m''. job_event e \<and> agent_step al m' e acts m''" if "ap_jobs m' \<noteq> []"
    by (rule job_can_move [OF reachable_agent_inv [OF agent_run_reachable [OF assms(2,1)]] that, of al]) blast
  ultimately show ?thesis by blast
qed

section \<open>Runs of an agent\<close>

text \<open>An agent with two overlays, the libraries as in the master's runs.\<close>

fun agent_exec :: "agent_lib \<Rightarrow> luck \<Rightarrow> agent_event list \<Rightarrow> agent_proc \<Rightarrow> agent_proc option" where
  "agent_exec al lk [] m = Some m"
| "agent_exec al lk (e # es) m =
     (if agent_enabled e m then
        (case agent_handle al lk e m of Ok (m', acts) \<Rightarrow> agent_exec al lk es m' | _ \<Rightarrow> None)
      else None)"

lemma agent_exec_run:
  "agent_run al m0 es0 m \<Longrightarrow> agent_exec al lk es m = Some m' \<Longrightarrow> agent_run al m0 (es0 @ es) m'"
proof (induction es arbitrary: m es0)
  case (Cons e es)
  then obtain m1 acts where s: "agent_enabled e m" "agent_handle al lk e m = Ok (m1, acts)"
    "agent_exec al lk es m1 = Some m'" by (auto split: if_splits res.splits)
  from run_more [OF Cons.prems(1) agent_step [OF s(1,2)]] have "agent_run al m0 (es0 @ [e]) m1" .
  from Cons.IH [OF this s(3)] show ?case by simp
qed simp

definition al9 :: agent_lib where
  "al9 = \<lparr>al_stout = ref_lib, al_upper = id, al_join = (\<lambda>a b. a @ ''/'' @ b), al_show_int = dec_int,
     al_show_ms = dec_int, al_parse_any = ref_parse_ip AF_INET,
     al_shell = \<lparr>sh_name = ''sh'', sh_arg0 = ''sh'', sh_arg1 = ''-c''\<rparr>\<rparr>"

definition lk9 :: luck where
  "lk9 = \<lparr>lk_write = (\<lambda>_ _. None), lk_docker = None, lk_random = id\<rparr>"

definition agent9 :: agent_proc where
  "agent9 = registering (agent_new ''/etc/cni'' None default_network_config 4)"

lemma agent9_reachable: "agent_reachable al agent9"
  by (rule init [of "''/etc/cni''" None default_network_config 4]) (simp add: initialize_def agent9_def)

definition bridge9 :: "string \<Rightarrow> string \<Rightarrow> bridge_info" where
  "bridge9 nm net = \<lparr>br_name = nm, br_ip = Some net, br_ip6 = None\<rparr>"

definition dcos9 :: agent_overlay_info where
  "dcos9 = \<lparr>ao_info = (empty_overlay_info ''dcos'')\<lparr>oi_subnet := Some ''9.0.0.0/8'', oi_prefix := Some 24\<rparr>,
     ao_subnet = Some ''9.0.0.0/24'', ao_mesos_bridge = Some (bridge9 ''m-dcos'' ''9.0.0.0/25''),
     ao_docker_bridge = Some (bridge9 ''d-dcos'' ''9.0.0.128/25''), ao_backend = \<lparr>be_vxlan = None\<rparr>,
     ao_state = None, ao_subnet6 = None\<rparr>"

definition edge9 :: agent_overlay_info where
  "edge9 = dcos9\<lparr>ao_info := empty_overlay_info ''edge'', ao_subnet := None\<rparr>"

definition leader9 :: agent_event where
  "leader9 = A_Detected (F_Ready (Some (''10.0.0.9'', 5050)))"

definition master9 :: upid where
  "master9 = \<lparr>up_id = ''overlay-master'', up_ip = V4 0x0A000009\<rparr>"

definition script9 :: "nat \<Rightarrow> agent_event" where
  "script9 i = A_Script i (Ended \<lparr>pe_status = F_Ready (Some 0), pe_out = F_Ready '''', pe_err = F_Ready ''''\<rparr>)"

definition configure9 :: "nat \<Rightarrow> agent_event list" where
  "configure9 i = [A_Inspected i (F_Ready (Some 1)), script9 i, script9 i, A_Decide i, script9 i]"

lemma agent_exec9: "agent_exec al9 lk9 es agent9 = Some m \<Longrightarrow> agent_reachable al9 m"
  using agent_exec_run [OF run_end] agent_run_reachable [OF _ agent9_reachable] by fastforce

lemma exec9_update:
  "case agent_exec al9 lk9 [leader9] agent9 of None \<Rightarrow> False
   | Some m \<Rightarrow> status_at m ''dcos'' = None \<and>
      (case agent_handle al9 lk9 (A_Update [dcos9]) m of
         Ok (m', acts) \<Rightarrow> status_at m' ''dcos'' = Some STATUS_CONFIGURING \<and> length (ap_jobs m') = 1 \<and>
           (case agent_exec al9 lk9 (configure9 0) m' of None \<Rightarrow> False
            | Some m'' \<Rightarrow> length (ap_jobs m'') = 0 \<and> status_at m'' ''dcos'' = Some STATUS_OK)
       | _ \<Rightarrow> False)"
  by code_simp

lemma exec9_ack:
  "case agent_exec al9 lk9 ([leader9, A_Update [dcos9]] @ configure9 0 @ [A_Awaited 0]) agent9 of None \<Rightarrow> False
   | Some m \<Rightarrow> ap_phase m = REGISTERING \<and>
      (case agent_handle al9 lk9 (A_Ack master9) m of
         Ok (m', acts) \<Rightarrow> ap_phase m' = REGISTERED \<and> ap_attempts m' \<le> ap_max_attempts m'
       | _ \<Rightarrow> False)"
  by code_simp

lemma exec9_lost:
  "case agent_exec al9 lk9 ([leader9, A_Update [dcos9], A_Detected (F_Ready None)] @ configure9 0) agent9 of
     None \<Rightarrow> False
   | Some m \<Rightarrow> agent_enabled (A_Awaited 0) m \<and>
       (case agent_handle al9 lk9 (A_Awaited 0) m of Crash c \<Rightarrow> c = Check_Failed | _ \<Rightarrow> False)"
  by code_simp



section \<open>Witnesses\<close>

lemma updated9:
  obtains m m' m'' acts where "agent_reachable al9 m" "agent_step al9 m (A_Update [dcos9]) acts m'"
    "status_at m ''dcos'' = None" "status_at m' ''dcos'' = Some STATUS_CONFIGURING" "length (ap_jobs m') = 1"
    "agent_reachable al9 m'" "agent_run al9 m' (configure9 0) m''" "ap_jobs m'' = []"
proof -
  from exec9_update obtain m where m: "agent_exec al9 lk9 [leader9] agent9 = Some m" "status_at m ''dcos'' = None"
    and h: "case agent_handle al9 lk9 (A_Update [dcos9]) m of
         Ok (m', acts) \<Rightarrow> status_at m' ''dcos'' = Some STATUS_CONFIGURING \<and> length (ap_jobs m') = 1 \<and>
           (case agent_exec al9 lk9 (configure9 0) m' of None \<Rightarrow> False
            | Some m'' \<Rightarrow> length (ap_jobs m'') = 0 \<and> status_at m'' ''dcos'' = Some STATUS_OK)
       | _ \<Rightarrow> False"
    by (auto split: option.splits)
  from h obtain m' acts m'' where u: "agent_handle al9 lk9 (A_Update [dcos9]) m = Ok (m', acts)"
    and m': "status_at m' ''dcos'' = Some STATUS_CONFIGURING" "length (ap_jobs m') = 1"
    and x: "agent_exec al9 lk9 (configure9 0) m' = Some m''" "ap_jobs m'' = []"
    by (auto split: res.splits option.splits)
  have r: "agent_reachable al9 m" by (rule agent_exec9 [OF m(1)])
  have st: "agent_step al9 m (A_Update [dcos9]) acts m'" by (rule agent_step [OF _ u]) simp
  from agent_exec_run [OF run_end x(1)] have "agent_run al9 m' (configure9 0) m''" by simp
  with that [OF r st m(2) m' more [OF r st] _ x(2)] show thesis .
qed

theorem agent_refines_lifecycle_witness:
  "\<exists>m m' acts. agent_step al9 m (A_Update [dcos9]) acts m' \<and> status_at m' ''dcos'' \<noteq> status_at m ''dcos'' \<and>
     lifecycle (status_at m ''dcos'') (status_at m' ''dcos'')"
proof -
  obtain m m' m'' acts where r: "agent_reachable al9 m" "agent_step al9 m (A_Update [dcos9]) acts m'"
    and s: "status_at m ''dcos'' = None" "status_at m' ''dcos'' = Some STATUS_CONFIGURING" by (rule updated9)
  from agent_refines_lifecycle [OF r, of "''dcos''"] s have "lifecycle (status_at m ''dcos'') (status_at m' ''dcos'')"
    by simp
  with r(2) s show ?thesis by (intro exI [of _ m] exI [of _ m'] exI [of _ acts]) simp
qed

theorem configurations_end_witness:
  "\<exists>m m'. agent_run al9 m (configure9 0) m' \<and> length (filter job_event (configure9 0)) \<le> 6 * length (ap_jobs m)"
proof -
  obtain m m' m'' acts where "agent_reachable al9 m'" "agent_run al9 m' (configure9 0) m''" by (rule updated9)
  moreover have "\<nexists>ovs. A_Update ovs \<in> set (configure9 0)" by (simp add: configure9_def script9_def)
  ultimately show ?thesis using configurations_end [of al9 m' "configure9 0" m''] by blast
qed

theorem registered_when_configured_witness:
  "\<exists>m m' acts. agent_step al9 m (A_Ack master9) acts m' \<and>
     (\<forall>k ov. map_of (ap_overlays m') k = Some ov \<longrightarrow> status_of ov = STATUS_OK)"
proof -
  from exec9_ack obtain m where
    m: "agent_exec al9 lk9 ([leader9, A_Update [dcos9]] @ configure9 0 @ [A_Awaited 0]) agent9 = Some m"
      "ap_phase m = REGISTERING"
    and h: "case agent_handle al9 lk9 (A_Ack master9) m of
         Ok (m', acts) \<Rightarrow> ap_phase m' = REGISTERED \<and> ap_attempts m' \<le> ap_max_attempts m'
       | _ \<Rightarrow> False"
    by (auto split: option.splits)
  from h obtain m' acts where a: "agent_handle al9 lk9 (A_Ack master9) m = Ok (m', acts)"
    and p: "ap_phase m' = REGISTERED" "ap_attempts m' \<le> ap_max_attempts m'" by (auto split: res.splits)
  have st: "agent_step al9 m (A_Ack master9) acts m'" by (rule agent_step [OF _ a]) simp
  from registered_when_configured [OF agent_exec9 [OF m(1)] st m(2) p(1)] p(2) st show ?thesis by fastforce
qed


end
