(* ===== verification/Handshake.thy ===== *)
theory Handshake
  imports MasterFailover AgentSafety
begin

text \<open>
  The registration protocol between the overlay agent and the overlay master: what the master sends
  as \<open>UpdateAgentOverlaysMessage\<close> is what the agent's handler is given, and the agent's
  \<open>AgentRegisteredMessage\<close> is what the master's handler is given.
\<close>

section \<open>The master's updates\<close>

text \<open>The handlers that can send an update do it through \<open>_registerAgent\<close>, which clears the states.\<close>

definition stateless :: "handled \<Rightarrow> bool" where
  "stateless r \<longleftrightarrow>
     (case r of
        Ok (m, acts) \<Rightarrow> \<forall>pid ovs. Send_Update pid ovs \<in> set acts \<longrightarrow> (\<forall>ov \<in> set ovs. ao_state ov = None)
      | _ \<Rightarrow> True)"

lemma stateless_simps [simp]:
  "stateless (Ok (m, []))" "stateless (Error e)" "stateless (Crash c)"
  "(\<And>pid ovs. a \<noteq> Send_Update pid ovs) \<Longrightarrow> stateless (Ok (m, [a]))"
  by (auto simp: stateless_def)

lemma stateless_bind: "(\<And>x. stateless (f x)) \<Longrightarrow> stateless (bind_res r f)"
  by (cases r) simp_all

lemma store_stateless: "stateless (store lib m)"
  by (auto simp: store_def intro!: stateless_bind split: prod.split)

lemma update_stateless: "stateless (update_op lib op w m)"
  by (auto simp: update_op_def Let_def store_stateless split: option.splits res.splits)

lemma reply_stateless: "stateless (register_reply pid aip r m)"
  by (auto simp: register_reply_def stateless_def clear_state_def split: outcome.splits option.splits)

lemma reregister_stateless: "stateless (reregister lib pid aip a cfg m)"
proof -
  have "stateless (reregister_overlays lib pid aip a cfg m)" for a m
    by (auto simp: reregister_overlays_def Let_def update_stateless reply_stateless intro!: stateless_bind)
  then show ?thesis
    by (auto simp: reregister_def Let_def intro!: stateless_bind split: res.splits)
qed

lemma new_stateless: "stateless (register_new lib pid aip cfg m)"
proof -
  have "stateless (install_agent lib pid aip be cfg m)" for be m
    by (auto simp: install_agent_def update_stateless intro!: stateless_bind)
  then show ?thesis by (auto simp: register_new_def split: res.splits)
qed

lemma register_stateless: "stateless (registerAgent lib pid cfg m)"
  by (auto simp: registerAgent_def recover_def Let_def reregister_stateless new_stateless split: option.splits)

lemma delete_stateless: "stateless (deleteAgentsEndpoint lib req m)"
proof -
  have "stateless (bind_res r (\<lambda>(m', acts). Ok (m', acts @ [Http x])))" if "stateless r" for r x
    using that by (cases r) (auto simp: stateless_def)
  then show ?thesis
    using update_stateless
    by (auto simp: deleteAgentsEndpoint_def split: option.splits)
qed

lemma agentRegistered_stateless: "stateless (agentRegistered lib from aos m)"
  by (auto simp: agentRegistered_def Let_def intro!: stateless_bind split: option.splits)

lemma waiter_stateless: "stateless (run_waiter lib w r m)"
  by (cases w) (auto simp: reply_stateless delete_reply_def split: outcome.splits res.splits)

lemma handle_stateless: "stateless (handle lib e m)"
  by (cases e)
     (auto simp: register_stateless agentRegistered_stateless recovered_def store_done_def Let_def store_stateless
        delete_stateless stateEndpoint_def waiter_stateless split: fetch_result.splits option.splits res.splits list.splits)

text \<open>
  C16: What a master sends as an update never fails a check of the agent that handles it: the
  overlays of an update carry no state, in whatever state master and agent are.
\<close>

theorem master_updates_accepted:
  assumes "handle lib e m = Ok (m', acts)" "Send_Update pid ovs \<in> set acts" "agent_reachable al p"
  shows "agent_handle al lk (A_Update ovs) p \<noteq> Crash Check_Failed"
proof
  assume "agent_handle al lk (A_Update ovs) p = Crash Check_Failed"
  with update_ok [OF reachable_agent_inv [OF assms(3)], where al = al and lk = lk and ovs = ovs]
  obtain ov where "ov \<in> set ovs" "ao_state ov \<noteq> None" by auto
  with assms(1,2) handle_stateless [of lib e m] show False by (auto simp: stateless_def)
qed

section \<open>The agent's reports\<close>

lemma update_states_cases:
  "update_states aos a =
     (if \<forall>ao \<in> set aos. hm_contains (ag_overlays a) (ao_name ao) then update_states aos a else Crash Key_Missing)
   \<and> ((\<forall>ao \<in> set aos. hm_contains (ag_overlays a) (ao_name ao)) \<longrightarrow> is_ok (update_states aos a))"
proof (induction aos arbitrary: a)
  case (Cons ao aos)
  show ?case
  proof (cases "map_of (ag_overlays a) (ao_name ao)")
    case None
    then have "update_states (ao # aos) a = Crash Key_Missing"
      by (simp add: updateOverlayState_def hm_at_def)
    with None show ?thesis by (auto simp: hm_contains_def)
  next
    case (Some old)
    let ?a = "a\<lparr>ag_overlays := hm_put (ag_overlays a) (ao_name ao) (set_status (status_of ao) old)\<rparr>"
    have u: "update_states (ao # aos) a = update_states aos ?a"
      by (simp add: updateOverlayState_def hm_at_def Some)
    have k: "hm_contains (ag_overlays ?a) n = hm_contains (ag_overlays a) n" for n
      using Some by (simp add: hm_contains_def hm_simps)
    show ?thesis using Cons.IH [of ?a] Some unfolding u k by (auto simp: hm_contains_def)
  qed
qed simp

text \<open>
  C17: A report of an agent ends the master exactly when the master knows the agent and the report
  names an overlay that is not in the master's record of the agent; every other report is handled.
\<close>

theorem report_aborts_iff:
  "(agentRegistered lib pid aos m = Crash Key_Missing \<longleftrightarrow>
      (\<exists>a. mg_agents m (up_ip pid) = Some a \<and> (\<exists>ao \<in> set aos. \<not> hm_contains (ag_overlays a) (ao_name ao)))) \<and>
   (is_ok (agentRegistered lib pid aos m) \<or> agentRegistered lib pid aos m = Crash Key_Missing)"
proof (cases "mg_agents m (up_ip pid)")
  case None
  then show ?thesis by (simp add: agentRegistered_def Let_def count_def)
next
  case (Some a)
  show ?thesis
  proof (cases "\<forall>ao \<in> set aos. hm_contains (ag_overlays a) (ao_name ao)")
    case True
    with update_states_cases [of aos a] obtain a' where "update_states aos a = Ok a'"
      by (cases "update_states aos a") auto
    with Some True show ?thesis
      by (auto simp: agentRegistered_def Let_def count_def split: option.splits)
  next
    case False
    with update_states_cases [of aos a] have "update_states aos a = Crash Key_Missing" by simp
    with Some False show ?thesis by (simp add: agentRegistered_def Let_def count_def)
  qed
qed

section \<open>A complete registration\<close>

fun updates_in :: "action list \<Rightarrow> agent_overlay_info list" where
  "updates_in [] = []"
| "updates_in (Send_Update pid ovs # acts) = ovs"
| "updates_in (a # acts) = updates_in acts"

fun report_in :: "agent_action list \<Rightarrow> agent_overlay_info list" where
  "report_in [] = []"
| "report_in (Send_AgentRegistered master ovs # acts) = ovs"
| "report_in (a # acts) = report_in acts"

definition acknowledges :: "action list \<Rightarrow> bool" where
  "acknowledges acts \<longleftrightarrow> list_ex (\<lambda>a. case a of Send_Ack pid \<Rightarrow> True | _ \<Rightarrow> False) acts"


text \<open>An update of the run above, for the agent of \<open>agent9\<close>.\<close>

lemma run9_sends:
  "case run9 (take 5 events9) of None \<Rightarrow> False
   | Some (m0, m, tr) \<Rightarrow>
      (case handle ref_lib E_Due m of
         Ok (m1, acts) \<Rightarrow> (case acts of [Send_Update pid ovs] \<Rightarrow> length ovs = 2 | _ \<Rightarrow> False)
       | _ \<Rightarrow> False)"
  by code_simp

theorem master_updates_accepted_witness:
  "\<exists>ovs. length ovs = 2 \<and> agent_handle al9 lk9 (A_Update ovs) agent9 \<noteq> Crash Check_Failed"
proof -
  from run9_sends obtain m0 m tr where "run9 (take 5 events9) = Some (m0, m, tr)"
    and h: "case handle ref_lib E_Due m of
         Ok (m1, acts) \<Rightarrow> (case acts of [Send_Update pid ovs] \<Rightarrow> length ovs = 2 | _ \<Rightarrow> False)
       | _ \<Rightarrow> False" by (auto split: option.splits)
  then obtain m1 acts where a: "handle ref_lib E_Due m = Ok (m1, acts)"
    by (cases "handle ref_lib E_Due m") auto
  with h have "case acts of [Send_Update pid ovs] \<Rightarrow> length ovs = 2 | _ \<Rightarrow> False" by simp
  then obtain pid ovs where "acts = [Send_Update pid ovs]" "length ovs = 2"
    by (cases acts rule: updates_in.cases) (auto split: list.splits)
  with a have "handle ref_lib E_Due m = Ok (m1, [Send_Update pid ovs])" "length ovs = 2" by simp_all
  then have "agent_handle al9 lk9 (A_Update ovs) agent9 \<noteq> Crash Check_Failed" "length ovs = 2"
    using master_updates_accepted [of ref_lib E_Due m m1 "[Send_Update pid ovs]" pid ovs al9 agent9 lk9]
      agent9_reachable by simp_all
  then show ?thesis by blast
qed

end
