(* ===== verification/Supervisor.thy ===== *)
theory Supervisor
  imports CommandRunner
begin

text \<open>
  \<open>class ProcessSupervisor\<close> (\<open>overlay/supervisor.hpp\<close>): a process that creates and spawns another
  one, watches it, and starts it again after a delay when it has exited. Who asks for the child
  before it runs waits on a promise. The function that creates the child is the environment: each
  call has its own outcome.
\<close>

section \<open>The process\<close>

datatype sv_state = UNSPAWNED | SPAWNED | TERMINATING

text \<open>
  Children and promises are numbered. \<open>sv_alive\<close> is the child that libprocess runs and watches,
  \<open>sv_calls\<close> the number of calls of \<open>initialize\<close> that are scheduled: one when the supervisor itself
  is spawned, and one for each \<open>delay\<close>.
\<close>

record supervisor =
  sv_process :: "nat option"
  sv_promises :: "nat list"
  sv_state :: sv_state
  sv_restarts :: int
  sv_starts :: int
  sv_alive :: "nat option"
  sv_calls :: nat

datatype sv_action =
    Spawn_Child nat
  | Answer nat nat          \<comment> \<open>a promise and the child it is set to\<close>
  | Terminate_Child nat

definition supervisor_create :: "err + nat \<Rightarrow> err + supervisor" where
  \<comment> \<open>\<open>create\<close>, with the outcome of its call of \<open>func\<close>, up to the spawning of the supervisor\<close>
  "supervisor_create result =
     (case result of
        Inl e \<Rightarrow> Inl e
      | Inr p \<Rightarrow>
          Inr \<lparr>sv_process = Some p, sv_promises = [], sv_state = UNSPAWNED, sv_restarts = 0,
               sv_starts = 0, sv_alive = None, sv_calls = 1\<rparr>)"

definition child :: "nat \<Rightarrow> supervisor \<Rightarrow> supervisor \<times> sv_action list" where
  \<comment> \<open>the argument is the number of the future that is returned\<close>
  "child q s =
     (case sv_process s of
        Some p \<Rightarrow>
          if sv_state s = SPAWNED then (s, [Answer q p])
          else (s\<lparr>sv_promises := sv_promises s @ [q]\<rparr>, [])
      | None \<Rightarrow> (s\<lparr>sv_promises := sv_promises s @ [q]\<rparr>, []))"

definition spawn_child :: "nat \<Rightarrow> supervisor \<Rightarrow> supervisor \<times> sv_action list" where
  \<comment> \<open>the rest of \<open>initialize\<close>, once there is a process\<close>
  "spawn_child p s =
     (s\<lparr>sv_process := Some p, sv_state := SPAWNED, sv_alive := Some p, sv_promises := [],
        sv_starts := sv_starts s + 1\<rparr>,
      Spawn_Child p # map (\<lambda>q. Answer q p) (sv_promises s))"

definition sv_initialize :: "err + nat \<Rightarrow> supervisor \<Rightarrow> supervisor \<times> sv_action list" where
  \<comment> \<open>\<open>initialize\<close>, with the outcome of \<open>func\<close> if it is called\<close>
  "sv_initialize result s0 =
     (let s = s0\<lparr>sv_restarts := (if sv_starts s0 > 0 then sv_restarts s0 + 1 else sv_restarts s0)\<rparr> in
      case sv_process s of
        Some p \<Rightarrow> spawn_child p s
      | None \<Rightarrow>
          (case result of
             Inr p \<Rightarrow> spawn_child p (s\<lparr>sv_state := UNSPAWNED\<rparr>)
           | Inl e \<Rightarrow> (s\<lparr>sv_calls := sv_calls s + 1\<rparr>, [])))"

definition sv_exited :: "supervisor \<Rightarrow> supervisor \<times> sv_action list" where
  "sv_exited s =
     (if sv_state s \<noteq> TERMINATING then
        (s\<lparr>sv_state := TERMINATING, sv_process := None, sv_calls := sv_calls s + 1\<rparr>, [])
      else (s, []))"

definition supervisor_destroy :: "supervisor \<Rightarrow> supervisor \<times> sv_action list" where
  "supervisor_destroy s =
     (case sv_process s of
        None \<Rightarrow> (s\<lparr>sv_state := TERMINATING\<rparr>, [])
      | Some p \<Rightarrow> (s\<lparr>sv_state := TERMINATING, sv_process := None, sv_alive := None\<rparr>, [Terminate_Child p]))"

datatype sv_event = S_Child nat | S_Initialize "err + nat" | S_Exited

fun sv_handle :: "sv_event \<Rightarrow> supervisor \<Rightarrow> supervisor \<times> sv_action list" where
  "sv_handle (S_Child q) s = child q s"
| "sv_handle (S_Initialize result) s = sv_initialize result (s\<lparr>sv_calls := sv_calls s - 1\<rparr>)"
| "sv_handle S_Exited s = sv_exited (s\<lparr>sv_alive := None\<rparr>)"

fun sv_enabled :: "sv_event \<Rightarrow> supervisor \<Rightarrow> bool" where
  "sv_enabled (S_Child q) s \<longleftrightarrow> True"
| "sv_enabled (S_Initialize result) s \<longleftrightarrow> 0 < sv_calls s"
| "sv_enabled S_Exited s \<longleftrightarrow> sv_alive s \<noteq> None"

text \<open>Runs, with the events and what they caused.\<close>

inductive sv_run :: "supervisor \<Rightarrow> (sv_event \<times> sv_action list) list \<Rightarrow> supervisor \<Rightarrow> bool" where
  sv_start: "supervisor_create (Inr p) = Inr s \<Longrightarrow> sv_run s [] s"
| sv_step: "sv_run s0 tr s \<Longrightarrow> sv_enabled e s \<Longrightarrow> sv_handle e s = (s', acts) \<Longrightarrow> sv_run s0 (tr @ [(e, acts)]) s'"

section \<open>The invariant\<close>

definition running :: "supervisor \<Rightarrow> bool" where
  "running s \<longleftrightarrow> sv_state s = SPAWNED \<and> sv_process s \<noteq> None \<and> sv_alive s = sv_process s \<and>
     sv_promises s = [] \<and> sv_calls s = 0 \<and> 0 < sv_starts s"

definition starting :: "supervisor \<Rightarrow> bool" where
  "starting s \<longleftrightarrow> sv_state s \<noteq> SPAWNED \<and> sv_alive s = None \<and> sv_calls s = 1 \<and>
     (sv_process s \<noteq> None \<longrightarrow> sv_starts s = 0)"

text \<open>Promises that were asked for, and those that have been answered.\<close>

definition asked :: "(sv_event \<times> sv_action list) list \<Rightarrow> nat list" where
  "asked tr = concat (map (\<lambda>(e, acts). case e of S_Child q \<Rightarrow> [q] | _ \<Rightarrow> []) tr)"

definition answered :: "(sv_event \<times> sv_action list) list \<Rightarrow> nat list" where
  "answered tr = concat (map (\<lambda>(e, acts). concat (map (\<lambda>a. case a of Answer q p \<Rightarrow> [q] | _ \<Rightarrow> []) acts)) tr)"

lemma asked_snoc: "asked (tr @ [(e, acts)]) = asked tr @ (case e of S_Child q \<Rightarrow> [q] | _ \<Rightarrow> [])"
  by (simp add: asked_def)

lemma answered_snoc:
  "answered (tr @ [(e, acts)]) = answered tr @ concat (map (\<lambda>a. case a of Answer q p \<Rightarrow> [q] | _ \<Rightarrow> []) acts)"
  by (simp add: answered_def)

lemma answers_map [simp]: "concat (map ((\<lambda>a. case a of Answer q p \<Rightarrow> [q] | _ \<Rightarrow> []) \<circ> (\<lambda>q. Answer q p)) qs) = qs"
  by (induction qs) simp_all

definition sv_inv :: "(sv_event \<times> sv_action list) list \<Rightarrow> supervisor \<Rightarrow> bool" where
  "sv_inv tr s \<longleftrightarrow> (running s \<or> starting s) \<and> asked tr = answered tr @ sv_promises s \<and>
     0 \<le> sv_starts s \<and> sv_starts s \<le> sv_restarts s + 1 \<and> 0 \<le> sv_restarts s"

lemma sv_inv_step:
  assumes inv: "sv_inv tr s" and en: "sv_enabled e s" and h: "sv_handle e s = (s', acts)"
  shows "sv_inv (tr @ [(e, acts)]) s'"
proof (cases e)
  case (S_Child q)
  with inv h show ?thesis
    by (auto simp: sv_inv_def running_def starting_def child_def asked_snoc answered_snoc split: option.splits if_splits)
next
  case (S_Initialize result)
  with inv en have st: "starting s" by (auto simp: sv_inv_def running_def)
  show ?thesis
  proof (cases "sv_process s")
    case None
    with S_Initialize inv st h show ?thesis
      by (cases result)
         (auto simp: sv_inv_def running_def starting_def sv_initialize_def spawn_child_def Let_def asked_snoc answered_snoc)
  next
    case (Some p)
    with S_Initialize inv st h show ?thesis
      by (auto simp: sv_inv_def running_def starting_def sv_initialize_def spawn_child_def Let_def asked_snoc answered_snoc)
  qed
next
  case S_Exited
  with inv en have "running s" by (auto simp: sv_inv_def starting_def)
  with S_Exited inv h show ?thesis
    by (auto simp: sv_inv_def running_def starting_def sv_exited_def asked_snoc answered_snoc)
qed

lemma run_sv_inv: "sv_run s0 tr s \<Longrightarrow> sv_inv tr s"
proof (induction rule: sv_run.induct)
  case (sv_start p s)
  then show ?case by (auto simp: supervisor_create_def sv_inv_def starting_def asked_def answered_def)
qed (rule sv_inv_step)

section \<open>Properties\<close>

text \<open>
  C25: The supervisor never gives its child up: at every moment either the child runs and nobody
  waits, or exactly one attempt to start it is scheduled; an attempt that creates a process makes
  it run and answers everybody who waits, in the order of their requests; and requests are answered
  exactly once.
\<close>

theorem supervisor_restarts_child:
  assumes "sv_run s0 tr s"
  shows "(running s \<or> starting s) \<and> asked tr = answered tr @ sv_promises s \<and>
    (starting s \<longrightarrow>
      (\<exists>s' acts. sv_enabled (S_Initialize (Inr p)) s \<and> sv_handle (S_Initialize (Inr p)) s = (s', acts) \<and> running s' \<and>
         answered [(S_Initialize (Inr p), acts)] = sv_promises s))"
proof -
  from run_sv_inv [OF assms] have inv: "sv_inv tr s" .
  moreover have "\<exists>s' acts. sv_enabled (S_Initialize (Inr p)) s \<and> sv_handle (S_Initialize (Inr p)) s = (s', acts) \<and>
      running s' \<and> answered [(S_Initialize (Inr p), acts)] = sv_promises s" if "starting s"
    using that inv
    by (auto simp: sv_inv_def running_def starting_def sv_initialize_def spawn_child_def Let_def answered_def
        split: option.splits)
  ultimately show ?thesis by (simp add: sv_inv_def)
qed

text \<open>A run: a request, the start, the exit, two attempts that fail and one that succeeds.\<close>

fun sv_exec :: "sv_event list \<Rightarrow> supervisor \<Rightarrow> (sv_event \<times> sv_action list) list \<Rightarrow>
    (supervisor \<times> (sv_event \<times> sv_action list) list) option" where
  "sv_exec [] s tr = Some (s, tr)"
| "sv_exec (e # es) s tr =
     (if sv_enabled e s then (case sv_handle e s of (s', acts) \<Rightarrow> sv_exec es s' (tr @ [(e, acts)])) else None)"

lemma sv_exec_run: "sv_run s0 tr s \<Longrightarrow> sv_exec es s tr = Some (s', tr') \<Longrightarrow> sv_run s0 tr' s'"
proof (induction es arbitrary: s tr)
  case (Cons e es)
  then obtain s1 acts where s: "sv_enabled e s" "sv_handle e s = (s1, acts)"
    "sv_exec es s1 (tr @ [(e, acts)]) = Some (s', tr')" by (cases "sv_handle e s") (auto split: if_splits)
  from Cons.IH [OF sv_step [OF Cons.prems(1) s(1,2)] s(3)] show ?case .
qed simp

definition sv9 :: supervisor where
  "sv9 = \<lparr>sv_process = Some 7, sv_promises = [], sv_state = UNSPAWNED, sv_restarts = 0, sv_starts = 0,
     sv_alive = None, sv_calls = 1\<rparr>"

definition outage9 :: "sv_event list" where
  "outage9 = [S_Child 1, S_Initialize (Inr 0), S_Exited, S_Child 2, S_Initialize (Inl Parse_Failed),
     S_Initialize (Inl Parse_Failed), S_Child 3]"

lemma outage9_exec:
  "case sv_exec outage9 sv9 [] of None \<Rightarrow> False
   | Some (s, tr) \<Rightarrow> sv_state s \<noteq> SPAWNED \<and> sv_promises s = [2, 3] \<and> asked tr = [1, 2, 3] \<and>
       sv_starts s = 1 \<and> sv_restarts s = 2"
  by code_simp

theorem supervisor_restarts_child_witness:
  "\<exists>s tr. sv_run sv9 tr s \<and> starting s \<and>
     (\<exists>s' acts. sv_handle (S_Initialize (Inr 8)) s = (s', acts) \<and> running s' \<and>
        answered [(S_Initialize (Inr 8), acts)] = [2, 3])"
proof -
  from outage9_exec obtain s tr where x: "sv_exec outage9 sv9 [] = Some (s, tr)"
    and s: "sv_state s \<noteq> SPAWNED" "sv_promises s = [2, 3]" by (auto split: option.splits)
  have "sv_run sv9 [] sv9" by (rule sv_start [of 7]) (simp add: supervisor_create_def sv9_def)
  from sv_exec_run [OF this x] have r: "sv_run sv9 tr s" .
  note t = supervisor_restarts_child [OF r, of 8]
  with s have "starting s" by (auto simp: running_def)
  with t r s show ?thesis by auto
qed

end
