(* ===== verification/SupervisedMaster.thy ===== *)
theory SupervisedMaster
  imports MasterFailover Supervisor
begin

text \<open>
  The master module as a whole (the end of \<open>overlay/master.cpp\<close>): the module function reads the
  configuration and creates a supervisor whose child is the master process. The supervisor, the
  processes it has started one after another and the replicated log are composed into one system.
\<close>

section \<open>Creation\<close>

text \<open>
  The processes are numbered in the order of their creation; the log is the one the processes open.
\<close>

record supervised =
  su_supervisor :: supervisor
  su_masters :: "manager list"
  su_log :: net_state

definition numbered :: "nat \<Rightarrow> manager res \<Rightarrow> (err + nat) res" where
  \<comment> \<open>an outcome of \<open>createManagerProcess\<close> as the supervisor sees it\<close>
  "numbered n r = (case r of Ok m \<Rightarrow> Ok (Inr n) | Error e \<Rightarrow> Ok (Inl e) | Crash c \<Rightarrow> Crash c)"

definition createManager ::
  "host \<Rightarrow> stout \<Rightarrow> byte list \<Rightarrow> net_state \<Rightarrow> master_config \<Rightarrow> (err + supervised) res" where
  "createManager h lib junk log mc =
     bind_res (numbered 0 (createManagerProcess h lib junk mc)) (\<lambda>result.
       case supervisor_create result of
         Inl e \<Rightarrow> Ok (Inl e)
       | Inr s \<Rightarrow>
           bind_res (createManagerProcess h lib junk mc) (\<lambda>m.
             Ok (Inr \<lparr>su_supervisor = s, su_masters = [m], su_log = log\<rparr>)))"

text \<open>What the module function uses of the system: whether a file exists, its contents, the two parsers.\<close>

record module_host =
  mh_exists :: "string \<Rightarrow> bool"
  mh_read :: "string \<Rightarrow> string + string"
  mh_json :: "string \<Rightarrow> string + string"
  mh_proto :: "string \<Rightarrow> string + master_config"

definition parseMasterConfig :: "module_host \<Rightarrow> string \<Rightarrow> string + master_config" where
  "parseMasterConfig mh s =
     (case mh_json mh s of
        Inl e \<Rightarrow> Inl (''JSON parse failed: '' @ e)
      | Inr json \<Rightarrow>
          (case mh_proto mh json of
             Inl e \<Rightarrow> Inl (''Protobuf parse failed: '' @ e)
           | Inr mc \<Rightarrow> Inr mc))"

fun master_parameters :: "module_host \<Rightarrow> (string \<times> string) list \<Rightarrow> master_config option \<Rightarrow> master_config option option" where
  \<comment> \<open>the loop over the parameters; \<open>None\<close> where it returns a null pointer\<close>
  "master_parameters mh [] mc = Some mc"
| "master_parameters mh ((key, value) # ps) mc =
     (if key = ''master_config'' then
        (if \<not> mh_exists mh value then None
         else
           (case mh_read mh value of
              Inl e \<Rightarrow> None
            | Inr config \<Rightarrow>
                (case parseMasterConfig mh config of
                   Inl e \<Rightarrow> None
                 | Inr mc' \<Rightarrow> master_parameters mh ps (Some mc'))))
      else master_parameters mh ps mc)"

definition createOverlayMasterManager ::
  "module_host \<Rightarrow> host \<Rightarrow> stout \<Rightarrow> byte list \<Rightarrow> net_state \<Rightarrow> (string \<times> string) list \<Rightarrow> supervised option res" where
  "createOverlayMasterManager mh h lib junk log parameters =
     (case master_parameters mh parameters None of
        None \<Rightarrow> Ok None
      | Some None \<Rightarrow> Ok None
      | Some (Some mc) \<Rightarrow>
          bind_res (createManager h lib junk log mc) (\<lambda>r.
            case r of
              Inl e \<Rightarrow> Ok None
            | Inr su \<Rightarrow> Ok (Some su)))"

section \<open>The system\<close>

text \<open>
  The steps: the supervisor's call of \<open>initialize\<close>, with a new process if it has none; a request for
  the child; a step of the running process, which reads the log as it is; a write of the latest
  process that reaches the log; the exit of a process that has demoted itself.
\<close>

inductive su_step :: "stout \<Rightarrow> supervised \<Rightarrow> supervised \<Rightarrow> bool" for lib where
  Start_First: "sv_process (su_supervisor su) = Some p \<Longrightarrow> sv_enabled (S_Initialize r) (su_supervisor su) \<Longrightarrow>
    sv_handle (S_Initialize r) (su_supervisor su) = (s', acts) \<Longrightarrow> su_step lib su (su\<lparr>su_supervisor := s'\<rparr>)"
| Start_New: "sv_process (su_supervisor su) = None \<Longrightarrow>
    createManagerProcess h lib junk mc = Ok m \<Longrightarrow> well_configured m \<Longrightarrow>
    sv_enabled (S_Initialize (Inr (length (su_masters su)))) (su_supervisor su) \<Longrightarrow>
    sv_handle (S_Initialize (Inr (length (su_masters su)))) (su_supervisor su) = (s', acts) \<Longrightarrow>
    su_step lib su (su\<lparr>su_supervisor := s', su_masters := su_masters su @ [m]\<rparr>)"
| Start_Failed: "sv_process (su_supervisor su) = None \<Longrightarrow> createManagerProcess h lib junk mc = Error e \<Longrightarrow>
    sv_enabled (S_Initialize (Inl e)) (su_supervisor su) \<Longrightarrow>
    sv_handle (S_Initialize (Inl e)) (su_supervisor su) = (s', acts) \<Longrightarrow> su_step lib su (su\<lparr>su_supervisor := s'\<rparr>)"
| Ask: "sv_handle (S_Child q) (su_supervisor su) = (s', acts) \<Longrightarrow> su_step lib su (su\<lparr>su_supervisor := s'\<rparr>)"
| Master: "sv_alive (su_supervisor su) = Some p \<Longrightarrow> step lib (su_masters su ! p) e acts m' \<Longrightarrow>
    (\<And>st. e = E_Fetched (Fetched st) \<Longrightarrow> st = su_log su) \<Longrightarrow>
    su_step lib su (su\<lparr>su_masters := (su_masters su)[p := m']\<rparr>)"
| Written: "mg_inflight (last (su_masters su)) = Some (st, rs) \<Longrightarrow> su_step lib su (su\<lparr>su_log := st\<rparr>)"
| Exit: "sv_alive (su_supervisor su) = Some p \<Longrightarrow> mg_terminated (su_masters su ! p) \<Longrightarrow>
    sv_handle S_Exited (su_supervisor su) = (s', acts) \<Longrightarrow> su_step lib su (su\<lparr>su_supervisor := s'\<rparr>)"

inductive su_reachable :: "stout \<Rightarrow> supervised \<Rightarrow> bool" for lib where
  su_Created: "createManager h lib junk empty_state mc = Ok (Inr su) \<Longrightarrow> well_configured (last (su_masters su)) \<Longrightarrow>
    su_reachable lib su"
| su_Step: "su_reachable lib su \<Longrightarrow> su_step lib su su' \<Longrightarrow> su_reachable lib su'"

text \<open>The invariant of the supervisor, and the process it holds is the latest, an incarnation over the log.\<close>

definition su_inv :: "stout \<Rightarrow> supervised \<Rightarrow> bool" where
  "su_inv lib su \<longleftrightarrow> (\<exists>tr. sv_inv tr (su_supervisor su)) \<and> su_masters su \<noteq> [] \<and>
     (\<forall>p. sv_process (su_supervisor su) = Some p \<longrightarrow> Suc p = length (su_masters su)) \<and>
     incarnation lib (last (su_masters su)) (su_log su)"

lemma sv_handle_inv:
  "\<exists>tr. sv_inv tr s \<Longrightarrow> sv_enabled e s \<Longrightarrow> sv_handle e s = (s', acts) \<Longrightarrow> \<exists>tr. sv_inv tr s'"
  using sv_inv_step by blast

lemma su_inv_running: "su_inv lib su \<Longrightarrow> sv_alive (su_supervisor su) = Some p \<Longrightarrow> running (su_supervisor su)"
  by (auto simp: su_inv_def sv_inv_def starting_def)

lemma sv_handle_process:
  "sv_handle (S_Child q) s = (s', acts) \<Longrightarrow> sv_process s' = sv_process s"
  "sv_process s = Some p \<Longrightarrow> sv_handle (S_Initialize r) s = (s', acts) \<Longrightarrow> sv_process s' = Some p"
  "sv_process s = None \<Longrightarrow> sv_handle (S_Initialize (Inr p)) s = (s', acts) \<Longrightarrow> sv_process s' = Some p"
  "sv_process s = None \<Longrightarrow> sv_handle (S_Initialize (Inl e)) s = (s', acts) \<Longrightarrow> sv_process s' = None"
  "running s \<Longrightarrow> sv_handle S_Exited s = (s', acts) \<Longrightarrow> sv_process s' = None"
  by (auto simp: child_def sv_initialize_def spawn_child_def sv_exited_def running_def Let_def split: option.splits if_splits)

lemma createManager_inv:
  assumes "createManager h lib junk empty_state mc = Ok (Inr su)" and "well_configured (last (su_masters su))"
  shows "su_inv lib su"
proof -
  from assms(1) obtain m s where m: "createManagerProcess h lib junk mc = Ok m" and s: "supervisor_create (Inr 0) = Inr s"
    and su: "su = \<lparr>su_supervisor = s, su_masters = [m], su_log = empty_state\<rparr>"
    by (auto simp: createManager_def numbered_def res_simps split: res.splits sum.splits)
  from incarnation.Start [OF m] assms(2) su have "incarnation lib m empty_state" by simp
  moreover from run_sv_inv [OF sv_start [OF s]] have "\<exists>tr. sv_inv tr s" by blast
  moreover from s have "sv_process s = Some 0" by (auto simp: supervisor_create_def)
  ultimately show ?thesis by (simp add: su su_inv_def)
qed

lemma su_step_inv:
  assumes "su_step lib su su'" and inv: "su_inv lib su"
  shows "su_inv lib su'"
  using assms(1)
proof cases
  case (Start_First p r s' acts)
  with inv sv_handle_inv [OF _ Start_First(3,4)] sv_handle_process(2) [OF Start_First(2,4)] show ?thesis
    by (simp add: su_inv_def)
next
  case (Start_New h junk mc m s' acts)
  from inv have "incarnation lib (last (su_masters su)) (su_log su)" by (simp add: su_inv_def)
  from incarnation.Failover [OF this Start_New(3,4)] have "incarnation lib m (su_log su)" .
  with Start_New inv sv_handle_inv [OF _ Start_New(5,6)] sv_handle_process(3) [OF Start_New(2,6)] show ?thesis
    by (simp add: su_inv_def)
next
  case (Start_Failed h junk mc e s' acts)
  with inv sv_handle_inv [OF _ Start_Failed(4,5)] sv_handle_process(4) [OF Start_Failed(2,5)] show ?thesis
    by (simp add: su_inv_def)
next
  case (Ask q s' acts)
  with inv sv_handle_inv [of "su_supervisor su" "S_Child q"] sv_handle_process(1) [OF Ask(2)] show ?thesis
    by (simp add: su_inv_def)
next
  case (Master p e acts m')
  from su_inv_running [OF inv Master(2)] have r: "running (su_supervisor su)" .
  with Master inv have p: "Suc p = length (su_masters su)" by (simp add: su_inv_def running_def)
  then have l: "su_masters su ! p = last (su_masters su)"
    using inv by (simp add: su_inv_def last_conv_nth flip: p)
  from inv have "incarnation lib (last (su_masters su)) (su_log su)" by (simp add: su_inv_def)
  from incarnation.Handle [OF this Master(3) [unfolded l] Master(4)] have "incarnation lib m' (su_log su)" .
  moreover have "last ((su_masters su)[p := m']) = m'"
    using p inv by (simp add: su_inv_def last_conv_nth flip: p)
  ultimately show ?thesis using Master inv by (simp add: su_inv_def)
next
  case (Written st rs)
  from inv have "incarnation lib (last (su_masters su)) (su_log su)" by (simp add: su_inv_def)
  from incarnation.Written [OF this Written(2)] Written inv show ?thesis by (simp add: su_inv_def)
next
  case (Exit p s' acts)
  from su_inv_running [OF inv Exit(2)] have r: "running (su_supervisor su)" .
  with Exit inv sv_handle_inv [of "su_supervisor su" S_Exited] sv_handle_process(5) [OF r Exit(4)] show ?thesis
    by (simp add: su_inv_def)
qed

lemma su_reachable_inv: "su_reachable lib su \<Longrightarrow> su_inv lib su"
  by (induction rule: su_reachable.induct) (auto intro: createManager_inv su_step_inv)

section \<open>The property\<close>

definition never_share :: "stout \<Rightarrow> agent_db \<Rightarrow> bool" where
  "never_share lib agents \<longleftrightarrow>
     (\<forall>ip ip' x. holds_vtep lib agents ip x \<longrightarrow> holds_vtep lib agents ip' x \<longrightarrow> ip = ip') \<and>
     (\<forall>ip ip' k k' n n'. holds_subnet lib agents ip k n \<longrightarrow> holds_subnet lib agents ip' k' n' \<longrightarrow>
        (ip, k) \<noteq> (ip', k') \<longrightarrow> addr_range n \<inter> addr_range n' = {})"

lemma incarnation_never_share:
  assumes "stout_lib lib" "incarnation lib m log"
  shows "never_share lib (mg_agents m)"
proof -
  from incarnation_reachable [OF assms(2,1)] obtain h junk mc m0 where
    r: "createManagerProcess h lib junk mc = Ok m0" "well_configured m0" "reachable lib m0 m" by blast
  from reachable_vteps_unique [OF assms(1) r] reachable_subnets_disjoint [OF assms(1) r] show ?thesis
    unfolding never_share_def by blast
qed

text \<open>What happens after a process has demoted itself.\<close>

lemma exit_then_start:
  assumes "running s" and "sv_handle S_Exited s = (s1, acts1)"
  obtains s2 acts2 where "sv_process s1 = None" "sv_enabled (S_Initialize (Inr p)) s1"
    "sv_handle (S_Initialize (Inr p)) s1 = (s2, acts2)" "sv_alive s2 = Some p" "sv_promises s2 = []"
  using assms by (auto simp: running_def sv_exited_def sv_initialize_def spawn_child_def Let_def)

lemma demoted_master_replaced:
  assumes "su_inv lib su" "sv_alive (su_supervisor su) = Some p" "mg_terminated (su_masters su ! p)"
    and "createManagerProcess h lib junk mc = Ok m" "well_configured m"
  shows "\<exists>su'. (su_step lib)\<^sup>+\<^sup>+ su su' \<and> su_masters su' = su_masters su @ [m] \<and> su_log su' = su_log su \<and>
    sv_alive (su_supervisor su') = Some (length (su_masters su)) \<and> sv_promises (su_supervisor su') = []"
proof -
  from su_inv_running [OF assms(1,2)] have r: "running (su_supervisor su)" .
  obtain s1 acts1 where e: "sv_handle S_Exited (su_supervisor su) = (s1, acts1)" by fastforce
  let ?su1 = "su\<lparr>su_supervisor := s1\<rparr>"
  have st1: "su_step lib su ?su1" by (rule Exit [OF assms(2,3) e])
  obtain s2 acts2 where i: "sv_process s1 = None" "sv_enabled (S_Initialize (Inr (length (su_masters su)))) s1"
    "sv_handle (S_Initialize (Inr (length (su_masters su)))) s1 = (s2, acts2)"
    and a: "sv_alive s2 = Some (length (su_masters su))" "sv_promises s2 = []"
    by (rule exit_then_start [OF r e])
  have "su_step lib ?su1 (?su1\<lparr>su_supervisor := s2, su_masters := su_masters ?su1 @ [m]\<rparr>)"
    by (rule Start_New [OF _ assms(4,5)]) (use i in simp_all)
  with st1 have "(su_step lib)\<^sup>+\<^sup>+ su (?su1\<lparr>su_supervisor := s2, su_masters := su_masters ?su1 @ [m]\<rparr>)"
    by (meson tranclp.r_into_trancl tranclp.trancl_into_trancl)
  with a show ?thesis
    by (intro exI [where x = "?su1\<lparr>su_supervisor := s2, su_masters := su_masters ?su1 @ [m]\<rparr>"]) simp
qed

text \<open>
  C7: The module as a whole: whichever of the supervised master processes runs, no two agents it
  knows share a VTEP address or have overlapping subnets, and it is an incarnation of the master over
  the replicated log; when it demotes itself, its exit and one attempt to create a successor replace
  it by the new process over the same log, and nobody who asked for the process is left waiting.
\<close>

theorem supervised_masters_safe:
  assumes "stout_lib lib" "su_reachable lib su" "sv_alive (su_supervisor su) = Some p"
  shows "incarnation lib (su_masters su ! p) (su_log su) \<and> never_share lib (mg_agents (su_masters su ! p)) \<and>
    (\<forall>h junk mc m. mg_terminated (su_masters su ! p) \<and> createManagerProcess h lib junk mc = Ok m \<and> well_configured m \<longrightarrow>
       \<not> mg_terminated m \<and>
       (\<exists>su'. (su_step lib)\<^sup>+\<^sup>+ su su' \<and> su_masters su' = su_masters su @ [m] \<and> su_log su' = su_log su \<and>
          sv_alive (su_supervisor su') = Some (length (su_masters su)) \<and> sv_promises (su_supervisor su') = []))"
proof -
  note inv = su_reachable_inv [OF assms(2)]
  from su_inv_running [OF inv assms(3)] assms(3) inv have p: "Suc p = length (su_masters su)"
    by (simp add: su_inv_def running_def)
  then have "su_masters su ! p = last (su_masters su)" using inv by (simp add: su_inv_def last_conv_nth flip: p)
  with inv have i: "incarnation lib (su_masters su ! p) (su_log su)" by (simp add: su_inv_def)
  with incarnation_never_share [OF assms(1) i] demoted_master_replaced [OF inv assms(3)] manager_new_terminated
  show ?thesis by blast
qed

text \<open>A master that registers an agent, cannot read the log and demotes itself.\<close>

lemma su_exec:
  assumes "su_reachable lib su" "sv_alive (su_supervisor su) = Some p" "p < length (su_masters su)"
    and "exec lib es (su_masters su ! p) = Some (m', tr)" "\<forall>st. E_Fetched (Fetched st) \<notin> set es"
  shows "su_reachable lib (su\<lparr>su_masters := (su_masters su)[p := m']\<rparr>)"
  using assms
proof (induction es arbitrary: su tr)
  case Nil
  then have "m' = su_masters su ! p" by simp
  with Nil.prems(1) show ?case by simp
next
  case (Cons e es)
  from Cons.prems(4) obtain m1 acts tr1 where s: "\<not> mg_terminated (su_masters su ! p)" "enabled e (su_masters su ! p)"
    "handle lib e (su_masters su ! p) = Ok (m1, acts)" "exec lib es m1 = Some (m', tr1)"
    by (auto split: if_splits res.splits option.splits)
  let ?su = "su\<lparr>su_masters := (su_masters su)[p := m1]\<rparr>"
  have "su_step lib su ?su"
    by (rule Master [OF Cons.prems(2) step.step [OF s(1-3)]]) (use Cons.prems(5) in auto)
  with Cons.prems(1) have "su_reachable lib ?su" by (rule su_Step)
  from Cons.IH [OF this, of tr1] Cons.prems s(4) show ?case by simp
qed

lemma demotes9:
  "case run9 [register9 0x0A000001, E_Fetched Fetch_Failed] of None \<Rightarrow> False
   | Some (m0, m, tr) \<Rightarrow> mg_terminated m"
  by code_simp

theorem supervised_masters_safe_witness:
  "\<exists>su su'. su_reachable ref_lib su \<and> sv_alive (su_supervisor su) = Some 0 \<and> mg_terminated (su_masters su ! 0) \<and>
     never_share ref_lib (mg_agents (su_masters su ! 0)) \<and>
     (su_step ref_lib)\<^sup>+\<^sup>+ su su' \<and> sv_alive (su_supervisor su') = Some 1"
proof -
  from demotes9 obtain m0 m tr where r: "run9 [register9 0x0A000001, E_Fetched Fetch_Failed] = Some (m0, m, tr)"
    and t: "mg_terminated m" by (auto split: option.splits)
  from run9_Some [OF r] have c: "createManagerProcess host9 ref_lib (replicate 6 0) config9 = Ok m0"
    and e: "exec ref_lib [register9 0x0A000001, E_Fetched Fetch_Failed] m0 = Some (m, tr)" by simp_all
  obtain s where s: "supervisor_create (Inr 0) = Inr s" by (simp add: supervisor_create_def)
  let ?su0 = "\<lparr>su_supervisor = s, su_masters = [m0], su_log = empty_state\<rparr>"
  have "createManager host9 ref_lib (replicate 6 0) empty_state config9 = Ok (Inr ?su0)"
    by (simp add: createManager_def numbered_def c s)
  from su_Created [OF this] well_configured9 [OF c] have r0: "su_reachable ref_lib ?su0" by simp
  obtain s' acts where i: "sv_handle (S_Initialize (Inr 0)) s = (s', acts)" by fastforce
  with s have a: "sv_process s = Some 0" "sv_enabled (S_Initialize (Inr 0)) s" "sv_alive s' = Some 0"
    by (auto simp: supervisor_create_def sv_initialize_def spawn_child_def Let_def)
  let ?su1 = "?su0\<lparr>su_supervisor := s'\<rparr>"
  from su_Step [OF r0 Start_First [of ?su0 0 "Inr 0" s' acts]] a i have r1: "su_reachable ref_lib ?su1" by simp
  have e1: "exec ref_lib [register9 0x0A000001, E_Fetched Fetch_Failed] (su_masters ?su1 ! 0) = Some (m, tr)"
    using e by simp
  have "su_reachable ref_lib (?su1\<lparr>su_masters := (su_masters ?su1)[0 := m]\<rparr>)"
    by (rule su_exec [OF r1 _ _ e1]) (use a in \<open>auto simp: register9_def\<close>)
  then have r2: "su_reachable ref_lib (?su1\<lparr>su_masters := [m]\<rparr>)" (is "su_reachable _ ?su2") by simp
  have a2: "sv_alive (su_supervisor ?su2) = Some 0" "mg_terminated (su_masters ?su2 ! 0)" using a t by simp_all
  from supervised_masters_safe [OF ref.stout_lib_axioms r2 a2(1)] c well_configured9 [OF c] a2(2)
  obtain su' where "(su_step ref_lib)\<^sup>+\<^sup>+ ?su2 su'" "sv_alive (su_supervisor su') = Some 1"
    "never_share ref_lib (mg_agents (su_masters ?su2 ! 0))" by fastforce
  with r2 a2 show ?thesis by blast
qed

end
