(* ===== verification/Announcements.thy ===== *)
theory Announcements
  imports MasterFailover
begin

text \<open>
  What the master has told the agents, against what the replicated log holds. A cluster is the
  current master process, the log, and everything announced so far. As long as nothing is deleted
  and no agent is answered while a modification of its entry is still on its way to the log,
  everything announced is in the log, so that no failover can take it back. Without the second
  condition it is not: the last section runs the master into that case.
\<close>

section \<open>What the log and the process say of an agent\<close>

definition told :: "agent_info \<Rightarrow> agent_overlay_info list" where
  "told info = map clear_state (ai_overlays info)"

definition entries :: "net_state \<Rightarrow> string \<rightharpoonup> agent_overlay_info list" where
  "entries st = map_of (map (\<lambda>info. (ai_ip info, told info)) (ns_agents st))"

definition database :: "stout \<Rightarrow> agent_db \<Rightarrow> string \<rightharpoonup> agent_overlay_info list" where
  \<comment> \<open>the agents in memory, by the address their entries are stored under\<close>
  "database lib agents s =
     (case ovl_ip_parse lib AF_INET s of
        Ok ip \<Rightarrow> if show_ip lib ip = s then map_option (\<lambda>a. map clear_state (getOverlays a)) (agents ip) else None
      | _ \<Rightarrow> None)"

text \<open>What the operations do to these maps, and when they succeed.\<close>

fun op_info :: "operation \<Rightarrow> agent_info option" where
  "op_info (AddAgent info) = Some info"
| "op_info (ModifyAgent info) = Some info"
| "op_info (DeleteAgents ips) = None"

definition change :: "operation \<Rightarrow> string \<rightharpoonup> agent_overlay_info list" where
  "change op = (case op_info op of None \<Rightarrow> Map.empty | Some info \<Rightarrow> [ai_ip info \<mapsto> told info])"

fun changes :: "operation list \<Rightarrow> string \<rightharpoonup> agent_overlay_info list" where
  "changes [] = Map.empty"
| "changes (op # ops) = change op ++ changes ops"

fun op_fits :: "operation \<Rightarrow> string set \<Rightarrow> bool" where
  "op_fits (AddAgent info) D \<longleftrightarrow> ai_ip info \<notin> D"
| "op_fits (ModifyAgent info) D \<longleftrightarrow> ai_ip info \<in> D"
| "op_fits (DeleteAgents ips) D \<longleftrightarrow> False"

fun ops_fit :: "operation list \<Rightarrow> string set \<Rightarrow> bool" where
  "ops_fit [] D \<longleftrightarrow> True"
| "ops_fit (op # ops) D \<longleftrightarrow> op_fits op D \<and> ops_fit ops (D \<union> dom (change op))"

text \<open>\<open>f\<close> is extended by \<open>g\<close>: an agent keeps its overlays and may gain some.\<close>

definition extends :: "(string \<rightharpoonup> agent_overlay_info list) \<Rightarrow> (string \<rightharpoonup> agent_overlay_info list) \<Rightarrow> bool" where
  "extends f g \<longleftrightarrow> (\<forall>s l. f s = Some l \<longrightarrow> (\<exists>l'. g s = Some l' \<and> set l \<subseteq> set l'))"

lemma extendsI: "(\<And>s l. f s = Some l \<Longrightarrow> \<exists>l'. g s = Some l' \<and> set l \<subseteq> set l') \<Longrightarrow> extends f g"
  by (simp add: extends_def)

lemma extendsD: "extends f g \<Longrightarrow> f s = Some l \<Longrightarrow> \<exists>l'. g s = Some l' \<and> set l \<subseteq> set l'"
  by (simp add: extends_def)

lemma extends_refl [simp]: "extends f f"
  by (simp add: extends_def)

lemma extends_empty [simp]: "extends Map.empty f"
  by (simp add: extends_def)

lemma extends_trans: "extends f g \<Longrightarrow> extends g h \<Longrightarrow> extends f h"
  unfolding extends_def by blast

lemma extends_dom: "extends f g \<Longrightarrow> dom f \<subseteq> dom g"
  unfolding extends_def by blast

lemma extends_upd: "(\<And>l. f s = Some l \<Longrightarrow> set l \<subseteq> set l') \<Longrightarrow> extends f (f(s \<mapsto> l'))"
  by (auto simp: extends_def)

lemma change_simps [simp]:
  "change (AddAgent info) = [ai_ip info \<mapsto> told info]" "change (ModifyAgent info) = [ai_ip info \<mapsto> told info]"
  "change (DeleteAgents ips) = Map.empty"
  by (simp_all add: change_def)

lemma changes_append [simp]: "changes (xs @ ys) = changes xs ++ changes ys"
  by (induction xs) (simp_all add: map_add_assoc)

lemma ops_fit_append [simp]: "ops_fit (xs @ ys) D \<longleftrightarrow> ops_fit xs D \<and> ops_fit ys (D \<union> dom (changes xs))"
  by (induction xs arbitrary: D) (simp_all add: Un_ac)

lemma add_idem: "(f ++ g) ++ g = f ++ g"
  by (auto simp: map_add_def fun_eq_iff split: option.split)

lemma ops_fit_add: "ops_fit ops D \<Longrightarrow> AddAgent info \<in> set ops \<Longrightarrow> ai_ip info \<notin> D"
  by (induction ops arbitrary: D) auto

lemma ops_fit_delete: "ops_fit ops D \<Longrightarrow> DeleteAgents ips \<notin> set ops"
  by (induction ops arbitrary: D) auto

lemma changes_dom: "s \<in> dom (changes ops) \<Longrightarrow> \<exists>op info. op \<in> set ops \<and> op_info op = Some info \<and> ai_ip info = s"
  by (induction ops) (auto simp: change_def split: option.splits if_splits)

text \<open>An address that is in the state already can only have a modification on its way.\<close>

lemma fit_modifies:
  assumes "ops_fit ops D" "s \<in> D" "s \<in> dom (changes ops)"
  shows "\<exists>info. ModifyAgent info \<in> set ops \<and> ai_ip info = s"
proof -
  from changes_dom [OF assms(3)] obtain op info where
    o: "op \<in> set ops" "op_info op = Some info" "ai_ip info = s" by blast
  show ?thesis
  proof (cases op)
    case (AddAgent i)
    with ops_fit_add [OF assms(1)] o assms(2) show ?thesis by force
  next
    case (ModifyAgent i)
    with o show ?thesis by force
  qed (use o in simp)
qed

lemma entries_put:
  "modify_first (ai_ip info) info xs = Some ys \<Longrightarrow>
   map_of (map (\<lambda>info. (ai_ip info, told info)) ys) =
     (map_of (map (\<lambda>info. (ai_ip info, told info)) xs))(ai_ip info \<mapsto> told info)"
  by (induction xs arbitrary: ys) (auto split: if_splits option.splits)

lemma entries_append: "ai_ip info \<notin> dom (entries st) \<Longrightarrow>
    entries (st\<lparr>ns_agents := ns_agents st @ [info]\<rparr>) = entries st ++ [ai_ip info \<mapsto> told info]"
  by (auto simp: entries_def map_add_def fun_eq_iff domIff split: option.splits)

lemma dom_entries: "dom (entries st) = ai_ip ` set (ns_agents st)"
  by (auto simp: entries_def dom_map_of_conv_image_fst image_image)

text \<open>In a state they fit, operations on agents the process knows succeed.\<close>

definition known :: "stout \<Rightarrow> agent_db \<Rightarrow> string \<Rightarrow> bool" where
  "known lib agents s \<longleftrightarrow> s \<in> dom (database lib agents)"

lemma known_find: "known lib agents s \<Longrightarrow> is_ok (find_agent lib agents s)"
  by (auto simp: known_def database_def find_agent_def split: res.splits if_splits)

lemma perform_fits:
  assumes "op_fits op (dom (entries st))" "\<And>info. op_info op = Some info \<Longrightarrow> known lib agents (ai_ip info)"
    "distinct (map ai_ip (ns_agents st))"
  obtains st' where "perform lib agents op st = Ok st'" "entries st' = entries st ++ change op"
    "distinct (map ai_ip (ns_agents st'))" "ns_network st' = ns_network st"
proof (cases op)
  case (AddAgent info)
  then obtain ip where f: "find_agent lib agents (ai_ip info) = Ok ip"
    using known_find [OF assms(2)] by (cases "find_agent lib agents (ai_ip info)") auto
  have n: "ai_ip info \<notin> dom (entries st)" using assms(1) AddAgent by simp
  with entries_append [OF n] show thesis
    using that [of "st\<lparr>ns_agents := ns_agents st @ [info]\<rparr>"] f assms(3) by (simp add: AddAgent dom_entries)
next
  case (ModifyAgent info)
  then obtain ip where f: "find_agent lib agents (ai_ip info) = Ok ip"
    using known_find [OF assms(2)] by (cases "find_agent lib agents (ai_ip info)") auto
  have "ai_ip info \<in> ai_ip ` set (ns_agents st)" using assms(1) ModifyAgent by (simp add: dom_entries)
  then obtain ys where y: "modify_first (ai_ip info) info (ns_agents st) = Some ys"
    using modify_first_None [of "ai_ip info" info "ns_agents st"] by blast
  have p: "perform lib agents op st = Ok (st\<lparr>ns_agents := ys\<rparr>)" using f y by (simp add: ModifyAgent)
  show thesis
    by (rule that [OF p]) (use entries_put [OF y] perform_ips [OF p] assms(3) in
      \<open>simp_all add: entries_def ModifyAgent\<close>)
qed (use assms in simp)

lemma apply_all_fits:
  assumes "apply_all lib agents ops st = Ok (st', rs)" "ops_fit (map fst ops) (dom (entries st))"
    "\<And>op info. op \<in> set (map fst ops) \<Longrightarrow> op_info op = Some info \<Longrightarrow> known lib agents (ai_ip info)"
    "distinct (map ai_ip (ns_agents st))"
  shows "entries st' = entries st ++ changes (map fst ops) \<and> distinct (map ai_ip (ns_agents st')) \<and>
    ns_network st' = ns_network st \<and> (\<forall>(op, ok, w) \<in> set rs. ok)"
  using assms
proof (induction ops arbitrary: st rs)
  case (Cons ow ops)
  obtain op w where ow: "ow = (op, w)" by (cases ow)
  have kn: "known lib agents (ai_ip info)" if "op_info op = Some info" for info
    using Cons.prems(3) [of op] that by (simp add: ow)
  have fo: "op_fits op (dom (entries st))" using Cons.prems(2) by (simp add: ow)
  obtain st1 where p: "perform lib agents op st = Ok st1" "entries st1 = entries st ++ change op"
    "distinct (map ai_ip (ns_agents st1))" "ns_network st1 = ns_network st"
    by (rule perform_fits [OF fo kn Cons.prems(4)])
  then obtain rs1 where r: "apply_all lib agents ops st1 = Ok (st', rs1)" "rs = (op, True, w) # rs1"
    using Cons.prems(1) by (auto simp: ow apply_op_def res_simps)
  have "ops_fit (map fst ops) (dom (entries st1))" using Cons.prems(2) p(2) by (simp add: ow Un_commute)
  moreover have "known lib agents (ai_ip info)" if "op' \<in> set (map fst ops)" "op_info op' = Some info" for op' info
    using Cons.prems(3) [of op'] that by simp
  ultimately have "entries st' = entries st1 ++ changes (map fst ops) \<and> distinct (map ai_ip (ns_agents st')) \<and>
      ns_network st' = ns_network st1 \<and> (\<forall>(op, ok, w) \<in> set rs1. ok)"
    using Cons.IH [OF r(1) _ _ p(3)] by blast
  then show ?case by (simp add: ow map_add_assoc p(2,4) r(2))
qed simp
section \<open>A process in step with the log\<close>

definition log_base :: "manager \<Rightarrow> net_state" where
  \<comment> \<open>the state the queued operations will be applied to\<close>
  "log_base m = (case mg_inflight m of None \<Rightarrow> mg_state m | Some (st, rs) \<Rightarrow> st)"

definition log_flying :: "manager \<Rightarrow> operation list" where
  \<comment> \<open>the operations of the write under way\<close>
  "log_flying m = (case mg_inflight m of None \<Rightarrow> [] | Some (st, rs) \<Rightarrow> map (\<lambda>(op, ok, w). op) rs)"

definition log_queue :: "manager \<Rightarrow> operation list" where
  "log_queue m = map fst (mg_ops m)"

fun waits :: "stout \<Rightarrow> string set \<Rightarrow> waiter \<Rightarrow> bool" where
  "waits lib D (W_Register pid aip) \<longleftrightarrow> up_ip pid = aip \<and> show_ip lib aip \<in> D"
| "waits lib D (W_Delete strs) \<longleftrightarrow> False"

definition waiters_ok :: "stout \<Rightarrow> manager \<Rightarrow> bool" where
  \<comment> \<open>who waits for an answer: for which entry, and that it is in the state once the answer is due\<close>
  "waiters_ok lib m \<longleftrightarrow>
     (\<forall>(op, w) \<in> set (mg_ops m). waits lib (dom (change op)) w) \<and>
     (\<forall>st rs. mg_inflight m = Some (st, rs) \<longrightarrow> (\<forall>(op, ok, w) \<in> set rs. waits lib (dom (change op)) w)) \<and>
     (\<forall>(w, r) \<in> set (mg_due m). waits lib (dom (entries (mg_state m))) w)"

definition live :: "stout \<Rightarrow> manager \<Rightarrow> net_state \<Rightarrow> bool" where
  "live lib m log \<longleftrightarrow>
     mg_log m \<noteq> None \<and> mg_stored m \<noteq> None \<and>
     entries (log_base m) ++ changes (log_queue m) = database lib (mg_agents m) \<and>
     entries log ++ changes (log_flying m) = entries (log_base m) \<and>
     extends (entries log) (entries (log_base m)) \<and>
     extends (entries (log_base m)) (database lib (mg_agents m)) \<and>
     ops_fit (log_flying m @ log_queue m) (dom (entries (mg_state m))) \<and>
     dom (entries (log_base m)) = dom (entries (mg_state m)) \<union> dom (changes (log_flying m)) \<and>
     distinct (map ai_ip (ns_agents (log_base m))) \<and>
     ns_network (log_base m) \<noteq> None \<and> ns_network (mg_state m) \<noteq> None \<and>
     (\<forall>ip \<in> dom (mg_agents m). \<exists>x. ip = V4 x) \<and> waiters_ok lib m"

lemma liveD:
  assumes "live lib m log"
  shows "mg_log m \<noteq> None" "mg_stored m \<noteq> None"
    "entries (log_base m) ++ changes (log_queue m) = database lib (mg_agents m)"
    "entries log ++ changes (log_flying m) = entries (log_base m)"
    "extends (entries log) (entries (log_base m))"
    "extends (entries (log_base m)) (database lib (mg_agents m))"
    "ops_fit (log_flying m @ log_queue m) (dom (entries (mg_state m)))"
    "dom (entries (log_base m)) = dom (entries (mg_state m)) \<union> dom (changes (log_flying m))"
    "distinct (map ai_ip (ns_agents (log_base m)))" "ns_network (log_base m) \<noteq> None" "ns_network (mg_state m) \<noteq> None"
    "\<And>ip a. mg_agents m ip = Some a \<Longrightarrow> \<exists>x. ip = V4 x" "waiters_ok lib m"
  using assms unfolding live_def by blast+

lemma log_parts_ops [simp]:
  "log_base (m\<lparr>mg_ops := ops\<rparr>) = log_base m" "log_flying (m\<lparr>mg_ops := ops\<rparr>) = log_flying m"
  "log_queue (m\<lparr>mg_ops := ops\<rparr>) = map fst ops"
  by (simp_all add: log_base_def log_flying_def log_queue_def split: option.split)

lemma live_queue_fits: "live lib m log \<Longrightarrow> ops_fit (log_queue m) (dom (entries (log_base m)))"
  using liveD(7,8) [of lib m log] by simp

lemma live_known:
  assumes "live lib m log" "op \<in> set (log_queue m)" "op_info op = Some info"
  shows "known lib (mg_agents m) (ai_ip info)"
proof -
  have "ai_ip info \<in> dom (changes ops)" if "op \<in> set ops" for ops
    using that assms(3) by (induction ops) (auto simp: change_def)
  with liveD(3) [OF assms(1)] assms(2) show ?thesis
    unfolding known_def by (metis Un_iff dom_map_add)
qed

text \<open>The process gives the operations of its queue to the log.\<close>

lemma store_live:
  assumes "live lib m log" "mg_inflight m = None" "store lib m = Ok (m', acts)"
  shows "live lib m' log \<and> (\<exists>st. acts = [Log_Store st]) \<and> mg_state m' = mg_state m \<and> mg_agents m' = mg_agents m"
proof -
  note d = liveD [OF assms(1)]
  have b: "log_base m = mg_state m" "log_flying m = []" using assms(2) by (simp_all add: log_base_def log_flying_def)
  from assms(3) obtain st rs where
    a: "apply_all lib (mg_agents m) (mg_ops m) (mg_state m) = Ok (st, rs)" and
    m': "m' = m\<lparr>mg_storing := True, mg_inflight := Some (st, rs), mg_ops := []\<rparr>" "acts = [Log_Store st]"
    by (auto simp: store_def res_simps split: if_splits)
  have "ops_fit (map fst (mg_ops m)) (dom (entries (mg_state m)))"
    using live_queue_fits [OF assms(1)] by (simp add: b log_queue_def)
  from apply_all_fits [OF a this live_known [OF assms(1), unfolded log_queue_def]] d(9) have
    e: "entries st = entries (mg_state m) ++ changes (log_queue m)" "distinct (map ai_ip (ns_agents st))"
    "ns_network st = ns_network (mg_state m)" by (simp_all add: b log_queue_def)
  have o: "map (\<lambda>(op, ok, w). (op, w)) rs = mg_ops m" by (rule apply_all_ops [OF a])
  then have f: "map (\<lambda>(op, ok, w). op) rs = log_queue m"
    by (auto simp: log_queue_def comp_def case_prod_unfold dest: arg_cong [where f = "map fst"])
  have st: "entries st = database lib (mg_agents m)" using d(3) e(1) by (simp add: b)
  have n: "log_base m' = st" "log_flying m' = log_queue m" "log_queue m' = []"
    by (simp_all add: m' log_base_def log_flying_def f)
  have "\<forall>(op, ok, w) \<in> set rs. waits lib (dom (change op)) w"
  proof -
    have "(op, w) \<in> set (mg_ops m)" if "(op, ok, w) \<in> set rs" for op ok w
      using that by (force simp: o [symmetric])
    then show ?thesis using d(13) unfolding waiters_ok_def by blast
  qed
  then have w: "waiters_ok lib m'" using d(13) by (auto simp: m' waiters_ok_def)
  have s: "mg_state m' = mg_state m" "mg_agents m' = mg_agents m" "mg_log m' = mg_log m" "mg_stored m' = mg_stored m"
    by (simp_all add: m')
  have dd: "dom (database lib (mg_agents m)) = dom (entries (mg_state m)) \<union> dom (changes (log_queue m))"
    by (simp only: d(3) [symmetric] b dom_map_add Un_ac)
  have v: "\<forall>ip \<in> dom (mg_agents m). \<exists>x. ip = V4 x" using d(12) by blast
  have "live lib m' log"
    unfolding live_def n s
    using d(1-11) e(2,3) st w v dd extends_trans [OF d(5,6)] by (simp add: b)
  with m' show ?thesis by simp
qed
text \<open>The fields that \<open>live\<close> reads, but for the agents.\<close>

definition same_log :: "manager \<Rightarrow> manager \<Rightarrow> bool" where
  "same_log m m' \<longleftrightarrow>
     mg_state m' = mg_state m \<and> mg_inflight m' = mg_inflight m \<and> mg_ops m' = mg_ops m \<and>
     mg_due m' = mg_due m \<and> mg_stored m' = mg_stored m \<and> mg_log m' = mg_log m \<and>
     mg_storing m' = mg_storing m \<and> mg_terminated m' = mg_terminated m"

lemma same_log_refl [simp]: "same_log m m"
  by (simp add: same_log_def)

lemma same_log_parts:
  assumes "same_log m m'"
  shows "log_base m' = log_base m" "log_flying m' = log_flying m" "log_queue m' = log_queue m"
    "waiters_ok lib m' = waiters_ok lib m"
  using assms by (simp_all add: same_log_def log_base_def log_flying_def log_queue_def waiters_ok_def split: option.split)

lemma live_same_db:
  assumes "live lib m log" "same_log m m'" "database lib (mg_agents m') = database lib (mg_agents m)"
    "dom (mg_agents m') = dom (mg_agents m)"
  shows "live lib m' log"
proof -
  note p = same_log_parts [OF assms(2)]
  have "mg_state m' = mg_state m" "mg_log m' = mg_log m" "mg_stored m' = mg_stored m"
    using assms(2) by (simp_all add: same_log_def)
  with assms(1) show ?thesis unfolding live_def p assms(3,4) by simp
qed

lemma live_same:
  "live lib m log \<Longrightarrow> same_log m m' \<Longrightarrow> mg_agents m' = mg_agents m \<Longrightarrow> live lib m' log"
  by (simp add: live_def same_log_parts) (simp add: same_log_def)

context stout_lib
begin

lemma database_upd:
  "database lib (agents(V4 x \<mapsto> a)) = (database lib agents)(show_ip lib (V4 x) \<mapsto> map clear_state (getOverlays a))"
  by (rule ext) (auto simp: database_def split: res.split)

lemma database_of: "database lib agents (show_ip lib (V4 x)) = map_option (\<lambda>a. map clear_state (getOverlays a)) (agents (V4 x))"
  by (simp add: database_def)

lemma told_agent: "told (getAgentInfo lib a) = map clear_state (getOverlays a)"
  by (simp add: told_def getAgentInfo_def getOverlays_def)

text \<open>An agent is added or changed in memory, and its entry queued.\<close>

lemma enqueue_live:
  assumes "live lib m log" "same_log m m1" "mg_agents m1 = (mg_agents m)(V4 x \<mapsto> a)" "ag_ip a = V4 x"
    "op = AddAgent (getAgentInfo lib a) \<and> mg_agents m (V4 x) = None \<or>
     op = ModifyAgent (getAgentInfo lib a) \<and>
       (\<exists>b. mg_agents m (V4 x) = Some b \<and> set (map clear_state (getOverlays b)) \<subseteq> set (map clear_state (getOverlays a)))"
    "up_ip pid = V4 x"
  shows "live lib (m1\<lparr>mg_ops := mg_ops m1 @ [(op, W_Register pid (V4 x))]\<rparr>) log"
proof -
  let ?m = "m1\<lparr>mg_ops := mg_ops m1 @ [(op, W_Register pid (V4 x))]\<rparr>" and ?s = "show_ip lib (V4 x)"
  note d = liveD [OF assms(1)] and p = same_log_parts [OF assms(2)]
  have c: "change op = [?s \<mapsto> map clear_state (getOverlays a)]"
    using assms(4,5) told_agent [of a] by (auto simp: getAgentInfo_def)
  have b: "log_base ?m = log_base m" "log_flying ?m = log_flying m" "log_queue ?m = log_queue m @ [op]"
    using p(3) by (simp_all add: p(1,2)) (simp add: log_queue_def)
  have db: "database lib (mg_agents ?m) = (database lib (mg_agents m))(?s \<mapsto> map clear_state (getOverlays a))"
    using assms(3) by (simp add: database_upd)
  have old: "database lib (mg_agents m) ?s = map_option (\<lambda>a. map clear_state (getOverlays a)) (mg_agents m (V4 x))"
    by (rule database_of)
  have "extends (database lib (mg_agents m)) (database lib (mg_agents ?m))"
    unfolding db by (rule extends_upd) (use old assms(5) in auto)
  with d(6) have e: "extends (entries (log_base m)) (database lib (mg_agents ?m))" by (rule extends_trans)
  have dm: "dom (database lib (mg_agents m)) =
      dom (entries (mg_state m)) \<union> dom (changes (log_flying m @ log_queue m))"
    by (simp only: d(3) [symmetric] d(8) dom_map_add changes_append Un_ac)
  have "ai_ip (getAgentInfo lib a) = ?s" by (simp add: getAgentInfo_def assms(4))
  then have "op_fits op (dom (database lib (mg_agents m)))"
    using assms(5) old by (auto simp: domIff)
  then have f: "ops_fit ((log_flying m @ log_queue m) @ [op]) (dom (entries (mg_state m)))"
    using d(7) by (simp add: dm Un_ac)
  have w: "waiters_ok lib ?m"
    using d(13) p(4) [of lib] assms(6) c by (auto simp: waiters_ok_def)
  have s: "mg_state ?m = mg_state m" "mg_log ?m = mg_log m" "mg_stored ?m = mg_stored m"
    using assms(2) by (simp_all add: same_log_def)
  have v4: "\<forall>ip \<in> dom (mg_agents ?m). \<exists>x. ip = V4 x" using d(12) by (auto simp: assms(3))
  have "entries (log_base m) ++ changes (log_queue m @ [op]) = database lib (mg_agents ?m)"
    by (simp only: db) (simp add: c d(3))
  with d e f w v4 show ?thesis unfolding live_def b s by simp
qed

lemma update_op_live:
  assumes "live lib m log" "same_log m m1" "mg_agents m1 = (mg_agents m)(V4 x \<mapsto> a)" "ag_ip a = V4 x"
    "op = AddAgent (getAgentInfo lib a) \<and> mg_agents m (V4 x) = None \<or>
     op = ModifyAgent (getAgentInfo lib a) \<and>
       (\<exists>b. mg_agents m (V4 x) = Some b \<and> set (map clear_state (getOverlays b)) \<subseteq> set (map clear_state (getOverlays a)))"
    "up_ip pid = V4 x" "log_inv m" "update_op lib op (W_Register pid (V4 x)) m1 = Ok (m', acts)"
  shows "live lib m' log \<and> list_all (\<lambda>a. \<exists>st. a = Log_Store st) acts"
proof -
  let ?m = "m1\<lparr>mg_ops := mg_ops m1 @ [(op, W_Register pid (V4 x))]\<rparr>"
  note l = enqueue_live [OF assms(1-6)]
  have "mg_log m1 \<noteq> None" using liveD(1) [OF assms(1)] assms(2) by (simp add: same_log_def)
  with assms(8) have u: "(if mg_storing ?m then Ok (?m, []) else store lib ?m) = Ok (m', acts)"
    by (auto simp: update_op_def Let_def)
  show ?thesis
  proof (cases "mg_storing ?m")
    case False
    then have "mg_inflight ?m = None"
      using assms(2,7) by (cases "mg_inflight m") (simp_all add: same_log_def log_inv_def)
    from store_live [OF l this] u False show ?thesis by auto
  qed (use u l in auto)
qed

end
section \<open>The handlers keep the process in step\<close>

text \<open>
  \<open>serves lib log m r\<close>: what the handler that started in \<open>m\<close> leaves is in step with the log, and it
  tells an agent only what it holds, and only if the state has its entry.
\<close>

definition tells :: "stout \<Rightarrow> manager \<Rightarrow> action list \<Rightarrow> bool" where
  "tells lib m acts \<longleftrightarrow>
     (\<forall>pid aos. Send_Update pid aos \<in> set acts \<longrightarrow>
        (\<exists>a. mg_agents m (up_ip pid) = Some a \<and> aos = map clear_state (getOverlays a) \<and>
           show_ip lib (up_ip pid) \<in> dom (entries (mg_state m))))"

definition serves :: "stout \<Rightarrow> net_state \<Rightarrow> manager \<Rightarrow> handled \<Rightarrow> bool" where
  "serves lib log m r \<longleftrightarrow>
     (case r of Ok (m', acts) \<Rightarrow> live lib m' log \<and> tells lib m acts | _ \<Rightarrow> True)"

lemma serves_simps [simp]:
  "serves lib log m (Ok (m', acts)) \<longleftrightarrow> live lib m' log \<and> tells lib m acts"
  "serves lib log m (Error e)" "serves lib log m (Crash c)"
  by (simp_all add: serves_def)

lemma serves_bind: "(\<And>x. r = Ok x \<Longrightarrow> serves lib log m (f x)) \<Longrightarrow> serves lib log m (bind_res r f)"
  by (cases r) simp_all

lemma tells_simps [simp]: "tells lib m []" "tells lib m [Log_Fetch]" "tells lib m [Send_Ack pid]"
  "tells lib m [Http x]"
  by (simp_all add: tells_def)

lemma tells_store: "list_all (\<lambda>a. \<exists>st. a = Log_Store st) acts \<Longrightarrow> tells lib m acts"
  by (auto simp: tells_def list_all_iff)

lemma tells_from:
  "tells lib m0 acts \<Longrightarrow> mg_state m0 = mg_state m \<Longrightarrow> mg_agents m0 = mg_agents m \<Longrightarrow> tells lib m acts"
  by (simp add: tells_def)

lemma serves_from:
  "serves lib log m0 r \<Longrightarrow> mg_state m0 = mg_state m \<Longrightarrow> mg_agents m0 = mg_agents m \<Longrightarrow> serves lib log m r"
  by (auto simp: serves_def split: res.splits dest: tells_from)

lemma same_log_simps [simp]:
  "same_log m (m\<lparr>mg_metrics := x\<rparr>)" "same_log m (m\<lparr>mg_overlays := ovs\<rparr>)" "same_log m (m\<lparr>mg_vtep := v\<rparr>)"
  "same_log m (m\<lparr>mg_agents := ag\<rparr>)" "same_log m (count f m)" "same_log m (m\<lparr>mg_recovering := b\<rparr>)"
  "same_log m (m\<lparr>mg_overlays := ovs, mg_agents := ag, mg_metrics := x\<rparr>)"
  by (simp_all add: same_log_def)

lemma live_frames [simp]:
  "live lib (count f m) log \<longleftrightarrow> live lib m log" "live lib (m\<lparr>mg_vtep := v\<rparr>) log \<longleftrightarrow> live lib m log"
  "live lib (m\<lparr>mg_recovering := b\<rparr>) log \<longleftrightarrow> live lib m log"
  by (auto intro: live_same simp: same_log_def elim!: live_same)

context stout_lib
begin

lemma register_reply_serves:
  assumes "live lib m log" "up_ip pid = aip" "show_ip lib aip \<in> dom (entries (mg_state m))"
  shows "serves lib log m (register_reply pid aip r m)"
  using assms by (auto simp: register_reply_def tells_def split: outcome.split option.split)

lemma listed_entry: "list_ex (\<lambda>i. ai_ip i = s) (ns_agents st) \<longleftrightarrow> s \<in> dom (entries st)"
  by (auto simp: dom_entries list_ex_iff)

lemma reregister_overlays_serves:
  assumes "live lib m log" "log_inv m" "\<forall>(k, ov) \<in> set (mg_overlays m). ovl_inv ov"
    "distinct (hm_keys (mg_overlays m))" "mg_agents m (V4 x) = Some a0" "ag_overlays a = ag_overlays a0"
    "ag_ip a = V4 x" "up_ip pid = V4 x"
  shows "serves lib log m (reregister_overlays lib pid (V4 x) a cfg m)"
  unfolding reregister_overlays_def
proof (rule serves_bind)
  fix r assume r: "addOverlays lib cfg (mg_overlays m) a (mg_metrics m) = Ok r"
  obtain ovs a' mm mut where r': "r = (ovs, a', mm, mut)" by (cases r)
  from addOverlays_spec [OF assms(3,4) r [unfolded r']] obtain new where
    new: "a' = a\<lparr>ag_overlays := ag_overlays a @ new\<rparr>" "mut = (new \<noteq> [])" by blast
  let ?m = "m\<lparr>mg_overlays := ovs, mg_agents := (mg_agents m)(V4 x \<mapsto> a'), mg_metrics := mm\<rparr>"
  have ip: "ag_ip a' = V4 x" using new(1) assms(7) by simp
  have upd: "serves lib log m (update_op lib (ModifyAgent (getAgentInfo lib a')) (W_Register pid (V4 x)) ?m)"
  proof (cases "update_op lib (ModifyAgent (getAgentInfo lib a')) (W_Register pid (V4 x)) ?m")
    case (Ok q)
    obtain m' acts where q: "q = (m', acts)" by (cases q)
    have "set (map clear_state (getOverlays a0)) \<subseteq> set (map clear_state (getOverlays a'))"
      using assms(6) new(1) by (auto simp: getOverlays_def)
    with update_op_live [OF assms(1) _ _ ip _ assms(8,2) Ok [unfolded q]] assms(5)
    have "live lib m' log \<and> list_all (\<lambda>a. \<exists>st. a = Log_Store st) acts" by simp
    then show ?thesis by (simp add: Ok q tells_store)
  qed simp_all
  have same: "live lib ?m log" if "new = []"
  proof -
    have "database lib (mg_agents ?m) = database lib (mg_agents m)"
      using database_of [of "mg_agents m" x] assms(5,6) new(1) that
      by (auto simp: database_upd getOverlays_def fun_eq_iff)
    moreover have "dom (mg_agents ?m) = dom (mg_agents m)" using assms(5) by auto
    ultimately show ?thesis by (intro live_same_db [OF assms(1)]) simp_all
  qed
  have rep: "serves lib log m (register_reply pid (V4 x) (Ready True) ?m)"
    if "new = []" "list_ex (\<lambda>i. ai_ip i = show_ip lib (V4 x)) (ns_agents (mg_state m))"
  proof -
    have "aos = map clear_state (getOverlays a0)" if "aos = map clear_state (getOverlays a')" for aos
      using that new(1) \<open>new = []\<close> assms(6) by (simp add: getOverlays_def)
    with same [OF that(1)] that assms(5,8) show ?thesis
      by (auto simp: register_reply_def tells_def listed_entry)
  qed
  show "serves lib log m (case r of (ovs, a', mm, mutated) \<Rightarrow>
       let m1 = m\<lparr>mg_overlays := ovs, mg_agents := (mg_agents m)(V4 x \<mapsto> a'), mg_metrics := mm\<rparr> in
       if mutated then update_op lib (ModifyAgent (getAgentInfo lib a')) (W_Register pid (V4 x)) m1
       else if list_ex (\<lambda>i. ai_ip i = show_ip lib (V4 x)) (ns_agents (mg_state m1))
       then register_reply pid (V4 x) (Ready True) m1
       else Ok (count register_dropped m1, []))"
    using upd rep same new(2) by (simp add: r' Let_def)
qed

end
context stout_lib
begin

lemma reregister_serves:
  assumes "live lib m log" "log_inv m" "\<forall>(k, ov) \<in> set (mg_overlays m). ovl_inv ov"
    "distinct (hm_keys (mg_overlays m))" "mg_agents m (V4 x) = Some a" "ag_ip a = V4 x" "up_ip pid = V4 x"
  shows "serves lib log m (reregister lib pid (V4 x) a cfg m)"
  unfolding reregister_def
proof (rule serves_bind)
  fix be
  have up: "serves lib log m (reregister_overlays lib pid (V4 x) (setBackendInfo (Some be') a) cfg (m\<lparr>mg_vtep := v\<rparr>))"
    for be' v
    by (rule serves_from [OF reregister_overlays_serves [where ?a0.0 = a]])
      (use assms in \<open>simp_all add: setBackendInfo_def\<close>)
  have keep: "serves lib log m (reregister_overlays lib pid (V4 x) a cfg m)"
    by (rule reregister_overlays_serves [OF assms(1-5) refl assms(6,7)])
  show "serves lib log m (if vt_network6 (mg_vtep m) \<noteq> None \<and> vx_vtep_ip6 (vxlan_of be) = None then
         (case allocateIP6 lib (mg_vtep m) of
            Crash c \<Rightarrow> Crash c
          | Error _ \<Rightarrow> Ok (count ip6_failed (count register_dropped m), [])
          | Ok (n6, v) \<Rightarrow>
              (let be' = be\<lparr>be_vxlan := Some ((vxlan_of be)\<lparr>vx_vtep_ip6 := Some (show_net lib n6)\<rparr>)\<rparr>
               in reregister_overlays lib pid (V4 x) (setBackendInfo (Some be') a) cfg (m\<lparr>mg_vtep := v\<rparr>)))
       else reregister_overlays lib pid (V4 x) a cfg m)"
    using keep up assms(1) by (auto simp: Let_def split: res.split)
qed

text \<open>
  What a known agent is told, if anything, are the overlays it had before: an IPv6 VTEP address that
  \<open>reregister\<close> has just allocated for it is not part of them.
\<close>

lemma reregister_tells_old:
  assumes "live lib m log" "log_inv m" "\<forall>(k, ov) \<in> set (mg_overlays m). ovl_inv ov"
    "distinct (hm_keys (mg_overlays m))" "mg_agents m (V4 x) = Some a" "ag_ip a = V4 x" "up_ip pid = V4 x"
    "reregister lib pid (V4 x) a cfg m = Ok (m', acts)" "Send_Update pid aos \<in> set acts"
  shows "aos = map clear_state (getOverlays a)"
  using reregister_serves [OF assms(1-7), of cfg] assms(5,7-9) unfolding tells_def serves_def by fastforce

lemma install_agent_serves:
  assumes "live lib m log" "log_inv m" "\<forall>(k, ov) \<in> set (mg_overlays m). ovl_inv ov"
    "distinct (hm_keys (mg_overlays m))" "mg_agents m (V4 x) = None" "up_ip pid = V4 x"
  shows "serves lib log m (install_agent lib pid (V4 x) be cfg m)"
  unfolding install_agent_def
proof (rule serves_bind)
  let ?a = "\<lparr>ag_backend = Some be, ag_overlays = [], ag_ip = V4 x\<rparr>"
  fix r assume r: "addOverlays lib cfg (mg_overlays m) ?a (mg_metrics m) = Ok r"
  obtain ovs a mm mut where r': "r = (ovs, a, mm, mut)" by (cases r)
  from addOverlays_spec [OF assms(3,4) r [unfolded r']] have ip: "ag_ip a = V4 x" by auto
  let ?m = "m\<lparr>mg_overlays := ovs, mg_agents := (mg_agents m)(V4 x \<mapsto> a), mg_metrics := mm\<rparr>"
  show "serves lib log m (case r of (ovs, a, mm, _) \<Rightarrow>
       update_op lib (AddAgent (getAgentInfo lib a)) (W_Register pid (V4 x))
         (m\<lparr>mg_overlays := ovs, mg_agents := (mg_agents m)(V4 x \<mapsto> a), mg_metrics := mm\<rparr>))"
  proof (cases "update_op lib (AddAgent (getAgentInfo lib a)) (W_Register pid (V4 x)) ?m")
    case (Ok q)
    obtain m' acts where q: "q = (m', acts)" by (cases q)
    from update_op_live [OF assms(1) _ _ ip _ assms(6,2) Ok [unfolded q]] assms(5)
    have "live lib m' log \<and> list_all (\<lambda>a. \<exists>st. a = Log_Store st) acts" by simp
    then show ?thesis by (simp add: r' Ok q tells_store)
  qed (simp_all add: r')
qed

lemma register_new_serves:
  assumes "live lib m log" "log_inv m" "\<forall>(k, ov) \<in> set (mg_overlays m). ovl_inv ov"
    "distinct (hm_keys (mg_overlays m))" "mg_agents m (V4 x) = None" "up_ip pid = V4 x"
  shows "serves lib log m (register_new lib pid (V4 x) cfg m)"
  using assms
  by (auto simp: register_new_def split: res.split prod.split intro!: serves_from [OF install_agent_serves])

lemma registerAgent_serves:
  assumes "live lib m log" "log_inv m" "master_inv lib sh m" "up_ip pid = V4 x"
  shows "serves lib log m (registerAgent lib pid cfg m)"
proof -
  note pi = pools_invD [OF master_invD(1) [OF assms(3)]]
  have ov: "\<forall>(k, ov) \<in> set (mg_overlays m). ovl_inv ov" by (rule pi(3))
  have "serves lib log m (reregister lib pid (V4 x) a cfg (count f m))" if "mg_agents m (V4 x) = Some a" for a f
    by (rule serves_from [OF reregister_serves])
      (use assms ov pi(2) pi(4) [OF that] that in \<open>simp_all add: agent_wf_def\<close>)
  moreover have "serves lib log m (register_new lib pid (V4 x) cfg (count f m))" if "mg_agents m (V4 x) = None" for f
    by (rule serves_from [OF register_new_serves]) (use assms ov pi(2) that in simp_all)
  ultimately show ?thesis
    using liveD(2) [OF assms(1)] assms(4)
    by (auto simp: registerAgent_def Let_def split: option.split)
qed

end
text \<open>An acknowledgement changes only the state of overlays, which the log does not keep.\<close>

lemma hm_update_told:
  "map_of kvs k = Some old \<Longrightarrow> g new = g old \<Longrightarrow> distinct (map fst kvs) \<Longrightarrow>
   map (\<lambda>kv. g (snd kv)) (hm_update kvs k new) = map (\<lambda>kv. g (snd kv)) kvs"
  by (induction kvs) (auto simp: map_of_eq_None_iff [symmetric] hm_simps split: if_splits)

lemma update_states_told:
  "update_states aos a = Ok a' \<Longrightarrow> agent_wf lib ip a \<Longrightarrow>
   map clear_state (getOverlays a') = map clear_state (getOverlays a)"
proof (induction aos arbitrary: a)
  case (Cons ao aos)
  then obtain a1 where u: "updateOverlayState ao a = Ok a1" "update_states aos a1 = Ok a'"
    by (auto simp: res_simps)
  from u(1) obtain old where o: "map_of (ag_overlays a) (ao_name ao) = Some old"
    "a1 = a\<lparr>ag_overlays := hm_put (ag_overlays a) (ao_name ao) (set_status (status_of ao) old)\<rparr>"
    by (auto simp: updateOverlayState_def res_simps)
  have "clear_state (set_status (status_of ao) old) = clear_state old"
    by (simp add: clear_state_def set_status_def)
  moreover have "distinct (map fst (ag_overlays a))" using Cons.prems(2) by (simp add: agent_wf_def hm_keys_def)
  ultimately have "map clear_state (getOverlays a1) = map clear_state (getOverlays a)"
    using hm_update_told [OF o(1), where g = clear_state] o by (simp add: getOverlays_def hm_put_def hm_contains_def comp_def)
  with Cons.IH [OF u(2)] updateOverlayState_agent(1) [OF u(1) Cons.prems(2)] show ?case by simp
qed simp

lemma waits_mono: "waits lib D w \<Longrightarrow> D \<subseteq> D' \<Longrightarrow> waits lib D' w"
  by (cases w) auto

lemma change_in_changes: "op \<in> set ops \<Longrightarrow> dom (change op) \<subseteq> dom (changes ops)"
  by (induction ops) auto

lemma store_done_serves:
  assumes "live lib m log" "mg_inflight m = Some (st, rs)" "store_done lib Store_Done m = Ok (m', acts)"
  shows "live lib m' st"
proof -
  note d = liveD [OF assms(1)]
  have b: "log_base m = st" "log_flying m = map (\<lambda>(op, ok, w). op) rs"
    using assms(2) by (simp_all add: log_base_def log_flying_def)
  let ?m = "m\<lparr>mg_storing := False, mg_inflight := None, mg_state := st, mg_stored := Some st,
      mg_due := mg_due m @ map (\<lambda>(op, ok, w). (w, Ready ok)) rs\<rparr>"
  have u: "(if mg_ops ?m \<noteq> [] then store lib ?m else Ok (?m, [])) = Ok (m', acts)"
    using assms(2,3) by (auto simp: store_done_def Let_def split: if_splits)
  have n: "log_base ?m = st" "log_flying ?m = []" "log_queue ?m = log_queue m"
    by (simp_all add: log_base_def log_flying_def log_queue_def)
  have rs: "waits lib (dom (entries st)) w" if "(op, ok, w) \<in> set rs" for op ok w
  proof (rule waits_mono)
    show "waits lib (dom (change op)) w" using d(13) assms(2) that unfolding waiters_ok_def by blast
    have "op \<in> set (log_flying m)" unfolding b using that by force
    then show "dom (change op) \<subseteq> dom (entries st)" using change_in_changes d(8) b(1) by blast
  qed
  have due: "waits lib (dom (entries st)) w" if "(w, r) \<in> set (mg_due m)" for w r
  proof (rule waits_mono)
    show "waits lib (dom (entries (mg_state m))) w" using d(13) that unfolding waiters_ok_def by blast
    show "dom (entries (mg_state m)) \<subseteq> dom (entries st)" using d(8) b(1) by blast
  qed
  have "waiters_ok lib ?m"
    using rs due d(13) unfolding waiters_ok_def by auto
  moreover have "ops_fit (log_queue m) (dom (entries st))" using live_queue_fits [OF assms(1)] by (simp add: b)
  moreover have "\<forall>ip \<in> dom (mg_agents m). \<exists>x. ip = V4 x" using d(12) by blast
  ultimately have l: "live lib ?m st"
    unfolding live_def n using d(1,3,6,9,10) by (simp add: b)
  show ?thesis
  proof (cases "mg_ops ?m = []")
    case True
    with u l show ?thesis by simp
  next
    case False
    with u have "store lib ?m = Ok (m', acts)" by (simp split: if_splits)
    from store_live [OF l _ this] show ?thesis by simp
  qed
qed

context stout_lib
begin

lemma acknowledge_live:
  assumes "live lib m log" "log_inv m" "master_inv lib sh m"
    "mg_agents m (V4 x) = Some a" "update_states aos a = Ok a'"
  shows "live lib (m\<lparr>mg_agents := (mg_agents m)(V4 x \<mapsto> a')\<rparr>) log"
    "modify_first (show_ip lib (V4 x)) (getAgentInfo lib a') (ns_agents (mg_state m)) = Some infos \<Longrightarrow>
       live lib (m\<lparr>mg_agents := (mg_agents m)(V4 x \<mapsto> a'), mg_state := (mg_state m)\<lparr>ns_agents := infos\<rparr>\<rparr>) log"
proof -
  note d = liveD [OF assms(1)] and a = assms(4) and u = assms(5)
  have wf: "agent_wf lib (V4 x) a" by (rule pools_invD(4) [OF master_invD(1) [OF assms(3)] a])
  note t = update_states_told [OF u wf]
  have ip: "ag_ip a' = V4 x" using update_states_agent [OF u wf] by (simp add: agent_wf_def)
  let ?s = "show_ip lib (V4 x)"
  let ?m1 = "m\<lparr>mg_agents := (mg_agents m)(V4 x \<mapsto> a')\<rparr>"
  have db: "database lib (mg_agents ?m1) = database lib (mg_agents m)"
    using a t database_of [of "mg_agents m" x] by (auto simp: database_upd fun_eq_iff)
  have dm: "dom (mg_agents ?m1) = dom (mg_agents m)" using a by auto
  show l1: "live lib ?m1 log" by (rule live_same_db [OF assms(1) _ db dm]) simp
  assume y: "modify_first ?s (getAgentInfo lib a') (ns_agents (mg_state m)) = Some infos"
  let ?st = "(mg_state m)\<lparr>ns_agents := infos\<rparr>"
  let ?m2 = "m\<lparr>mg_agents := (mg_agents m)(V4 x \<mapsto> a'), mg_state := ?st\<rparr>"
  have ai: "ai_ip (getAgentInfo lib a') = ?s" by (simp add: getAgentInfo_def ip)
  have e: "entries ?st = (entries (mg_state m))(?s \<mapsto> map clear_state (getOverlays a))"
    using entries_put [of "getAgentInfo lib a'", unfolded ai, OF y] by (simp add: entries_def told_agent t)
  have mem: "?s \<in> dom (entries (mg_state m))"
    using y modify_first_None [of ?s "getAgentInfo lib a'" "ns_agents (mg_state m)"] by (auto simp: dom_entries)
  have ips: "map ai_ip infos = map ai_ip (ns_agents (mg_state m))"
    using modify_first_Some [OF y] ai by auto
  have de: "dom (entries ?st) = dom (entries (mg_state m))" using e mem by auto
  have p: "log_flying ?m2 = log_flying m" "log_queue ?m2 = log_queue m"
    by (simp_all add: log_flying_def log_queue_def)
  have w: "waiters_ok lib ?m2" using d(13) de by (simp add: waiters_ok_def)
  have v: "\<forall>ip \<in> dom (mg_agents ?m2). \<exists>x. ip = V4 x" using d(12) dm by auto
  show "live lib ?m2 log"
  proof (cases "mg_inflight m")
    case (Some i)
    then have "log_base ?m2 = log_base m" by (simp add: log_base_def)
    with db p w de v d(1-11) show ?thesis by (simp add: live_def)
  next
    case None
    then have "log_queue m = []" using assms(2) by (auto simp: log_queue_def log_inv_def)
    with d(3) have "entries (mg_state m) = database lib (mg_agents m)"
      by (simp add: log_base_def None)
    then have "entries ?st = entries (mg_state m)"
      using a database_of [of "mg_agents m" x] by (auto simp: e fun_eq_iff)
    moreover have "log_base ?m2 = ?st" "log_base m = mg_state m" by (simp_all add: log_base_def None)
    ultimately show ?thesis using db p w ips v d(1-11) by (simp add: live_def)
  qed
qed

lemma agentRegistered_serves:
  assumes "live lib m log" "log_inv m" "master_inv lib sh m"
  shows "serves lib log m (agentRegistered lib from aos m)"
proof -
  let ?c = "count (\<lambda>mm. mm\<lparr>mm_registered_received := mm_registered_received mm + 1\<rparr>) m"
  have "serves lib log m (bind_res (update_states aos a) (\<lambda>a'.
              let m1 = ?c\<lparr>mg_agents := (mg_agents ?c)(aip \<mapsto> a')\<rparr> in
              (case modify_first (show_ip lib aip) (getAgentInfo lib a') (ns_agents (mg_state m1)) of
                 Some infos \<Rightarrow>
                   Ok (count (\<lambda>mm. mm\<lparr>mm_acks_sent := mm_acks_sent mm + 1\<rparr>)
                         (m1\<lparr>mg_state := (mg_state m1)\<lparr>ns_agents := infos\<rparr>\<rparr>), [Send_Ack from])
               | None \<Rightarrow> Ok (count registered_dropped m1, []))))" if a: "mg_agents m aip = Some a" for aip a
  proof (rule serves_bind)
    fix a' assume u: "update_states aos a = Ok a'"
    from liveD(12) [OF assms(1) a] obtain x where x: "aip = V4 x" by blast
    have c: "live lib ?c log" "log_inv ?c" "master_inv lib sh ?c" "mg_agents ?c (V4 x) = Some a"
      using assms a x by simp_all
    from acknowledge_live [OF c u] show "serves lib log m (let m1 = ?c\<lparr>mg_agents := (mg_agents ?c)(aip \<mapsto> a')\<rparr> in
              (case modify_first (show_ip lib aip) (getAgentInfo lib a') (ns_agents (mg_state m1)) of
                 Some infos \<Rightarrow>
                   Ok (count (\<lambda>mm. mm\<lparr>mm_acks_sent := mm_acks_sent mm + 1\<rparr>)
                         (m1\<lparr>mg_state := (mg_state m1)\<lparr>ns_agents := infos\<rparr>\<rparr>), [Send_Ack from])
               | None \<Rightarrow> Ok (count registered_dropped m1, [])))"
      by (simp add: Let_def x split: option.split)
  qed
  then show ?thesis
    using assms(1) by (auto simp: agentRegistered_def Let_def [of "count _ _"] intro!: serves_bind split: option.split)
qed

end

section \<open>Recovery puts a process in step\<close>

definition blank :: "manager \<Rightarrow> bool" where
  \<comment> \<open>a process that has not read the log\<close>
  "blank m \<longleftrightarrow>
     mg_log m \<noteq> None \<and> mg_stored m = None \<and> mg_agents m = Map.empty \<and> mg_inflight m = None \<and>
     mg_ops m = [] \<and> mg_due m = [] \<and> ns_agents (mg_state m) = [] \<and> ns_network (mg_state m) \<noteq> None"

definition log_ok :: "stout \<Rightarrow> net_state \<Rightarrow> bool" where
  "log_ok lib log \<longleftrightarrow>
     distinct (map ai_ip (ns_agents log)) \<and>
     (\<forall>info \<in> set (ns_agents log). \<exists>x. ai_ip info = show_ip lib (V4 x)) \<and>
     (ns_network log = None \<longrightarrow> ns_agents log = [])"

lemma created_blank:
  assumes "createManagerProcess h lib junk mc = Ok m" "mg_log m \<noteq> None"
  shows "blank m \<and> \<not> mg_terminated m"
proof -
  from assms(1) obtain vn oui n6 ovs sp log tmo where
    n: "manager_new lib ovs vn n6 oui (map_option ucast (nc_vtep_mtu (mc_network mc))) (mc_network mc)
       log tmo = Ok m" by (rule createManagerProcess_parts)
  from manager_new_fields [OF n] manager_new_terminated [OF assms(1)] assms(2) show ?thesis
    by (simp add: blank_def)
qed

context stout_lib
begin

lemma recover_agents_database:
  "recover_agents lib infos ovs v agents = Ok (ovs', v', agents') \<Longrightarrow>
   \<forall>info \<in> set infos. info_ok lib info \<and> (\<exists>x. ai_ip info = show_ip lib (V4 x)) \<and> database lib agents (ai_ip info) = None \<Longrightarrow>
   distinct (map ai_ip infos) \<Longrightarrow> \<forall>ip \<in> dom agents. \<exists>x. ip = V4 x \<Longrightarrow>
   database lib agents' = database lib agents ++ map_of (map (\<lambda>info. (ai_ip info, told info)) infos) \<and>
   (\<forall>ip \<in> dom agents'. \<exists>x. ip = V4 x)"
proof (induction infos arbitrary: ovs v agents)
  case (Cons info infos)
  from Cons.prems(2) obtain x where x: "ai_ip info = show_ip lib (V4 x)" "info_ok lib info"
    "database lib agents (ai_ip info) = None" by auto
  from Cons.prems(1) obtain a ovs1 v1 where
    a: "agent_create lib info = Ok a" and
    r: "recover_agents lib infos ovs1 v1 (if agents (ag_ip a) = None then agents(ag_ip a \<mapsto> a) else agents) =
      Ok (ovs', v', agents')" by (auto simp: res_simps Let_def)
  have d: "distinct (map ao_name (ai_overlays info))" using x(2) by (simp add: info_ok_def)
  have "ag_ip a = V4 x"
    using a by (auto simp: agent_create_def x(1) Let_def clearOverlaysState_def fold_addOverlay_ip)
  moreover have none: "agents (V4 x) = None" using x(1,3) by (simp add: database_of)
  ultimately have r': "recover_agents lib infos ovs1 v1 (agents(V4 x \<mapsto> a)) = Ok (ovs', v', agents')"
    using r by simp
  have "clear_state (clear_state ao) = clear_state ao" for ao by (simp add: clear_state_def)
  then have "map clear_state (getOverlays a) = told info"
    using agent_create_fields(1) [OF a d] by (simp add: getOverlays_def told_def comp_def)
  then have db: "database lib (agents(V4 x \<mapsto> a)) = (database lib agents)(ai_ip info \<mapsto> told info)"
    by (simp add: database_upd x(1))
  have n: "ai_ip info \<notin> ai_ip ` set infos" using Cons.prems(3) by auto
  have "database lib (agents(V4 x \<mapsto> a)) (ai_ip i) = None" if "i \<in> set infos" for i
  proof -
    have "ai_ip i \<noteq> ai_ip info" using n that by (metis image_eqI)
    then show ?thesis using Cons.prems(2) that by (simp add: db)
  qed
  then have pre: "\<forall>i \<in> set infos. info_ok lib i \<and> (\<exists>x. ai_ip i = show_ip lib (V4 x)) \<and>
      database lib (agents(V4 x \<mapsto> a)) (ai_ip i) = None" using Cons.prems(2) by simp
  have dd: "distinct (map ai_ip infos)" using Cons.prems(3) by simp
  have dv: "\<forall>ip \<in> dom (agents(V4 x \<mapsto> a)). \<exists>x. ip = V4 x" using Cons.prems(4) by auto
  from Cons.IH [OF r' pre dd dv] have
    "database lib agents' = database lib (agents(V4 x \<mapsto> a)) ++ map_of (map (\<lambda>info. (ai_ip info, told info)) infos)"
    "\<forall>ip \<in> dom agents'. \<exists>x. ip = V4 x" by (rule conjunct1, rule conjunct2)
  moreover have "map_of (map (\<lambda>info. (ai_ip info, told info)) infos) (ai_ip info) = None"
    using n by (simp add: map_of_eq_None_iff image_image)
  ultimately show ?case by (auto simp: db map_add_def fun_eq_iff split: option.split)
qed simp

lemma entries_cleared: "entries \<lparr>ns_network = n, ns_agents = map clear_info (ns_agents st)\<rparr> = entries st"
proof -
  have "told (clear_info info) = told info" "ai_ip (clear_info info) = ai_ip info" for info
    by (simp_all add: told_def clear_info_def clear_state_def)
  then show ?thesis by (simp add: entries_def comp_def)
qed

lemma recovered_serves:
  assumes "blank m" "log_ok lib log" "state_ok lib log"
  shows "case recovered lib (Fetched log) m of
      Ok (m', acts) \<Rightarrow> acts = [] \<and> (live lib m' log \<or> mg_terminated m' \<and> mg_inflight m' = None) | _ \<Rightarrow> True"
proof -
  have e: "database lib Map.empty = Map.empty" by (rule ext) (simp add: database_def split: res.split)
  have ne: "entries st = Map.empty" if "ns_agents st = []" for st using that by (simp add: entries_def)
  show ?thesis
  proof (cases "ns_network log = None")
    case True
    with assms(2) have "ns_agents log = []" by (simp add: log_ok_def)
    with assms(1) True have "live lib (m\<lparr>mg_stored := Some log\<rparr>) log"
      by (auto simp: live_def blank_def log_base_def log_flying_def log_queue_def ne e waiters_ok_def)
    then show ?thesis using assms(1) True by (simp add: recovered_def blank_def)
  next
    case False
    show ?thesis
    proof (cases "recover_agents lib (ns_agents log) (mg_overlays m) (mg_vtep m) (mg_agents m)")
      case (Ok p)
      obtain ovs v agents where p: "p = (ovs, v, agents)" by (cases p)
      have "\<forall>info \<in> set (ns_agents log). info_ok lib info \<and> (\<exists>x. ai_ip info = show_ip lib (V4 x)) \<and>
          database lib (mg_agents m) (ai_ip info) = None"
        using assms by (simp add: blank_def log_ok_def state_ok_def e)
      from recover_agents_database [OF Ok [unfolded p] this] assms(1,2) have
        db: "database lib agents = entries log" "\<forall>ip \<in> dom agents. \<exists>x. ip = V4 x"
        by (simp_all add: blank_def log_ok_def e entries_def)
      have "ai_ip \<circ> clear_info = ai_ip" by (rule ext) (simp add: clear_info_def)
      with db assms(1,2) have "live lib (recovery_done log ovs v agents m) log"
        by (simp add: live_def recovery_done_def blank_def log_base_def log_flying_def log_queue_def
            entries_cleared waiters_ok_def log_ok_def count_def)
      then show ?thesis using assms(1) False Ok by (auto simp: recovered_def p blank_def)
    qed (use assms(1) False in \<open>auto simp: recovered_def blank_def demote_def\<close>)
  qed
qed

end

section \<open>Clusters\<close>

definition announced :: "action list \<Rightarrow> (ip \<times> agent_overlay_info) list" where
  "announced acts =
     concat (map (\<lambda>a. case a of Send_Update pid aos \<Rightarrow> map (Pair (up_ip pid)) aos | _ \<Rightarrow> []) acts)"

fun modifies :: "string \<Rightarrow> operation \<Rightarrow> bool" where
  "modifies s (ModifyAgent info) \<longleftrightarrow> ai_ip info = s"
| "modifies s op \<longleftrightarrow> False"

definition unwritten :: "stout \<Rightarrow> manager \<Rightarrow> net_state \<Rightarrow> ip \<Rightarrow> bool" where
  \<comment> \<open>a modification of the agent's entry is on its way to the log\<close>
  "unwritten lib m log ip \<longleftrightarrow>
     list_ex (modifies (show_ip lib ip)) (log_queue m) \<or>
     list_ex (modifies (show_ip lib ip)) (log_flying m) \<and> map_option fst (mg_inflight m) \<noteq> Some log"

fun admitted :: "net_state \<Rightarrow> event \<Rightarrow> bool" where
  \<comment> \<open>agents with IPv4 addresses, the state the log holds, and no deletions\<close>
  "admitted log (E_Register pid cfg) \<longleftrightarrow> ip_family (up_ip pid) = AF_INET"
| "admitted log (E_Fetched (Fetched st)) \<longleftrightarrow> st = log"
| "admitted log (E_Delete req) \<longleftrightarrow> False"
| "admitted log e \<longleftrightarrow> True"

fun log_after :: "manager \<Rightarrow> event \<Rightarrow> net_state \<Rightarrow> net_state" where
  "log_after m (E_Stored Store_Done) log = (case mg_inflight m of None \<Rightarrow> log | Some (st, rs) \<Rightarrow> st)"
| "log_after m e log = log"

text \<open>
  \<open>cluster lib m log A\<close>: \<open>m\<close> is the current master process, \<open>log\<close> what the replicated log holds and
  \<open>A\<close> everything announced so far, also by the processes before \<open>m\<close>. A write reaches the log
  before its success is reported, or without any report; a process may be replaced at any time.
\<close>

inductive cluster :: "stout \<Rightarrow> manager \<Rightarrow> net_state \<Rightarrow> (ip \<times> agent_overlay_info) set \<Rightarrow> bool" for lib where
  Begin: "createManagerProcess h lib junk mc = Ok m \<Longrightarrow> well_configured m \<Longrightarrow> mg_log m \<noteq> None \<Longrightarrow>
    cluster lib m empty_state {}"
| Serve: "cluster lib m log A \<Longrightarrow> step lib m e acts m' \<Longrightarrow> admitted log e \<Longrightarrow>
    list_all (\<lambda>(ip, ao). \<not> unwritten lib m log ip) (announced acts) \<Longrightarrow>
    cluster lib m' (log_after m e log) (A \<union> set (announced acts))"
| Land: "cluster lib m log A \<Longrightarrow> mg_inflight m = Some (st, rs) \<Longrightarrow> cluster lib m st A"
| Replace: "cluster lib m log A \<Longrightarrow> createManagerProcess h lib junk mc = Ok m' \<Longrightarrow> well_configured m' \<Longrightarrow>
    mg_log m' \<noteq> None \<Longrightarrow> cluster lib m' log A"

text \<open>Grants that do not get in each other's way.\<close>

definition compatible :: "stout \<Rightarrow> ip \<Rightarrow> agent_overlay_info \<Rightarrow> ip \<Rightarrow> agent_overlay_info \<Rightarrow> bool" where
  \<comment> \<open>one agent has one grant per overlay; otherwise subnets are disjoint, and VTEP addresses of
    two agents differ\<close>
  "compatible lib ip ao ip' ao' \<longleftrightarrow>
     (ip = ip' \<longrightarrow> ao_name ao = ao_name ao' \<longrightarrow> ao = ao') \<and>
     ((ip, ao_name ao) \<noteq> (ip', ao_name ao') \<longrightarrow>
        (\<forall>s s' n n'. ao_subnet ao = Some s \<longrightarrow> ao_subnet ao' = Some s' \<longrightarrow>
           network_parse lib AF_INET s = Ok n \<longrightarrow> network_parse lib AF_INET s' = Ok n' \<longrightarrow>
           addr_range n \<inter> addr_range n' = {})) \<and>
     (ip \<noteq> ip' \<longrightarrow>
        (\<forall>n n'. network_parse lib AF_INET (vtep_str (ao_backend ao)) = Ok n \<longrightarrow>
           network_parse lib AF_INET (vtep_str (ao_backend ao')) = Ok n' \<longrightarrow> naddr n \<noteq> naddr n'))"

definition spread :: "stout \<Rightarrow> (string \<rightharpoonup> agent_overlay_info list) \<Rightarrow> bool" where
  "spread lib f \<longleftrightarrow>
     (\<forall>x y l l' ao ao'. f (show_ip lib (V4 x)) = Some l \<longrightarrow> ao \<in> set l \<longrightarrow>
        f (show_ip lib (V4 y)) = Some l' \<longrightarrow> ao' \<in> set l' \<longrightarrow> compatible lib (V4 x) ao (V4 y) ao')"

lemma spread_extends: "extends f g \<Longrightarrow> spread lib g \<Longrightarrow> spread lib f"
proof -
  assume e: "extends f g" and s: "spread lib g"
  show ?thesis
    unfolding spread_def
  proof (intro allI impI)
    fix x y l l' ao ao'
    assume a: "f (show_ip lib (V4 x)) = Some l" "ao \<in> set l" "f (show_ip lib (V4 y)) = Some l'" "ao' \<in> set l'"
    from extendsD [OF e a(1)] extendsD [OF e a(3)] a(2,4) obtain k k' where
      "g (show_ip lib (V4 x)) = Some k" "ao \<in> set k" "g (show_ip lib (V4 y)) = Some k'" "ao' \<in> set k'" by blast
    with s show "compatible lib (V4 x) ao (V4 y) ao'" by (simp add: spread_def)
  qed
qed

lemma spread_empty [simp]: "spread lib Map.empty"
  by (simp add: spread_def)

context stout_lib
begin

lemma database_holds:
  assumes "createManagerProcess h lib junk mc = Ok m0" "well_configured m0" "reachable lib m0 m"
    "database lib (mg_agents m) (show_ip lib (V4 x)) = Some l" "ao \<in> set l"
  shows "\<exists>a ao0. mg_agents m (V4 x) = Some a \<and> map_of (ag_overlays a) (ao_name ao) = Some ao0 \<and> ao = clear_state ao0"
    "ao_subnet ao = Some s \<Longrightarrow> network_parse lib AF_INET s = Ok n \<Longrightarrow>
       holds_subnet lib (mg_agents m) (V4 x) (ao_name ao) n"
    "network_parse lib AF_INET (vtep_str (ao_backend ao)) = Ok n \<Longrightarrow> holds_vtep lib (mg_agents m) (V4 x) (naddr n)"
proof -
  note inv = pools_invD [OF master_invD(1) [OF reachable_inv [OF stout_lib_axioms assms(1-3)]]]
  from assms(4,5) obtain a k ao0 where a: "mg_agents m (V4 x) = Some a" "(k, ao0) \<in> set (ag_overlays a)"
    "ao = clear_state ao0" by (auto simp: database_of getOverlays_def)
  have wf: "agent_wf lib (V4 x) a" by (rule inv(4) [OF a(1)])
  then have k: "ao_name ao0 = k" "map_of (ag_overlays a) k = Some ao0"
    using a(2) by (auto simp: agent_wf_def hm_keys_def)
  from wf a(2) obtain be where be: "ag_backend a = Some be" "vtep_str (ao_backend ao0) = vtep_str be"
    unfolding agent_wf_def by blast
  show "\<exists>a ao0. mg_agents m (V4 x) = Some a \<and> map_of (ag_overlays a) (ao_name ao) = Some ao0 \<and> ao = clear_state ao0"
    using a k by auto
  show "ao_subnet ao = Some s \<Longrightarrow> network_parse lib AF_INET s = Ok n \<Longrightarrow>
      holds_subnet lib (mg_agents m) (V4 x) (ao_name ao) n"
    using a k by (auto simp: holds_subnet_def agent_subnet_def)
  show "network_parse lib AF_INET (vtep_str (ao_backend ao)) = Ok n \<Longrightarrow> holds_vtep lib (mg_agents m) (V4 x) (naddr n)"
    using a be by (auto simp: holds_vtep_def agent_vtep_def)
qed

lemma reachable_spread:
  assumes "createManagerProcess h lib junk mc = Ok m0" "well_configured m0" "reachable lib m0 m"
  shows "spread lib (database lib (mg_agents m))"
proof -
  have lib: "stout_lib lib" by (rule stout_lib_axioms)
  note inv = pools_invD [OF master_invD(1) [OF reachable_inv [OF lib assms]]]
  show ?thesis
    unfolding spread_def
  proof (intro allI impI)
    fix x y l l' ao ao'
    assume "database lib (mg_agents m) (show_ip lib (V4 x)) = Some l" "ao \<in> set l"
      "database lib (mg_agents m) (show_ip lib (V4 y)) = Some l'" "ao' \<in> set l'"
    note a = database_holds [OF assms this(1,2)] and b = database_holds [OF assms this(3,4)]
    have eq: "ao = ao'" if "V4 x = V4 y" "ao_name ao = ao_name ao'" using a(1) b(1) that by auto
    show "compatible lib (V4 x) ao (V4 y) ao'"
      unfolding compatible_def
    proof (intro conjI impI allI)
      fix s s' n n'
      assume "(V4 x, ao_name ao) \<noteq> (V4 y, ao_name ao')" "ao_subnet ao = Some s" "ao_subnet ao' = Some s'"
        "network_parse lib AF_INET s = Ok n" "network_parse lib AF_INET s' = Ok n'"
      with reachable_subnets_disjoint [OF lib assms a(2) b(2)] show "addr_range n \<inter> addr_range n' = {}" by blast
    next
      fix n n'
      assume "V4 x \<noteq> V4 y" "network_parse lib AF_INET (vtep_str (ao_backend ao)) = Ok n"
        "network_parse lib AF_INET (vtep_str (ao_backend ao')) = Ok n'"
      with inv(8) [OF a(3)] b(3) show "naddr n \<noteq> naddr n'" by metis
    qed (rule eq)
  qed
qed

end

section \<open>Everything announced is in the log\<close>

definition grants :: "stout \<Rightarrow> net_state \<Rightarrow> (ip \<times> agent_overlay_info) set" where
  "grants lib st = {(V4 x, ao) | x l ao. entries st (show_ip lib (V4 x)) = Some l \<and> ao \<in> set l}"

lemma grants_extends:
  assumes "extends (entries st) (entries st')" shows "grants lib st \<subseteq> grants lib st'"
proof
  fix p assume "p \<in> grants lib st"
  then obtain x l ao where p: "p = (V4 x, ao)" "entries st (show_ip lib (V4 x)) = Some l" "ao \<in> set l"
    by (auto simp: grants_def)
  from extendsD [OF assms p(2)] p(3) show "p \<in> grants lib st'" by (auto simp: p(1) grants_def)
qed

lemma announced_iff:
  "(ip, ao) \<in> set (announced acts) \<longleftrightarrow>
     (\<exists>pid aos. Send_Update pid aos \<in> set acts \<and> ip = up_ip pid \<and> ao \<in> set aos)"
  by (induction acts) (auto simp: announced_def split: action.splits)

lemma announced_simps [simp]:
  "announced [] = []" "announced [Log_Fetch] = []" "announced [Log_Store st] = []" "announced [Send_Ack pid] = []"
  "announced [Http x] = []"
  by (simp_all add: announced_def)

definition in_step :: "stout \<Rightarrow> manager \<Rightarrow> net_state \<Rightarrow> bool" where
  \<comment> \<open>the process has read nothing yet, or follows the log, or has given up\<close>
  "in_step lib m log \<longleftrightarrow>
     mg_terminated m \<and> mg_inflight m = None \<or> (if mg_stored m = None then blank m else live lib m log)"

lemma live_in_step: "live lib m log \<Longrightarrow> in_step lib m log"
  by (auto simp: in_step_def live_def)

context stout_lib
begin

lemma database_canonical: "s \<in> dom (database lib agents) \<Longrightarrow> \<exists>ip. s = show_ip lib ip \<and> ip \<in> dom agents"
  by (fastforce simp: database_def split: res.splits if_splits)

lemma live_log_ok:
  assumes "live lib m log" "mg_inflight m = Some (st, rs)"
  shows "log_ok lib st" "live lib m st"
proof -
  note d = liveD [OF assms(1)]
  have b: "log_base m = st" using assms(2) by (simp add: log_base_def)
  have "\<exists>x. ai_ip info = show_ip lib (V4 x)" if "info \<in> set (ns_agents st)" for info
  proof -
    from that have "ai_ip info \<in> dom (entries st)" by (auto simp: dom_entries)
    with extends_dom [OF d(6)] b have "ai_ip info \<in> dom (database lib (mg_agents m))" by blast
    from database_canonical [OF this] d(12) show ?thesis by blast
  qed
  with d(9,10) b show "log_ok lib st" by (auto simp: log_ok_def)
  have "entries st ++ changes (log_flying m) = entries st"
    using d(4) b add_idem [of "entries log" "changes (log_flying m)"] by simp
  with assms(1) b show "live lib m st" by (simp add: live_def)
qed

text \<open>The events of a process that follows the log, but for a finished write.\<close>

lemma handle_serves:
  assumes "live lib m log" "log_inv m" "master_inv lib sh m" "admitted log e" "enabled e m" "\<And>r. e \<noteq> E_Stored r"
  shows "serves lib log m (handle lib e m)"
proof (cases e)
  case (E_Register pid cfg)
  then obtain x where "up_ip pid = V4 x" using assms(4) by (cases "up_ip pid") auto
  with registerAgent_serves [OF assms(1-3)] E_Register show ?thesis by simp
next
  case (E_Registered from_pid aos)
  with agentRegistered_serves [OF assms(1-3)] show ?thesis by simp
next
  case (E_Fetched r)
  with assms(5) liveD(2) [OF assms(1)] show ?thesis by simp
next
  case E_Due
  then obtain w r due where due: "mg_due m = (w, r) # due" using assms(5) by (cases "mg_due m") auto
  have "waits lib (dom (entries (mg_state m))) w"
    using liveD(13) [OF assms(1)] due by (auto simp: waiters_ok_def)
  then obtain pid where w: "w = W_Register pid (up_ip pid)" "show_ip lib (up_ip pid) \<in> dom (entries (mg_state m))"
    by (cases w) auto
  let ?m = "m\<lparr>mg_due := due\<rparr>"
  have "waiters_ok lib ?m" using liveD(13) [OF assms(1)] by (simp add: waiters_ok_def due)
  moreover have "log_base ?m = log_base m" "log_flying ?m = log_flying m" "log_queue ?m = log_queue m"
    by (simp_all add: log_base_def log_flying_def log_queue_def split: option.split)
  ultimately have "live lib ?m log" using assms(1) by (simp add: live_def)
  then have "serves lib log ?m (register_reply pid (up_ip pid) r ?m)"
    by (rule register_reply_serves) (use w(2) in simp_all)
  then have "serves lib log m (register_reply pid (up_ip pid) r ?m)" by (rule serves_from) simp_all
  then show ?thesis by (simp add: E_Due due w(1))
next
  case E_State
  with assms(1) show ?thesis by (simp add: stateEndpoint_def)
qed (use assms(4,6) in simp_all)

lemma blank_serves:
  assumes "blank m" "\<not> mg_terminated m" "log_ok lib log" "state_ok lib log" "admitted log e" "enabled e m"
    "handle lib e m = Ok (m', acts)"
  shows "in_step lib m' log \<and> announced acts = []"
proof (cases e)
  case (E_Register pid cfg)
  with assms(1,7) show ?thesis
    by (auto simp: registerAgent_def Let_def recover_def blank_def in_step_def split: if_splits)
next
  case (E_Registered pid aos)
  with assms(1,7) show ?thesis
    by (auto simp: agentRegistered_def Let_def blank_def in_step_def res_simps)
next
  case (E_Fetched r)
  show ?thesis
  proof (cases r)
    case Fetch_Failed
    with E_Fetched assms(1,7) show ?thesis
      by (auto simp: recovered_def blank_def in_step_def demote_def)
  next
    case (Fetched st)
    with E_Fetched assms(5,7) have "recovered lib (Fetched log) m = Ok (m', acts)" by simp
    with recovered_serves [OF assms(1,3,4)] have "acts = []"
      "live lib m' log \<or> mg_terminated m' \<and> mg_inflight m' = None" by simp_all
    then show ?thesis using liveD(2) [of lib m' log] by (auto simp: in_step_def)
  qed
next
  case E_State
  with assms(1,2,7) show ?thesis by (auto simp: stateEndpoint_def in_step_def blank_def)
qed (use assms(1,5,6) in \<open>simp_all add: blank_def\<close>)

end

lemma cluster_incarnation: "cluster lib m log A \<Longrightarrow> incarnation lib m log"
proof (induction rule: cluster.induct)
  case (Begin h junk mc m)
  show ?case by (rule Start [OF Begin(1,2)])
next
  case (Serve m log A e acts m')
  have fetched: "st = log" if "e = E_Fetched (Fetched st)" for st using Serve.hyps(3) that by simp
  show ?case
  proof (cases "log_after m e log = log")
    case True
    have "incarnation lib m' log" by (rule Handle [OF Serve.IH Serve.hyps(2) fetched])
    with True show ?thesis by simp
  next
    case False
    have "e = E_Stored Store_Done" by (rule ccontr) (use False in \<open>cases "(m, e, log)" rule: log_after.cases, simp_all\<close>)
    moreover from this False obtain st rs where "mg_inflight m = Some (st, rs)" by (auto split: option.splits)
    ultimately have w: "e = E_Stored Store_Done" "mg_inflight m = Some (st, rs)" .
    have "incarnation lib m' st" by (rule Handle [OF Written [OF Serve.IH w(2)] Serve.hyps(2)]) (simp add: w(1))
    then show ?thesis by (simp add: w)
  qed
next
  case (Land m log A st rs)
  show ?case by (rule Written [OF Land.IH Land.hyps(2)])
next
  case (Replace m log A h junk mc m')
  show ?case by (rule Failover [OF Replace.IH Replace.hyps(2,3)])
qed

definition cluster_inv :: "stout \<Rightarrow> manager \<Rightarrow> net_state \<Rightarrow> (ip \<times> agent_overlay_info) set \<Rightarrow> bool" where
  "cluster_inv lib m log A \<longleftrightarrow>
     log_ok lib log \<and> spread lib (entries log) \<and> A \<subseteq> grants lib log \<and> in_step lib m log"

context stout_lib
begin

text \<open>An agent's entry that is in the state and not being modified is in the log as it is in memory.\<close>

lemma logged_entry:
  assumes "live lib m log" "show_ip lib ip \<in> dom (entries (mg_state m))" "\<not> unwritten lib m log ip"
  shows "database lib (mg_agents m) (show_ip lib ip) = entries log (show_ip lib ip)"
proof -
  let ?s = "show_ip lib ip"
  note d = liveD [OF assms(1)]
  have none: "?s \<notin> dom (changes ops)" if "ops_fit ops D" "?s \<in> D" "\<not> list_ex (modifies ?s) ops" for ops D
    using fit_modifies [OF that(1,2)] that(3) by (force simp: list_ex_iff)
  have "?s \<notin> dom (changes (log_queue m))"
    by (rule none [OF live_queue_fits [OF assms(1)]]) (use d(8) assms(2,3) in \<open>simp_all add: unwritten_def\<close>)
  then have db: "database lib (mg_agents m) ?s = entries (log_base m) ?s"
    using d(3) by (metis map_add_dom_app_simps(3))
  show ?thesis
  proof (cases "map_option fst (mg_inflight m) = Some log")
    case True
    with db show ?thesis by (auto simp: log_base_def)
  next
    case False
    have "?s \<notin> dom (changes (log_flying m))"
      by (rule none [OF _ assms(2)]) (use d(7) assms(3) False in \<open>simp_all add: unwritten_def\<close>)
    then show ?thesis using db d(4) by (metis map_add_dom_app_simps(3))
  qed
qed

lemma told_granted:
  assumes "live lib m log" "tells lib m acts"
    "list_all (\<lambda>(ip, ao). \<not> unwritten lib m log ip) (announced acts)"
  shows "set (announced acts) \<subseteq> grants lib log"
proof
  fix p assume p: "p \<in> set (announced acts)"
  then obtain pid aos ao where a: "p = (up_ip pid, ao)" "Send_Update pid aos \<in> set acts" "ao \<in> set aos"
    by (metis announced_iff surj_pair)
  from assms(2) a(2) obtain b where b: "mg_agents m (up_ip pid) = Some b"
    "aos = map clear_state (getOverlays b)" "show_ip lib (up_ip pid) \<in> dom (entries (mg_state m))"
    unfolding tells_def by blast
  from liveD(12) [OF assms(1) b(1)] obtain x where x: "up_ip pid = V4 x" by blast
  have "\<not> unwritten lib m log (up_ip pid)" using assms(3) p a(1) by (fastforce simp: list_all_iff)
  from logged_entry [OF assms(1) b(3) this] have "entries log (show_ip lib (V4 x)) = Some aos"
    using b(1,2) x by (simp add: database_of)
  with a x show "p \<in> grants lib log" by (auto simp: grants_def)
qed

lemma created_log_ok: "log_ok lib empty_state"
  by (simp add: log_ok_def empty_state_def)

text \<open>The steps of a process that follows the log keep the invariant.\<close>

lemma landed_inv:
  assumes "live lib m log" "mg_inflight m = Some (st, rs)" "spread lib (database lib (mg_agents m))" "A \<subseteq> grants lib log"
  shows "log_ok lib st \<and> spread lib (entries st) \<and> A \<subseteq> grants lib st"
proof -
  have "extends (entries log) (entries st)" "extends (entries st) (database lib (mg_agents m))"
    using liveD(5,6) [OF assms(1)] assms(2) by (simp_all add: log_base_def)
  with live_log_ok(1) [OF assms(1,2)] spread_extends [OF _ assms(3)] grants_extends assms(4) show ?thesis by blast
qed

lemma stored_inv:
  assumes "live lib m log" "enabled (E_Stored r) m" "handle lib (E_Stored r) m = Ok (m', acts)"
    "spread lib (database lib (mg_agents m))" "cluster_inv lib m log A"
  shows "cluster_inv lib m' (log_after m (E_Stored r) log) (A \<union> set (announced acts))"
proof -
  from assms(2) obtain st rs where s: "mg_inflight m = Some (st, rs)" by auto
  have h: "store_done lib r m = Ok (m', acts)" using assms(3) by simp
  have no: "announced acts = []"
    using h s by (auto simp: store_done_def store_def Let_def res_simps split: if_splits)
  show ?thesis
  proof (cases "r = Store_Done")
    case True
    with store_done_serves [OF assms(1) s] h have "in_step lib m' st" by (simp add: live_in_step)
    moreover have "A \<subseteq> grants lib log" using assms(5) by (simp add: cluster_inv_def)
    ultimately show ?thesis using landed_inv [OF assms(1) s assms(4)] no True s by (simp add: cluster_inv_def)
  next
    case False
    then have "log_after m (E_Stored r) log = log" by (cases r) simp_all
    moreover have "in_step lib m' log"
      using False h s by (auto simp: in_step_def store_done_def Let_def demote_def)
    ultimately show ?thesis using assms(5) no by (simp add: cluster_inv_def)
  qed
qed

lemma served_inv:
  assumes "live lib m log" "log_inv m" "master_inv lib sh m" "enabled e m" "handle lib e m = Ok (m', acts)"
    "admitted log e" "list_all (\<lambda>(ip, ao). \<not> unwritten lib m log ip) (announced acts)" "\<And>r. e \<noteq> E_Stored r"
    "cluster_inv lib m log A"
  shows "cluster_inv lib m' (log_after m e log) (A \<union> set (announced acts))"
proof -
  have "serves lib log m (Ok (m', acts))"
    using handle_serves [OF assms(1-3,6,4,8)] assms(5) by simp
  then have "live lib m' log" "tells lib m acts" by simp_all
  moreover from told_granted [OF assms(1) this(2) assms(7)] have "set (announced acts) \<subseteq> grants lib log" .
  moreover have "log_after m e log = log"
    using assms(8) by (cases "(m, e, log)" rule: log_after.cases) auto
  ultimately show ?thesis using assms(9) live_in_step by (simp add: cluster_inv_def)
qed

lemma blank_inv:
  assumes "blank m" "\<not> mg_terminated m" "state_ok lib log" "enabled e m" "handle lib e m = Ok (m', acts)"
    "admitted log e" "cluster_inv lib m log A"
  shows "cluster_inv lib m' (log_after m e log) (A \<union> set (announced acts))"
proof -
  have "log_after m e log = log"
    using assms(1) by (cases "(m, e, log)" rule: log_after.cases) (simp_all add: blank_def)
  with blank_serves [OF assms(1,2) _ assms(3,6,4,5)] assms(7) show ?thesis by (simp add: cluster_inv_def)
qed

lemma cluster_invariant: "cluster lib m log A \<Longrightarrow> cluster_inv lib m log A"
proof (induction rule: cluster.induct)
  case (Begin h junk mc m)
  have "entries empty_state = Map.empty" by (simp add: entries_def empty_state_def)
  with created_blank [OF Begin(1,3)] created_log_ok show ?case
    by (simp add: cluster_inv_def in_step_def blank_def)
next
  case (Serve m log A e acts m')
  have lib: "stout_lib lib" by (rule stout_lib_axioms)
  from incarnation_reachable [OF cluster_incarnation [OF Serve.hyps(1)] lib] obtain h junk mc m0 where
    c: "createManagerProcess h lib junk mc = Ok m0" "well_configured m0" "reachable lib m0 m"
    and so: "state_ok lib log" by blast
  from Serve.hyps(2) have st: "\<not> mg_terminated m" "enabled e m" "handle lib e m = Ok (m', acts)"
    by (auto elim: stepE)
  note li = reachable_log_inv [OF c(1,3) st(1)] and mi = reachable_inv [OF lib c] and sp = reachable_spread [OF c]
  from Serve.IH st(1) consider "blank m" | "live lib m log" by (auto simp: cluster_inv_def in_step_def split: if_splits)
  then show ?case
  proof cases
    case 1
    from blank_inv [OF 1 st(1) so st(2,3) Serve.hyps(3) Serve.IH] show ?thesis .
  next
    case 2
    show ?thesis
    proof (cases "\<exists>r. e = E_Stored r")
      case True
      then obtain r where r: "e = E_Stored r" by blast
      from stored_inv [OF 2 st(2,3) [unfolded r] sp Serve.IH] r show ?thesis by simp
    next
      case False
      with served_inv [OF 2 li mi st(2,3) Serve.hyps(3,4) _ Serve.IH] show ?thesis by blast
    qed
  qed
next
  case (Land m log A st rs)
  from incarnation_reachable [OF cluster_incarnation [OF Land.hyps(1)] stout_lib_axioms] obtain h junk mc m0 where
    c: "createManagerProcess h lib junk mc = Ok m0" "well_configured m0" "reachable lib m0 m" by blast
  from Land.IH Land.hyps(2) have l: "live lib m log"
    by (auto simp: cluster_inv_def in_step_def blank_def split: if_splits)
  have "A \<subseteq> grants lib log" using Land.IH by (simp add: cluster_inv_def)
  from landed_inv [OF l Land.hyps(2) reachable_spread [OF c] this] live_log_ok(2) [OF l Land.hyps(2)] show ?case
    by (simp add: cluster_inv_def live_in_step)
next
  case (Replace m log A h junk mc m')
  with created_blank [OF Replace.hyps(2,4)] show ?case by (auto simp: cluster_inv_def in_step_def blank_def)
qed

end

section \<open>Executing a cluster\<close>

fun serve_all ::
  "stout \<Rightarrow> event list \<Rightarrow> manager \<times> net_state \<times> (ip \<times> agent_overlay_info) list \<Rightarrow>
   (manager \<times> net_state \<times> (ip \<times> agent_overlay_info) list) option" where
  "serve_all lib [] s = Some s"
| "serve_all lib (e # es) (m, log, A) =
     (if mg_terminated m \<or> \<not> enabled e m \<or> \<not> admitted log e then None
      else (case handle lib e m of
              Ok (m', acts) \<Rightarrow>
                if list_all (\<lambda>(ip, ao). \<not> unwritten lib m log ip) (announced acts)
                then serve_all lib es (m', log_after m e log, A @ announced acts) else None
            | _ \<Rightarrow> None))"

lemma serve_all_cluster:
  "cluster lib m log (set A) \<Longrightarrow> serve_all lib es (m, log, A) = Some (m', log', A') \<Longrightarrow>
   cluster lib m' log' (set A')"
proof (induction es arbitrary: m log A)
  case (Cons e es)
  from Cons.prems(2) obtain m1 acts where s: "\<not> mg_terminated m" "enabled e m" "admitted log e"
    "handle lib e m = Ok (m1, acts)" "list_all (\<lambda>(ip, ao). \<not> unwritten lib m log ip) (announced acts)"
    "serve_all lib es (m1, log_after m e log, A @ announced acts) = Some (m', log', A')"
    by (auto split: if_splits res.splits)
  have "cluster lib m1 (log_after m e log) (set A \<union> set (announced acts))"
    by (rule Serve [OF Cons.prems(1) step [OF s(1,2,4)] s(3,5)])
  with Cons.IH [OF _ s(6)] show ?case by simp
qed simp

text \<open>
  Two processes over one log: the first serves an agent and is lost, the second recovers the log
  and serves both.
\<close>

definition first9 :: "event list" where
  "first9 = [register9 0x0A000001, E_Fetched (Fetched empty_state), register9 0x0A000001,
     E_Stored Store_Done, E_Due]"

definition second9 :: "net_state \<Rightarrow> event list" where
  "second9 log = [register9 0x0A000002, E_Fetched (Fetched log), register9 0x0A000002,
     E_Stored Store_Done, E_Due, register9 0x0A000001]"

definition cluster9 :: "(manager \<times> net_state \<times> (ip \<times> agent_overlay_info) list) option" where
  "cluster9 =
     (case createManagerProcess host9 ref_lib (replicate 6 0) config9 of
        Ok m0 \<Rightarrow>
          (case serve_all ref_lib first9 (m0, empty_state, []) of
             None \<Rightarrow> None
           | Some (m, log, A) \<Rightarrow> serve_all ref_lib (second9 log) (m0, log, A))
      | _ \<Rightarrow> None)"

lemma cluster9_reached:
  "case createManagerProcess host9 ref_lib (replicate 6 0) config9 of Ok m0 \<Rightarrow> mg_log m0 \<noteq> None | _ \<Rightarrow> False"
  "case cluster9 of None \<Rightarrow> False
   | Some (m, log, A) \<Rightarrow> \<not> mg_terminated m \<and> mg_stored m \<noteq> None \<and>
       map (\<lambda>(ip, ao). (ip, ao_name ao, ao_subnet ao)) A =
         [(V4 0x0A000001, ''dcos'', Some ''9.0.0.0/24''), (V4 0x0A000001, ''edge'', Some ''10.0.0.0/25''),
          (V4 0x0A000002, ''dcos'', Some ''9.0.1.0/24''), (V4 0x0A000002, ''edge'', Some ''10.0.0.128/25''),
          (V4 0x0A000001, ''dcos'', Some ''9.0.0.0/24''), (V4 0x0A000001, ''edge'', Some ''10.0.0.0/25'')]"
  by code_simp+

lemma cluster9_cluster:
  assumes "cluster9 = Some (m, log, A)" shows "cluster ref_lib m log (set A)"
proof -
  from cluster9_reached(1) obtain m0 where c: "createManagerProcess host9 ref_lib (replicate 6 0) config9 = Ok m0"
    "mg_log m0 \<noteq> None" by (auto split: res.splits)
  from assms c(1) obtain m1 log1 A1 where r:
    "serve_all ref_lib first9 (m0, empty_state, []) = Some (m1, log1, A1)"
    "serve_all ref_lib (second9 log1) (m0, log1, A1) = Some (m, log, A)"
    by (cases "serve_all ref_lib first9 (m0, empty_state, [])") (auto simp: cluster9_def)
  have "cluster ref_lib m0 empty_state (set [])"
    using Begin [OF c(1) well_configured9 [OF c(1)] c(2)] by simp
  from serve_all_cluster [OF this r(1)] have "cluster ref_lib m1 log1 (set A1)" .
  from Replace [OF this c(1) well_configured9 [OF c(1)] c(2)] have "cluster ref_lib m0 log1 (set A1)" .
  from serve_all_cluster [OF this r(2)] show ?thesis .
qed

section \<open>Properties\<close>

text \<open>
  C5: Nothing announced is ever lost or contradicted: whatever master processes follow each other
  over one log, everything any of them has told an agent is in the log, an agent is never told two
  different things about one overlay, the subnets told to different agents or for different
  overlays are disjoint, and the VTEP addresses told to different agents differ. Assumed is
  that no agent is deleted and none is answered while a modification of its entry is unwritten.
\<close>

theorem announcements_durable:
  assumes "stout_lib lib" "cluster lib m log A"
  shows "A \<subseteq> grants lib log \<and> (\<forall>(ip, ao) \<in> A. \<forall>(ip', ao') \<in> A. compatible lib ip ao ip' ao')"
proof -
  from stout_lib.cluster_invariant [OF assms] have i: "spread lib (entries log)" "A \<subseteq> grants lib log"
    by (simp_all add: cluster_inv_def)
  have "compatible lib ip ao ip' ao'" if "(ip, ao) \<in> grants lib log" "(ip', ao') \<in> grants lib log" for ip ip' ao ao'
    using that i(1) by (auto simp: grants_def spread_def)
  with i(2) show ?thesis by blast
qed


text \<open>
  A master configured for one overlay only, and what a process with \<open>config9\<close> does with its log.
\<close>

definition small9 :: master_config where
  "small9 = config9\<lparr>mc_network := (mc_network config9)\<lparr>nc_overlays :=
     [(empty_overlay_info ''dcos'')\<lparr>oi_subnet := Some ''9.0.0.0/22'', oi_prefix := Some 24\<rparr>]\<rparr>\<rparr>"

definition told_by :: "master_config \<Rightarrow> event list \<Rightarrow> (net_state option \<times> (ip \<times> string \<times> string option) list) option" where
  \<comment> \<open>the last state written, and what was announced\<close>
  "told_by mc es =
     (case createManagerProcess host9 ref_lib (replicate 6 0) mc of
        Ok m0 \<Rightarrow> map_option (\<lambda>(m, tr). (mg_stored m,
            concat (map (\<lambda>(e, acts). map (\<lambda>(ip, ao). (ip, ao_name ao, ao_subnet ao)) (announced acts)) tr)))
          (exec ref_lib es m0)
      | _ \<Rightarrow> None)"


text \<open>
  Nor is an operation that fails reported as failed: the entry of an agent with an IPv6 address
  cannot be added to the state, but the agent is told its overlays, which no log holds.
\<close>

definition pid6 :: upid where
  "pid6 = \<lparr>up_id = ''overlay-agent'', up_ip = V6 (replicate 15 0 @ [1])\<rparr>"

lemma failed_operation_announced:
  "case told_by config9 [E_Register pid6 default_network_config, E_Fetched (Fetched empty_state),
       E_Register pid6 default_network_config, E_Stored Store_Done, E_Due] of
     Some (Some log, sent) \<Rightarrow>
       ns_agents log = [] \<and>
       sent = [(up_ip pid6, ''dcos'', Some ''9.0.0.0/24''), (up_ip pid6, ''edge'', Some ''10.0.0.0/25'')]
   | _ \<Rightarrow> False"
  by code_simp

theorem announcements_durable_witness:
  "\<exists>m log A ao. cluster ref_lib m log A \<and> (V4 0x0A000001, ao) \<in> A \<and> ao_subnet ao = Some ''9.0.0.0/24'' \<and>
     (V4 0x0A000001, ao) \<in> grants ref_lib log"
proof -
  from cluster9_reached(2) obtain m log A where r: "cluster9 = Some (m, log, A)"
    "map (\<lambda>(ip, ao). (ip, ao_name ao, ao_subnet ao)) A =
         [(V4 0x0A000001, ''dcos'', Some ''9.0.0.0/24''), (V4 0x0A000001, ''edge'', Some ''10.0.0.0/25''),
          (V4 0x0A000002, ''dcos'', Some ''9.0.1.0/24''), (V4 0x0A000002, ''edge'', Some ''10.0.0.128/25''),
          (V4 0x0A000001, ''dcos'', Some ''9.0.0.0/24''), (V4 0x0A000001, ''edge'', Some ''10.0.0.0/25'')]"
    by (auto split: option.splits)
  note c = cluster9_cluster [OF r(1)]
  from r(2) obtain ao where ao: "(V4 0x0A000001, ao) \<in> set A" "ao_subnet ao = Some ''9.0.0.0/24''"
    by (cases A) auto
  from announcements_durable [OF ref.stout_lib_axioms c] ao(1) have "(V4 0x0A000001, ao) \<in> grants ref_lib log" by blast
  with c ao show ?thesis by blast
qed

end
