(* ===== verification/Counters.thy ===== *)
theory Counters
  imports Supervisor
begin

text \<open>
  The counters of the overlay modules: the names under which \<open>master_metrics.cpp\<close>,
  \<open>agent_metrics.cpp\<close> and \<open>supervisor_metrics.cpp\<close> register them with libprocess, and when this
  happens. A name can be registered once only; libprocess refuses a second registration and the
  removal of a name it does not have, and the code ignores both. What is modelled are the calls the
  code makes; that none is refused is the property: also across the restarts of the master process,
  whose counters have the same names each time.
\<close>

section \<open>The calls of the constructors and destructors\<close>

datatype metric_call = Metric_Add string | Metric_Remove string

datatype master_metric =
    M_recovering
  | M_ip_allocation_failures | M_ip6_allocation_failures
  | M_subnet_allocation_failures | M_subnet6_allocation_failures | M_bridge_allocation_failures
  | M_register_agent_messages_received | M_register_agent_messages_dropped
  | M_update_agent_overlays_messages_sent
  | M_agent_registered_messages_received | M_agent_registered_messages_dropped
  | M_agent_registered_acknowledgements_sent

fun master_metric_name :: "master_metric \<Rightarrow> string" where
  "master_metric_name M_recovering = ''overlay/master/recovering''"
| "master_metric_name M_ip_allocation_failures = ''overlay/master/ip_allocation_failures''"
| "master_metric_name M_ip6_allocation_failures = ''overlay/master/ip6_allocation_failures''"
| "master_metric_name M_subnet_allocation_failures = ''overlay/master/subnet_allocation_failures''"
| "master_metric_name M_subnet6_allocation_failures = ''overlay/master/subnet6_allocation_failures''"
| "master_metric_name M_bridge_allocation_failures = ''overlay/master/bridge_allocation_failures''"
| "master_metric_name M_register_agent_messages_received =
     ''overlay/master/internal/register_agent_messages_received''"
| "master_metric_name M_register_agent_messages_dropped =
     ''overlay/master/internal/register_agent_messages_dropped''"
| "master_metric_name M_update_agent_overlays_messages_sent =
     ''overlay/master/internal/update_agent_overlays_messages_sent''"
| "master_metric_name M_agent_registered_messages_received =
     ''overlay/master/internal/agent_registered_messages_received''"
| "master_metric_name M_agent_registered_messages_dropped =
     ''overlay/master/internal/agent_registered_messages_dropped''"
| "master_metric_name M_agent_registered_acknowledgements_sent =
     ''overlay/master/internal/agent_registered_acknowledgements_sent''"

definition master_metrics_new :: "metric_call list" where
  "master_metrics_new = map (Metric_Add \<circ> master_metric_name)
     [M_recovering,
      M_ip_allocation_failures, M_ip6_allocation_failures, M_subnet_allocation_failures,
      M_subnet6_allocation_failures, M_bridge_allocation_failures,
      M_register_agent_messages_received, M_register_agent_messages_dropped,
      M_update_agent_overlays_messages_sent, M_agent_registered_messages_received,
      M_agent_registered_messages_dropped, M_agent_registered_acknowledgements_sent]"

definition master_metrics_delete :: "metric_call list" where
  "master_metrics_delete = map (Metric_Remove \<circ> master_metric_name)
     [M_recovering,
      M_ip_allocation_failures, M_ip6_allocation_failures, M_subnet_allocation_failures,
      M_subnet6_allocation_failures, M_bridge_allocation_failures,
      M_register_agent_messages_received, M_register_agent_messages_dropped,
      M_update_agent_overlays_messages_sent, M_agent_registered_messages_received,
      M_agent_registered_messages_dropped, M_agent_registered_acknowledgements_sent]"

datatype agent_metric =
    A_registering
  | A_overlay_config_failed | A_overlay_config_failures | A_overlays_without_subnets | A_docker_cmd_failures
  | A_register_agent_messages_sent
  | A_update_agent_overlays_messages_received | A_update_agent_overlays_messages_dropped
  | A_agent_registered_messages_sent | A_agent_registered_messages_dropped
  | A_agent_registered_acknowledgements_received | A_agent_registered_acknowledgements_dropped

fun agent_metric_name :: "agent_metric \<Rightarrow> string" where
  "agent_metric_name A_registering = ''overlay/slave/registering''"
| "agent_metric_name A_overlay_config_failed = ''overlay/slave/overlay_config_failed''"
| "agent_metric_name A_overlay_config_failures = ''overlay/slave/overlay_config_failures''"
| "agent_metric_name A_overlays_without_subnets = ''overlay/slave/overlays_without_subnets''"
| "agent_metric_name A_docker_cmd_failures = ''overlay/slave/docker_cmd_failures''"
| "agent_metric_name A_register_agent_messages_sent = ''overlay/slave/internal/register_agent_messages_sent''"
| "agent_metric_name A_update_agent_overlays_messages_received =
     ''overlay/slave/internal/update_agent_overlays_messages_received''"
| "agent_metric_name A_update_agent_overlays_messages_dropped =
     ''overlay/slave/internal/update_agent_overlays_messages_dropped''"
| "agent_metric_name A_agent_registered_messages_sent = ''overlay/slave/internal/agent_registered_messages_sent''"
| "agent_metric_name A_agent_registered_messages_dropped =
     ''overlay/slave/internal/agent_registered_messages_dropped''"
| "agent_metric_name A_agent_registered_acknowledgements_received =
     ''overlay/slave/internal/agent_registered_acknowledgements_received''"
| "agent_metric_name A_agent_registered_acknowledgements_dropped =
     ''overlay/slave/internal/agent_registered_acknowledgements_dropped''"

definition agent_metrics_new :: "metric_call list" where
  "agent_metrics_new = map (Metric_Add \<circ> agent_metric_name)
     [A_registering,
      A_overlay_config_failed, A_overlay_config_failures, A_overlays_without_subnets, A_docker_cmd_failures,
      A_register_agent_messages_sent, A_update_agent_overlays_messages_received,
      A_update_agent_overlays_messages_dropped, A_agent_registered_messages_sent,
      A_agent_registered_messages_dropped, A_agent_registered_acknowledgements_received,
      A_agent_registered_acknowledgements_dropped]"

definition agent_metrics_delete :: "metric_call list" where
  "agent_metrics_delete = map (Metric_Remove \<circ> agent_metric_name)
     [A_registering,
      A_overlay_config_failed, A_overlay_config_failures, A_overlays_without_subnets, A_docker_cmd_failures,
      A_register_agent_messages_sent, A_update_agent_overlays_messages_received,
      A_update_agent_overlays_messages_dropped, A_agent_registered_messages_sent,
      A_agent_registered_messages_dropped, A_agent_registered_acknowledgements_received,
      A_agent_registered_acknowledgements_dropped]"

definition process_restarts_name :: string where
  "process_restarts_name = ''overlay/master/process_restarts''"

definition supervisor_metrics_new :: "metric_call list" where
  "supervisor_metrics_new = [Metric_Add process_restarts_name]"

definition supervisor_metrics_delete :: "metric_call list" where
  "supervisor_metrics_delete = [Metric_Remove process_restarts_name]"

section \<open>The calls of a supervised master\<close>

text \<open>
  A master process has its counters from its construction to its destruction: it is constructed by
  the function the supervisor calls and destroyed when the supervisor resets its pointer. The
  supervisor's own counter is a member of it.
\<close>

definition reset_calls :: "supervisor \<Rightarrow> metric_call list" where
  "reset_calls s = (case sv_process s of None \<Rightarrow> [] | Some p \<Rightarrow> master_metrics_delete)"

fun handle_calls :: "sv_event \<Rightarrow> supervisor \<Rightarrow> metric_call list" where
  "handle_calls (S_Child q) s = []"
| "handle_calls (S_Initialize result) s =
     (case (sv_process s, result) of (None, Inr p) \<Rightarrow> master_metrics_new | _ \<Rightarrow> [])"
| "handle_calls S_Exited s = (if sv_state s \<noteq> TERMINATING then reset_calls s else [])"

inductive counted :: "supervisor \<Rightarrow> metric_call list \<Rightarrow> bool" where
  Created: "supervisor_create (Inr p) = Inr s \<Longrightarrow> counted s (master_metrics_new @ supervisor_metrics_new)"
| Handled: "counted s calls \<Longrightarrow> sv_enabled e s \<Longrightarrow> sv_handle e s = (s', acts) \<Longrightarrow>
    counted s' (calls @ handle_calls e s)"

definition destroy_calls :: "supervisor \<Rightarrow> metric_call list" where
  "destroy_calls s = reset_calls s @ supervisor_metrics_delete"

section \<open>Which names are registered\<close>

fun registered :: "metric_call list \<Rightarrow> string list \<Rightarrow> string list option" where
  \<comment> \<open>the names left, or \<open>None\<close> if a call is refused\<close>
  "registered [] ns = Some ns"
| "registered (Metric_Add n # calls) ns = (if n \<in> set ns then None else registered calls (ns @ [n]))"
| "registered (Metric_Remove n # calls) ns = (if n \<in> set ns then registered calls (removeAll n ns) else None)"

lemma registered_append:
  "registered (xs @ ys) ns = (case registered xs ns of None \<Rightarrow> None | Some ns' \<Rightarrow> registered ys ns')"
  by (induction xs ns rule: registered.induct) auto

definition master_names :: "string list" where
  "master_names = map (\<lambda>c. case c of Metric_Add n \<Rightarrow> n | Metric_Remove n \<Rightarrow> n) master_metrics_new"

text \<open>The constructor's calls, made when the names are free, and the destructor's, when they are not.\<close>

lemma master_new_registered:
  "registered master_metrics_new [] = Some master_names"
  "registered master_metrics_new [process_restarts_name] = Some (process_restarts_name # master_names)"
  by code_simp+

lemma supervisor_new_registered:
  "registered supervisor_metrics_new master_names = Some (master_names @ [process_restarts_name])"
  by code_simp

lemma master_delete_registered:
  "registered master_metrics_delete (master_names @ [process_restarts_name]) = Some [process_restarts_name]"
  "registered master_metrics_delete (process_restarts_name # master_names) = Some [process_restarts_name]"
  by code_simp+

lemma supervisor_delete_registered: "registered supervisor_metrics_delete [process_restarts_name] = Some []"
  by code_simp

definition names_ok :: "supervisor \<Rightarrow> string list \<Rightarrow> bool" where
  "names_ok s ns \<longleftrightarrow>
     (if sv_process s = None then ns = [process_restarts_name]
      else ns = master_names @ [process_restarts_name] \<or> ns = process_restarts_name # master_names)"

lemma handled_names:
  assumes "names_ok s ns" "sv_handle e s = (s', acts)"
  shows "\<exists>ns'. registered (handle_calls e s) ns = Some ns' \<and> names_ok s' ns'"
proof (cases e)
  case (S_Child q)
  with assms show ?thesis by (auto simp: names_ok_def child_def split: option.splits if_splits)
next
  case (S_Initialize result)
  show ?thesis
  proof (cases "sv_process s")
    case None
    with S_Initialize assms master_new_registered(2) show ?thesis
      by (cases result) (auto simp: names_ok_def sv_initialize_def spawn_child_def Let_def)
  next
    case (Some p)
    with S_Initialize assms show ?thesis
      by (auto simp: names_ok_def sv_initialize_def spawn_child_def Let_def)
  qed
next
  case S_Exited
  with assms master_delete_registered show ?thesis
    by (auto simp: names_ok_def sv_exited_def reset_calls_def split: if_splits option.splits)
qed

lemma counted_names: "counted s calls \<Longrightarrow> \<exists>ns. registered calls [] = Some ns \<and> names_ok s ns"
proof (induction rule: counted.induct)
  case (Created p s)
  then have "sv_process s = Some p" by (auto simp: supervisor_create_def)
  then show ?case
    by (simp add: registered_append master_new_registered supervisor_new_registered names_ok_def)
next
  case (Handled s calls e s' acts)
  then obtain ns where "registered calls [] = Some ns" "names_ok s ns" by blast
  with handled_names [OF _ Handled.hyps(3)] show ?case by (simp add: registered_append)
qed

lemma destroyed_names: "names_ok s ns \<Longrightarrow> registered (destroy_calls s) ns = Some []"
  using master_delete_registered supervisor_delete_registered
  by (auto simp: names_ok_def destroy_calls_def reset_calls_def registered_append split: if_splits option.splits)

section \<open>Property\<close>

text \<open>
  C26: No registration of a counter is ever refused and none is left behind: through any number of
  exits and restarts of the master process, its counters are registered exactly while it exists and
  the supervisor's all the time; destroying the supervisor removes them all. The agent's
  counters, too, are registered under distinct names and all removed.
\<close>

theorem counters_registered:
  assumes "counted s calls"
  shows "(\<exists>ns. registered calls [] = Some ns \<and>
      set ns = {process_restarts_name} \<union> (if sv_process s = None then {} else range master_metric_name) \<and>
      registered (calls @ destroy_calls s) [] = Some []) \<and>
    registered (agent_metrics_new @ agent_metrics_delete) [] = Some []"
proof -
  from counted_names [OF assms] obtain ns where ns: "registered calls [] = Some ns" "names_ok s ns" by blast
  have "range master_metric_name = set master_names"
  proof
    have "master_metric_name x \<in> set master_names" for x
      by (cases x) (simp_all add: master_names_def master_metrics_new_def)
    then show "range master_metric_name \<subseteq> set master_names" by blast
    show "set master_names \<subseteq> range master_metric_name"
      by (auto simp: master_names_def master_metrics_new_def simp del: master_metric_name.simps)
  qed
  then have "set ns = {process_restarts_name} \<union> (if sv_process s = None then {} else range master_metric_name)"
    using ns(2) by (auto simp: names_ok_def split: if_splits)
  moreover have "registered (agent_metrics_new @ agent_metrics_delete) [] = Some []" by code_simp
  ultimately show ?thesis using ns destroyed_names [OF ns(2)] by (simp add: registered_append)
qed

definition supervisor9 :: supervisor where
  "supervisor9 = \<lparr>sv_process = Some 0, sv_promises = [], sv_state = UNSPAWNED, sv_restarts = 0,
     sv_starts = 0, sv_alive = None, sv_calls = 1\<rparr>"

theorem counters_registered_witness:
  "\<exists>s calls. counted s calls \<and> sv_process s = None \<and> registered calls [] = Some [process_restarts_name]"
proof -
  have "counted supervisor9 (master_metrics_new @ supervisor_metrics_new)"
    by (rule Created [where p = 0]) (simp add: supervisor_create_def supervisor9_def)
  from Handled [OF this, of "S_Initialize (Inr 0)"]
  obtain s1 where s1: "s1 = fst (sv_handle (S_Initialize (Inr 0)) supervisor9)" and
    c1: "counted s1 ((master_metrics_new @ supervisor_metrics_new) @ handle_calls (S_Initialize (Inr 0)) supervisor9)"
    by (cases "sv_handle (S_Initialize (Inr 0)) supervisor9") (auto simp: supervisor9_def)
  have a1: "sv_alive s1 = Some 0" "sv_state s1 = SPAWNED"
    by (simp_all add: s1 supervisor9_def sv_initialize_def spawn_child_def Let_def)
  obtain s2 acts where h: "sv_handle S_Exited s1 = (s2, acts)" by (cases "sv_handle S_Exited s1")
  from Handled [OF c1 _ h] a1 obtain calls where c2: "counted s2 calls" by auto
  have p: "sv_process s2 = None" using h a1 by (auto simp: sv_exited_def)
  from counted_names [OF c2] p have n: "registered calls [] = Some [process_restarts_name]"
    by (auto simp: names_ok_def)
  from counters_registered [OF c2] c2 p n show ?thesis by blast
qed

end
