(* ===== verification/JournaldLogger.thy ===== *)
theory JournaldLogger
  imports Stout CommandRunner
begin

text \<open>
  The companion process of the container logger, \<open>mesos-journald-logger\<close> (\<open>journald/journald.cpp\<close>,
  \<open>journald/journald.hpp\<close>): it reads the output of a container from its standard input and passes it
  on to journald, to log files that \<open>logrotate\<close> rotates, or to Fluent Bit. The model is of the Linux
  build; where the sources differ for other systems a flag says which.
\<close>

section \<open>Flags\<close>

record label =
  lb_key :: string
  lb_value :: string

record logger_flags =
  lf_destination :: string
  lf_labels :: "label list"                \<comment> \<open>\<open>parsed_labels\<close>\<close>
  lf_max_size :: u64
  lf_options :: "string option"
  lf_filename :: "string option"
  lf_logrotate :: string
  lf_user :: "string option"
  lf_fluentbit_ip :: "ip option"
  lf_fluentbit_port :: int

text \<open>The validators; the error messages are given by the name of the flag.\<close>

definition valid_destination :: "string \<Rightarrow> bool" where
  "valid_destination v \<longleftrightarrow>
     v \<in> {''logrotate'', ''fluentbit'', ''journald'', ''journald+logrotate'', ''fluentbit+logrotate''}"

definition valid_max_size :: "u64 \<Rightarrow> u64 \<Rightarrow> bool" where
  "valid_max_size page v \<longleftrightarrow> \<not> v < page"

definition valid_filename :: "(string \<Rightarrow> bool) \<Rightarrow> string option \<Rightarrow> bool" where
  \<comment> \<open>the first argument is \<open>path::absolute\<close>\<close>
  "valid_filename absolute v = (case v of None \<Rightarrow> False | Some f \<Rightarrow> absolute f)"

definition valid_logrotate :: "(string \<Rightarrow> bool) \<Rightarrow> string \<Rightarrow> bool" where
  \<comment> \<open>the first argument says whether a shell command succeeds\<close>
  "valid_logrotate runs v = runs (v @ '' --help > /dev/null'')"

definition valid_fluentbit_ip :: "ip option \<Rightarrow> bool" where
  "valid_fluentbit_ip v \<longleftrightarrow> v \<noteq> None"

definition parse_labels :: "(string \<Rightarrow> label list option) \<Rightarrow> string option \<Rightarrow> label list option" where
  \<comment> \<open>the validator of \<open>journald_labels\<close>, over the JSON and protobuf parsers: what it leaves in
      \<open>parsed_labels\<close>, or \<open>None\<close> for an error\<close>
  "parse_labels parse v = (case v of None \<Rightarrow> Some [] | Some s \<Rightarrow> parse s)"

definition flags_valid :: "u64 \<Rightarrow> (string \<Rightarrow> bool) \<Rightarrow> (string \<Rightarrow> bool) \<Rightarrow> logger_flags \<Rightarrow> bool" where
  "flags_valid page absolute runs fl \<longleftrightarrow>
     valid_destination (lf_destination fl) \<and> valid_max_size page (lf_max_size fl) \<and>
     valid_filename absolute (lf_filename fl) \<and> valid_logrotate runs (lf_logrotate fl) \<and>
     valid_fluentbit_ip (lf_fluentbit_ip fl)"

definition to_journald :: "logger_flags \<Rightarrow> bool" where
  "to_journald fl \<longleftrightarrow> lf_destination fl = ''journald'' \<or> lf_destination fl = ''journald+logrotate''"

definition to_files :: "logger_flags \<Rightarrow> bool" where
  "to_files fl \<longleftrightarrow> lf_destination fl = ''logrotate'' \<or> lf_destination fl = ''journald+logrotate'' \<or>
     lf_destination fl = ''fluentbit+logrotate''"

definition to_fluentbit :: "logger_flags \<Rightarrow> bool" where
  "to_fluentbit fl \<longleftrightarrow> lf_destination fl = ''fluentbit'' \<or> lf_destination fl = ''fluentbit+logrotate''"

section \<open>State\<close>

text \<open>
  What the process uses of the system each time it handles a chunk of input: whether the log file
  can be opened, a socket created and connected, and a line written to the socket (\<open>Some\<close> message
  if not). Failures of journald, of \<open>logrotate\<close> and of writes to the log file are ignored by the code.
\<close>

record logger_env =
  le_open :: "string option"
  le_socket :: "string option"
  le_connect :: "string option"
  le_write :: "string \<Rightarrow> string option"

record logger_lib =
  ll_upper :: "string \<Rightarrow> string"
  ll_basename :: "string \<Rightarrow> string"
  ll_dirname :: "string \<Rightarrow> string"
  ll_show :: "int \<Rightarrow> string"
  ll_lines :: "string \<Rightarrow> string list"          \<comment> \<open>\<open>strings::split\<close> at newlines\<close>

datatype socket = No_Socket | Bad_Socket | Connected   \<comment> \<open>\<open>Option<Try<int_fd>>\<close>\<close>

record logger =
  lg_flags :: logger_flags
  lg_config :: "string option"              \<comment> \<open>\<open>configPath\<close>\<close>
  lg_leading :: bool                        \<comment> \<open>is the leading log file open\<close>
  lg_bytes :: u64
  lg_socket :: socket
  lg_object :: "(string \<times> string) list"     \<comment> \<open>\<open>fluentbit_object\<close>\<close>
  lg_entries :: "string list"               \<comment> \<open>the labels as journald entries\<close>
  lg_done :: "unit future option"           \<comment> \<open>\<open>promise\<close>\<close>

datatype sink_action =
    Journal "string list"
  | Rotate string
  | Open_File string
  | Append string
  | Close_File
  | Send_Line "(string \<times> string) list"
  | Open_Socket
  | Close_Socket
  | Close_Config

definition LOGROTATE_STATE_SUFFIX :: string where "LOGROTATE_STATE_SUFFIX = ''.logrotate.state''"

definition LOGROTATE_CONF_SUFFIX :: string where "LOGROTATE_CONF_SUFFIX = ''.logrotate.conf''"

definition newline :: char where "newline = CHR 0x0A"

definition dquote :: char where "dquote = CHR 0x22"

section \<open>Creation\<close>

definition logrotate_config :: "logger_lib \<Rightarrow> u64 \<Rightarrow> string \<Rightarrow> logger_flags \<Rightarrow> string" where
  "logrotate_config ll page filename fl =
     [dquote] @ ll_basename ll filename @ [dquote] @ '' {'' @ [newline] @
     (case lf_options fl of None \<Rightarrow> '''' | Some opts \<Rightarrow> opts) @ [newline] @
     ''size '' @ ll_show ll (uint (lf_max_size fl - page)) @ [newline] @ ''}''"

definition logger_new :: "logger_flags \<Rightarrow> string option \<Rightarrow> logger" where
  "logger_new fl config =
     \<lparr>lg_flags = fl, lg_config = config, lg_leading = False, lg_bytes = 0, lg_socket = No_Socket,
      lg_object = [], lg_entries = [], lg_done = None\<rparr>"

text \<open>
  Creating, writing and protecting the configuration file: off Linux it is one call of \<open>os::write\<close>,
  on Linux the three calls on an anonymous file, whose descriptor names it afterwards.
\<close>

datatype config_file = Anonymous "string + nat" "string option" "string option" | Plain "string option"

definition config_path :: "logger_lib \<Rightarrow> nat \<Rightarrow> string" where
  "config_path ll fd = ''/proc/self/fd/'' @ ll_show ll (int fd)"

definition logger_create ::
  "logger_lib \<Rightarrow> (string \<Rightarrow> config_file) \<Rightarrow> u64 \<Rightarrow> logger_flags \<Rightarrow> (string \<times> sink_action list + logger) res" where
  \<comment> \<open>the second argument is what becomes of a configuration file with the given contents; an error
      comes with what was closed\<close>
  "logger_create ll file page fl =
     (if to_files fl then
        (case lf_filename fl of
           None \<Rightarrow> Crash Option_None
         | Some filename \<Rightarrow>
             (case file (logrotate_config ll page filename fl) of
                Anonymous (Inl e) _ _ \<Rightarrow> Ok (Inl (''Failed to create memfd file '' @ quoted filename @ '': '' @ e, []))
              | Anonymous (Inr fd) (Some e) _ \<Rightarrow>
                  Ok (Inl (''Failed to write memfd file '' @ quoted filename @ '': '' @ e, [Close_Config]))
              | Anonymous (Inr fd) None (Some e) \<Rightarrow>
                  Ok (Inl (''Failed to chmod memfd file '' @ quoted filename @ '': '' @ e, [Close_Config]))
              | Anonymous (Inr fd) None None \<Rightarrow> Ok (Inr (logger_new fl (Some (config_path ll fd))))
              | Plain (Some e) \<Rightarrow> Ok (Inl (''Failed to write configuration file: '' @ e, []))
              | Plain None \<Rightarrow> Ok (Inr (logger_new fl None))))
      else Ok (Inr (logger_new fl None)))"

definition label_entry :: "logger_lib \<Rightarrow> label \<Rightarrow> string" where
  "label_entry ll lb = ll_upper ll (lb_key lb) @ ''='' @ lb_value lb"

definition prepare_labels :: "logger_lib \<Rightarrow> logger \<Rightarrow> logger" where
  \<comment> \<open>the first part of \<open>run\<close>\<close>
  "prepare_labels ll lg =
     lg\<lparr>lg_object := fold (\<lambda>lb m. hm_put m (ll_upper ll (lb_key lb)) (lb_value lb)) (lf_labels (lg_flags lg)) (lg_object lg),
        lg_entries := map (label_entry ll) (lf_labels (lg_flags lg))\<rparr>"

section \<open>The sinks\<close>

definition message_lines :: "logger_lib \<Rightarrow> string \<Rightarrow> string list" where
  "message_lines ll logs = filter (\<lambda>line. line \<noteq> []) (ll_lines ll logs)"

definition write_journald :: "logger_lib \<Rightarrow> string \<Rightarrow> logger \<Rightarrow> sink_action list" where
  "write_journald ll logs lg =
     map (\<lambda>line. Journal (lg_entries lg @ [''MESSAGE='' @ line])) (message_lines ll logs)"

definition rotate :: "logger_lib \<Rightarrow> logger \<Rightarrow> (logger \<times> sink_action list) res" where
  "rotate ll lg =
     (case lg_config lg of
        None \<Rightarrow> Crash Option_None
      | Some config \<Rightarrow>
          (case lf_filename (lg_flags lg) of
             None \<Rightarrow> Crash Option_None
           | Some filename \<Rightarrow>
               Ok (lg\<lparr>lg_leading := False, lg_bytes := 0\<rparr>,
                   (if lg_leading lg then [Close_File] else []) @
                   [Rotate (lf_logrotate (lg_flags lg) @ '' --state '' @ [dquote] @ ll_basename ll filename @
                      LOGROTATE_STATE_SUFFIX @ [dquote] @ '' '' @ [dquote] @ config @ [dquote])])))"

definition open_leading ::
  "logger_lib \<Rightarrow> logger_env \<Rightarrow> logger \<Rightarrow> (logger \<times> sink_action list \<times> string option) res" where
  \<comment> \<open>the last component is the error, if any\<close>
  "open_leading ll le lg =
     (if lg_leading lg then Ok (lg, [], None)
      else
        (case lf_filename (lg_flags lg) of
           None \<Rightarrow> Crash Option_None
         | Some filename \<Rightarrow>
             (case le_open le of
                Some e \<Rightarrow> Ok (lg, [], Some (''Failed to open '' @ quoted (ll_basename ll filename) @ '': '' @ e))
              | None \<Rightarrow> Ok (lg\<lparr>lg_leading := True\<rparr>, [Open_File (ll_basename ll filename)], None))))"

definition append_leading ::
  "string \<Rightarrow> logger \<times> sink_action list \<times> string option \<Rightarrow> logger \<times> sink_action list \<times> string option" where
  "append_leading logs x =
     (case x of (lg, acts, err) \<Rightarrow>
        (case err of
           Some e \<Rightarrow> (lg, acts, Some e)
         | None \<Rightarrow> (lg\<lparr>lg_bytes := lg_bytes lg + of_nat (length logs)\<rparr>, acts @ [Append logs], None)))"

definition write_logrotate ::
  "logger_lib \<Rightarrow> logger_env \<Rightarrow> string \<Rightarrow> logger \<Rightarrow> (logger \<times> sink_action list \<times> string option) res" where
  "write_logrotate ll le logs lg =
     bind_res
       (if lg_bytes lg + of_nat (length logs) > lf_max_size (lg_flags lg) then rotate ll lg else Ok (lg, []))
       (\<lambda>(lg1, acts1).
     bind_res (open_leading ll le lg1) (\<lambda>opened.
       case append_leading logs opened of
         (lg2, acts2, err) \<Rightarrow> Ok (lg2, acts1 @ acts2, err)))"

fun send_lines :: "logger_env \<Rightarrow> string list \<Rightarrow> logger \<Rightarrow> logger \<times> sink_action list" where
  "send_lines le [] lg = (lg, [])"
| "send_lines le (line # lines) lg =
     (let lg1 = lg\<lparr>lg_object := hm_put (lg_object lg) ''line'' line\<rparr> in
      case le_write le line of
        Some e \<Rightarrow> (lg1\<lparr>lg_socket := No_Socket\<rparr>, [Close_Socket])
      | None \<Rightarrow>
          (case send_lines le lines lg1 of (lg2, acts) \<Rightarrow> (lg2, Send_Line (lg_object lg1) # acts)))"

definition write_fluentbit ::
  "logger_lib \<Rightarrow> logger_env \<Rightarrow> string \<Rightarrow> logger \<Rightarrow> (logger \<times> sink_action list \<times> string option) res" where
  "write_fluentbit ll le logs lg =
     (let send = (\<lambda>lg. case send_lines le (message_lines ll logs) lg of (lg1, acts) \<Rightarrow> Ok (lg1, acts, None)) in
      if lg_socket lg = No_Socket then
        (if lf_fluentbit_ip (lg_flags lg) = None then Crash Option_None
         else
           (case le_socket le of
              Some e \<Rightarrow> Ok (lg\<lparr>lg_socket := Bad_Socket\<rparr>, [], Some (''Failed to create socket: '' @ e))
            | None \<Rightarrow>
                (case le_connect le of
                   Some e \<Rightarrow> Ok (lg, [Open_Socket, Close_Socket], None)
                 | None \<Rightarrow>
                     bind_res (send (lg\<lparr>lg_socket := Connected\<rparr>)) (\<lambda>(lg1, acts, err).
                       Ok (lg1, Open_Socket # acts, err)))))
      else send lg)"

section \<open>The loop\<close>

definition give_up :: "logger \<times> sink_action list \<times> string option \<Rightarrow> logger \<times> sink_action list" where
  "give_up x =
     (case x of (lg, acts, err) \<Rightarrow>
        (case err of
           None \<Rightarrow> (lg, acts)
         | Some e \<Rightarrow> (lg\<lparr>lg_done := Some (F_Failed (''Failed to write: '' @ e))\<rparr>, acts)))"

definition logger_files ::
  "logger_lib \<Rightarrow> logger_env \<Rightarrow> string \<Rightarrow> logger \<Rightarrow> (logger \<times> sink_action list) res" where
  \<comment> \<open>the part of the continuation for files; \<open>lg_done\<close> says whether it returned\<close>
  "logger_files ll le logs lg =
     (if to_files (lg_flags lg) then
        bind_res (write_logrotate ll le logs lg) (\<lambda>r. Ok (give_up r))
      else Ok (lg, []))"

definition logger_fluentbit ::
  "logger_lib \<Rightarrow> logger_env \<Rightarrow> string \<Rightarrow> logger \<Rightarrow> (logger \<times> sink_action list) res" where
  "logger_fluentbit ll le logs lg =
     (if to_fluentbit (lg_flags lg) \<and> lg_done lg = None then
        bind_res (write_fluentbit ll le logs lg) (\<lambda>r. Ok (give_up r))
      else Ok (lg, []))"

definition logger_read ::
  "logger_lib \<Rightarrow> logger_env \<Rightarrow> string future \<Rightarrow> logger \<Rightarrow> (logger \<times> sink_action list) res" where
  \<comment> \<open>one round of \<open>loop\<close>: what the read of the standard input ended in\<close>
  "logger_read ll le r lg =
     (case r of
        F_Failed e \<Rightarrow> Ok (lg\<lparr>lg_done := Some (F_Failed e)\<rparr>, [])
      | F_Discarded \<Rightarrow> Ok (lg, [])
      | F_Ready logs \<Rightarrow>
          if logs = [] then Ok (lg\<lparr>lg_done := Some (F_Ready ())\<rparr>, [])
          else
            (let acts0 = (if to_journald (lg_flags lg) then write_journald ll logs lg else []) in
             bind_res (logger_files ll le logs lg) (\<lambda>(lg1, acts1).
             bind_res (logger_fluentbit ll le logs lg1) (\<lambda>(lg2, acts2).
               Ok (lg2, acts0 @ acts1 @ acts2)))))"

fun logger_loop ::
  "logger_lib \<Rightarrow> (logger_env \<times> string future) list \<Rightarrow> logger \<Rightarrow> (logger \<times> sink_action list) res" where
  \<comment> \<open>the reads, until the promise is set; after a discarded read the loop is not dispatched again\<close>
  "logger_loop ll [] lg = Ok (lg, [])"
| "logger_loop ll ((le, r) # rs) lg =
     (if lg_done lg \<noteq> None then Ok (lg, [])
      else
        bind_res (logger_read ll le r lg) (\<lambda>(lg1, acts1).
          if r = F_Discarded then Ok (lg1, acts1)
          else bind_res (logger_loop ll rs lg1) (\<lambda>(lg2, acts2). Ok (lg2, acts1 @ acts2))))"

definition logger_destroy :: "logger \<Rightarrow> sink_action list res" where
  \<comment> \<open>the files and sockets the destructor closes\<close>
  "logger_destroy lg =
     (case lg_socket lg of
        Bad_Socket \<Rightarrow> Crash Option_None
      | s \<Rightarrow>
          Ok ((if lg_config lg \<noteq> None then [Close_Config] else []) @
              (if lg_leading lg then [Close_File] else []) @
              (if s = Connected then [Close_Socket] else [])))"

definition logger_run ::
  "logger_lib \<Rightarrow> string option \<Rightarrow> (logger_env \<times> string future) list \<Rightarrow> logger \<Rightarrow>
   (logger \<times> sink_action list \<times> unit future option) res" where
  \<comment> \<open>\<open>run\<close>: the second argument is the error of \<open>prepare_async\<close>, the result what the future it returns
      ends in (\<open>None\<close> while it waits for input)\<close>
  "logger_run ll async reads lg =
     (let lg1 = prepare_labels ll lg in
      case async of
        Some e \<Rightarrow> Ok (lg1, [], Some (F_Failed (''Failed to set aync pipe: '' @ e)))
      | None \<Rightarrow> bind_res (logger_loop ll reads lg1) (\<lambda>(lg2, acts). Ok (lg2, acts, lg_done lg2)))"

record startup =
  su_chdir :: "string \<Rightarrow> bool"      \<comment> \<open>does \<open>chdir\<close> succeed\<close>
  su_user :: "string \<Rightarrow> bool"       \<comment> \<open>does \<open>su\<close> succeed\<close>
  su_file :: "string \<Rightarrow> config_file"
  su_async :: "string option"

definition logger_main ::
  "logger_lib \<Rightarrow> u64 \<Rightarrow> startup \<Rightarrow> logger_flags option \<Rightarrow> (logger_env \<times> string future) list \<Rightarrow>
   (bool option \<times> sink_action list) res" where
  \<comment> \<open>\<open>main\<close>: the flags if they load, and the input. The result is whether the process exits with
      success; \<open>None\<close> while it waits for input\<close>
  "logger_main ll page su loaded reads =
     (case loaded of
        None \<Rightarrow> Ok (Some False, [])
      | Some fl \<Rightarrow>
          (case lf_filename fl of
             None \<Rightarrow> Crash Check_Failed
           | Some filename \<Rightarrow>
               if \<not> su_chdir su (ll_dirname ll filename) then Ok (Some False, [])
               else if (case lf_user fl of None \<Rightarrow> False | Some u \<Rightarrow> \<not> su_user su u) then Ok (Some False, [])
               else
                 bind_res (logger_create ll (su_file su) page fl) (\<lambda>r.
                   case r of
                     Inl (e, closed) \<Rightarrow> Ok (Some False, closed)
                   | Inr lg \<Rightarrow>
                       bind_res (logger_run ll (su_async su) reads lg) (\<lambda>(lg1, acts, status).
                         case status of
                           None \<Rightarrow> Ok (None, acts)
                         | Some st \<Rightarrow>
                             bind_res (logger_destroy lg1) (\<lambda>closed.
                               Ok (Some (f_ready st), acts @ closed))))))"

section \<open>What the sinks receive\<close>

definition read_text :: "string future \<Rightarrow> string" where
  "read_text r = (case r of F_Ready s \<Rightarrow> s | _ \<Rightarrow> [])"

definition input_text :: "(logger_env \<times> string future) list \<Rightarrow> string" where
  "input_text reads = concat (map (\<lambda>(le, r). read_text r) reads)"

definition journalled :: "sink_action list \<Rightarrow> string list list" where
  "journalled acts = concat (map (\<lambda>a. case a of Journal es \<Rightarrow> [es] | _ \<Rightarrow> []) acts)"

definition appended :: "sink_action list \<Rightarrow> string" where
  "appended acts = concat (map (\<lambda>a. case a of Append s \<Rightarrow> s | _ \<Rightarrow> []) acts)"

definition journal_entry :: "logger \<Rightarrow> string \<Rightarrow> string list" where
  "journal_entry lg line = lg_entries lg @ [''MESSAGE='' @ line]"

lemma concat_ref_split: "concat (ref_split c s) = filter (\<lambda>x. x \<noteq> c) s"
proof (induction s)
  case (Cons x s)
  then show ?case using ref_split_nonempty [of c s] by (auto split: list.splits)
qed simp

lemma concat_nonempty: "concat (filter (\<lambda>l. l \<noteq> []) ls) = concat ls"
  by (induction ls) auto

lemma concat_message_lines:
  assumes "\<forall>s. ll_lines ll s = ref_split newline s"
  shows "concat (message_lines ll s) = filter (\<lambda>c. c \<noteq> newline) s"
  by (simp add: message_lines_def concat_nonempty concat_ref_split assms)

lemma message_lines_nonempty: "[] \<notin> set (message_lines ll s)"
  by (simp add: message_lines_def)

lemma write_journald_sinks:
  "journalled (write_journald ll s lg) = map (journal_entry lg) (message_lines ll s)"
  "appended (write_journald ll s lg) = []"
  by (simp_all add: write_journald_def journalled_def appended_def journal_entry_def o_def)

subsection \<open>One operation at a time\<close>

text \<open>
  \<open>same_logger\<close>: what no operation of the loop changes. The lemmas on the effect of an operation
  collect everything the properties need of it.
\<close>

definition same_logger :: "logger \<Rightarrow> logger \<Rightarrow> bool" where
  "same_logger lg lg' \<longleftrightarrow> lg_flags lg' = lg_flags lg \<and> lg_entries lg' = lg_entries lg \<and> lg_config lg' = lg_config lg"

lemma same_logger_refl [simp]: "same_logger lg lg"
  by (simp add: same_logger_def)

lemma same_logger_trans: "same_logger lg lg' \<Longrightarrow> same_logger lg' lg'' \<Longrightarrow> same_logger lg lg''"
  by (simp add: same_logger_def)

definition files_open :: "sink_action list \<Rightarrow> int" where
  "files_open acts = sum_list (map (\<lambda>a. case a of Open_File f \<Rightarrow> 1 | Close_File \<Rightarrow> - 1 | _ \<Rightarrow> 0) acts)"

definition sockets_open :: "sink_action list \<Rightarrow> int" where
  "sockets_open acts = sum_list (map (\<lambda>a. case a of Open_Socket \<Rightarrow> 1 | Close_Socket \<Rightarrow> - 1 | _ \<Rightarrow> 0) acts)"

lemmas sink_defs = journalled_def appended_def files_open_def sockets_open_def

lemma sink_append [simp]:
  "journalled [] = []" "journalled (acts @ acts') = journalled acts @ journalled acts'"
  "appended [] = []" "appended (acts @ acts') = appended acts @ appended acts'"
  "files_open [] = 0" "files_open (acts @ acts') = files_open acts + files_open acts'"
  "sockets_open [] = 0" "sockets_open (acts @ acts') = sockets_open acts + sockets_open acts'"
  by (simp_all add: sink_defs)

definition leading_count :: "logger \<Rightarrow> int" where
  "leading_count lg = (if lg_leading lg then 1 else 0)"

definition socket_count :: "logger \<Rightarrow> int" where
  "socket_count lg = (if lg_socket lg = Connected then 1 else 0)"

lemma rotate_effect:
  assumes "rotate ll lg = Ok (lg', acts)"
  shows "same_logger lg lg' \<and> lg_socket lg' = lg_socket lg \<and> lg_done lg' = lg_done lg \<and> journalled acts = [] \<and>
    sockets_open acts = 0 \<and> appended acts = [] \<and> files_open acts = leading_count lg' - leading_count lg"
  using assms
  by (auto simp: rotate_def same_logger_def sink_defs leading_count_def split: option.splits)

lemma open_leading_effect:
  assumes "open_leading ll le lg = Ok (lg', acts, err)"
  shows "same_logger lg lg' \<and> lg_socket lg' = lg_socket lg \<and> lg_done lg' = lg_done lg \<and> journalled acts = [] \<and>
    sockets_open acts = 0 \<and> appended acts = [] \<and> files_open acts = leading_count lg' - leading_count lg"
  using assms
  by (auto simp: open_leading_def same_logger_def sink_defs leading_count_def split: option.splits if_splits)

lemma write_logrotate_OkE:
  assumes w: "write_logrotate ll le s lg = Ok (lg', acts, err)"
  obtains lg1 acts1 lg2 acts2 err2 acts3 where
    "(if lg_bytes lg + of_nat (length s) > lf_max_size (lg_flags lg) then rotate ll lg else Ok (lg, [])) = Ok (lg1, acts1)"
    "open_leading ll le lg1 = Ok (lg2, acts2, err2)"
    "append_leading s (lg2, acts2, err2) = (lg', acts3, err)" "acts = acts1 @ acts3"
proof -
  from w obtain p where p: "(if lg_bytes lg + of_nat (length s) > lf_max_size (lg_flags lg) then rotate ll lg else Ok (lg, [])) = Ok p"
    and q: "bind_res (open_leading ll le (fst p)) (\<lambda>opened.
       case append_leading s opened of (lg2, acts2, err) \<Rightarrow> Ok (lg2, snd p @ acts2, err)) = Ok (lg', acts, err)"
    unfolding write_logrotate_def by (elim bind_res_OkE) (auto simp: case_prod_beta)
  from q obtain o1 where o: "open_leading ll le (fst p) = Ok o1"
    and a: "(case append_leading s o1 of (lg2, acts2, err) \<Rightarrow> Ok (lg2, snd p @ acts2, err)) = Ok (lg', acts, err)"
    by (rule bind_res_OkE)
  obtain lg1 acts1 where p1: "p = (lg1, acts1)" by (cases p)
  obtain lg2 acts2 err2 where o1: "o1 = (lg2, acts2, err2)" by (cases o1)
  obtain lg3 acts3 err3 where a1: "append_leading s o1 = (lg3, acts3, err3)" by (cases "append_leading s o1")
  from p o a p1 o1 a1 that show thesis by simp
qed

lemma write_logrotate_effect:
  assumes w: "write_logrotate ll le s lg = Ok (lg', acts, err)"
  shows "same_logger lg lg' \<and> lg_socket lg' = lg_socket lg \<and> lg_done lg' = lg_done lg \<and> journalled acts = [] \<and>
    sockets_open acts = 0 \<and> (err = None \<longrightarrow> appended acts = s) \<and>
    files_open acts = leading_count lg' - leading_count lg"
  using w
proof (rule write_logrotate_OkE)
  fix lg1 acts1 lg2 acts2 err2 acts3
  assume r: "(if lg_bytes lg + of_nat (length s) > lf_max_size (lg_flags lg) then rotate ll lg else Ok (lg, [])) = Ok (lg1, acts1)"
    and o: "open_leading ll le lg1 = Ok (lg2, acts2, err2)"
    and a: "append_leading s (lg2, acts2, err2) = (lg', acts3, err)" "acts = acts1 @ acts3"
  from r have "same_logger lg lg1 \<and> lg_socket lg1 = lg_socket lg \<and> lg_done lg1 = lg_done lg \<and> journalled acts1 = [] \<and>
    sockets_open acts1 = 0 \<and> appended acts1 = [] \<and> files_open acts1 = leading_count lg1 - leading_count lg"
    using rotate_effect [of ll lg lg1 acts1] by (auto simp: sink_defs split: if_splits)
  with open_leading_effect [OF o] a show ?thesis
    by (auto simp: append_leading_def sink_defs same_logger_def leading_count_def split: option.splits)
qed

lemma give_up_effect:
  assumes "give_up (lg, acts, err) = (lg', acts')"
  shows "same_logger lg lg' \<and> lg_socket lg' = lg_socket lg \<and> lg_bytes lg' = lg_bytes lg \<and> lg_leading lg' = lg_leading lg \<and>
    acts' = acts \<and> (lg_done lg' = None \<longrightarrow> err = None) \<and> (err = None \<longrightarrow> lg_done lg' = lg_done lg) \<and>
    (lg_done lg \<noteq> None \<longrightarrow> lg_done lg' \<noteq> None)"
  using assms by (auto simp: give_up_def same_logger_def split: option.splits)

lemma logger_files_effect:
  assumes "logger_files ll le s lg = Ok (lg', acts)"
  shows "same_logger lg lg' \<and> lg_socket lg' = lg_socket lg \<and> journalled acts = [] \<and> sockets_open acts = 0 \<and>
    (lg_done lg' = None \<longrightarrow> lg_done lg = None \<and> (to_files (lg_flags lg) \<longrightarrow> appended acts = s)) \<and>
    files_open acts = leading_count lg' - leading_count lg"
proof (cases "to_files (lg_flags lg)")
  case True
  with assms obtain r where w: "write_logrotate ll le s lg = Ok r" and g: "give_up r = (lg', acts)"
    by (auto simp: logger_files_def bind_res_Ok_iff)
  obtain lg1 acts1 err where r: "r = (lg1, acts1, err)" by (cases r)
  from write_logrotate_effect [OF w [unfolded r]] give_up_effect [OF g [unfolded r]] show ?thesis
    by (auto simp: leading_count_def intro: same_logger_trans)
qed (use assms in \<open>auto simp: logger_files_def sink_defs\<close>)

lemma send_lines_effect:
  assumes "send_lines le lines lg = (lg', acts)" and "lg_socket lg = Connected"
  shows "same_logger lg lg' \<and> lg_leading lg' = lg_leading lg \<and> lg_bytes lg' = lg_bytes lg \<and> lg_done lg' = lg_done lg \<and>
    journalled acts = [] \<and> appended acts = [] \<and> files_open acts = 0 \<and> lg_socket lg' \<noteq> Bad_Socket \<and>
    sockets_open acts = socket_count lg' - 1"
  using assms
proof (induction lines arbitrary: lg lg' acts)
  case (Cons line lines)
  let ?lg1 = "lg\<lparr>lg_object := hm_put (lg_object lg) ''line'' line\<rparr>"
  show ?case
  proof (cases "le_write le line")
    case (Some e)
    with Cons.prems show ?thesis by (auto simp: Let_def same_logger_def sink_defs socket_count_def)
  next
    case None
    obtain lg2 acts2 where s: "send_lines le lines ?lg1 = (lg2, acts2)" by fastforce
    from Cons.IH [OF s] None s Cons.prems show ?thesis
      by (auto simp: Let_def same_logger_def sink_defs socket_count_def)
  qed
qed (auto simp: sink_defs socket_count_def)

lemma write_fluentbit_effect:
  assumes w: "write_fluentbit ll le s lg = Ok (lg', acts, err)" and "lg_socket lg \<noteq> Bad_Socket"
  shows "same_logger lg lg' \<and> lg_leading lg' = lg_leading lg \<and> lg_bytes lg' = lg_bytes lg \<and> lg_done lg' = lg_done lg \<and>
    journalled acts = [] \<and> appended acts = [] \<and> files_open acts = 0 \<and>
    sockets_open acts = socket_count lg' - socket_count lg \<and>
    (lg_socket lg' = Bad_Socket \<longrightarrow> err \<noteq> None \<and> le_socket le \<noteq> None)"
proof (cases "lg_socket lg")
  case Connected
  obtain lg1 acts1 where sl: "send_lines le (message_lines ll s) lg = (lg1, acts1)" by fastforce
  from send_lines_effect [OF sl Connected] sl w Connected show ?thesis
    by (auto simp: write_fluentbit_def socket_count_def)
next
  case No_Socket
  let ?lg = "lg\<lparr>lg_socket := Connected\<rparr>"
  obtain lg1 acts1 where sl: "send_lines le (message_lines ll s) ?lg = (lg1, acts1)" by fastforce
  from send_lines_effect [OF sl] sl w No_Socket show ?thesis
    by (auto simp: write_fluentbit_def same_logger_def sink_defs socket_count_def Let_def split: if_splits option.splits)
qed (use assms in simp)

lemma logger_fluentbit_effect:
  assumes w: "logger_fluentbit ll le s lg = Ok (lg', acts)" and "lg_socket lg \<noteq> Bad_Socket"
  shows "same_logger lg lg' \<and> lg_leading lg' = lg_leading lg \<and> lg_bytes lg' = lg_bytes lg \<and>
    (lg_done lg' = None \<longrightarrow> lg_done lg = None) \<and> journalled acts = [] \<and> appended acts = [] \<and> files_open acts = 0 \<and>
    sockets_open acts = socket_count lg' - socket_count lg \<and>
    (lg_socket lg' = Bad_Socket \<longrightarrow> lg_done lg' \<noteq> None \<and> le_socket le \<noteq> None)"
proof (cases "to_fluentbit (lg_flags lg) \<and> lg_done lg = None")
  case True
  with w obtain r where f: "write_fluentbit ll le s lg = Ok r" and g: "give_up r = (lg', acts)"
    by (auto simp: logger_fluentbit_def bind_res_Ok_iff)
  obtain lg1 acts1 err where r: "r = (lg1, acts1, err)" by (cases r)
  from write_fluentbit_effect [OF f [unfolded r] assms(2)] give_up_effect [OF g [unfolded r]] show ?thesis
    by (auto simp: socket_count_def intro: same_logger_trans)
qed (use assms in \<open>auto simp: logger_fluentbit_def sink_defs\<close>)

text \<open>A chunk of input, as the three sinks in turn.\<close>

lemma logger_read_OkE:
  assumes "logger_read ll le (F_Ready s) lg = Ok (lg', acts)" and "s \<noteq> []"
  obtains lg1 acts1 acts2 where
    "logger_files ll le s lg = Ok (lg1, acts1)" "logger_fluentbit ll le s lg1 = Ok (lg', acts2)"
    "acts = (if to_journald (lg_flags lg) then write_journald ll s lg else []) @ acts1 @ acts2"
  using assms by (auto simp: logger_read_def Let_def bind_res_Ok_iff)

lemma write_journald_silent: "files_open (write_journald ll s lg) = 0" "sockets_open (write_journald ll s lg) = 0"
  by (simp_all add: write_journald_def sink_defs o_def)

lemma logger_read_effect:
  assumes r: "logger_read ll le r lg = Ok (lg', acts)" and b: "lg_socket lg \<noteq> Bad_Socket" and d: "lg_done lg = None"
  shows "same_logger lg lg' \<and> files_open acts = leading_count lg' - leading_count lg \<and>
    sockets_open acts = socket_count lg' - socket_count lg \<and>
    (lg_socket lg' = Bad_Socket \<longrightarrow> lg_done lg' \<noteq> None \<and> le_socket le \<noteq> None) \<and>
    (lg_done lg' = None \<and> r \<noteq> F_Discarded \<longrightarrow>
      (to_journald (lg_flags lg) \<longrightarrow> journalled acts = map (journal_entry lg) (message_lines ll (read_text r))) \<and>
      (to_files (lg_flags lg) \<longrightarrow> appended acts = read_text r))"
proof (cases "\<exists>s. r = F_Ready s \<and> s \<noteq> []")
  case True
  then obtain s where s: "r = F_Ready s" "s \<noteq> []" by auto
  from r [unfolded s(1)] s(2) show ?thesis
  proof (rule logger_read_OkE)
    fix lg1 acts1 acts2
    assume f: "logger_files ll le s lg = Ok (lg1, acts1)" and g: "logger_fluentbit ll le s lg1 = Ok (lg', acts2)"
      and a: "acts = (if to_journald (lg_flags lg) then write_journald ll s lg else []) @ acts1 @ acts2"
    note e1 = logger_files_effect [OF f]
    from e1 b have "lg_socket lg1 \<noteq> Bad_Socket" by simp
    from logger_fluentbit_effect [OF g this] e1
    have ks: "same_logger lg lg1" "same_logger lg1 lg'" "journalled acts1 = []" "journalled acts2 = []" "appended acts2 = []"
      and fo: "files_open acts1 + files_open acts2 = leading_count lg' - leading_count lg"
      and so: "sockets_open acts1 + sockets_open acts2 = socket_count lg' - socket_count lg"
      and bs: "lg_socket lg' = Bad_Socket \<longrightarrow> lg_done lg' \<noteq> None \<and> le_socket le \<noteq> None"
      and ap: "lg_done lg' = None \<longrightarrow> to_files (lg_flags lg) \<longrightarrow> appended acts1 = s"
      by (auto simp: leading_count_def socket_count_def)
    show ?thesis
      unfolding a s(1)
      using ks fo so bs ap write_journald_silent [of ll s lg] write_journald_sinks [of ll s lg]
      by (auto simp: read_text_def intro: same_logger_trans)
  qed
next
  case False
  with r d b show ?thesis
    by (cases r) (auto simp: logger_read_def same_logger_def sink_defs leading_count_def socket_count_def)
qed

lemma logger_loop_effect:
  assumes "logger_loop ll reads lg = Ok (lg', acts)" and "lg_socket lg \<noteq> Bad_Socket"
  shows "same_logger lg lg' \<and> files_open acts = leading_count lg' - leading_count lg \<and>
    sockets_open acts = socket_count lg' - socket_count lg \<and>
    (lg_socket lg' = Bad_Socket \<longrightarrow> lg_done lg' \<noteq> None \<and> (\<exists>(le, r)\<in>set reads. le_socket le \<noteq> None))"
  using assms
proof (induction reads arbitrary: lg acts)
  case (Cons x reads)
  obtain le r where x: "x = (le, r)" by (cases x)
  show ?case
  proof (cases "lg_done lg = None")
    case True
    with Cons.prems(1) x obtain lg1 acts1 where r1: "logger_read ll le r lg = Ok (lg1, acts1)"
      and r2: "(if r = F_Discarded then Ok (lg1, acts1)
          else bind_res (logger_loop ll reads lg1) (\<lambda>(lg2, acts2). Ok (lg2, acts1 @ acts2))) = Ok (lg', acts)"
      by (auto simp: bind_res_Ok_iff)
    note e = logger_read_effect [OF r1 Cons.prems(2) True]
    show ?thesis
    proof (cases "r = F_Discarded \<or> lg_socket lg1 = Bad_Socket")
      case True
      with r2 e have "lg' = lg1 \<and> acts = acts1" by (cases reads) (auto split: if_splits)
      with e x show ?thesis by auto
    next
      case False
      with r2 obtain acts2 where l: "logger_loop ll reads lg1 = Ok (lg', acts2)" and a: "acts = acts1 @ acts2"
        by (auto simp: bind_res_Ok_iff)
      from False have "lg_socket lg1 \<noteq> Bad_Socket" by simp
      from Cons.IH [OF l this] e a x show ?thesis
        by (auto intro: same_logger_trans)
    qed
  qed (use Cons.prems x in auto)
qed auto

section \<open>Properties\<close>

subsection \<open>Nothing of the input is lost\<close>

lemma logger_loop_sinks:
  assumes "logger_loop ll reads lg = Ok (lg', acts)" and "lg_socket lg \<noteq> Bad_Socket"
    and "\<forall>(le, r)\<in>set reads. r \<noteq> F_Discarded" and "lg_done lg' = None"
  shows "(to_journald (lg_flags lg) \<longrightarrow>
      journalled acts = map (journal_entry lg) (concat (map (\<lambda>(le, r). message_lines ll (read_text r)) reads))) \<and>
    (to_files (lg_flags lg) \<longrightarrow> appended acts = input_text reads)"
  using assms
proof (induction reads arbitrary: lg acts)
  case (Cons x reads)
  obtain le r where x: "x = (le, r)" by (cases x)
  from Cons.prems x have d: "lg_done lg = None" by (auto split: if_splits)
  with Cons.prems(1,3) x obtain lg1 acts1 acts2 where r1: "logger_read ll le r lg = Ok (lg1, acts1)"
    and l: "logger_loop ll reads lg1 = Ok (lg', acts2)" and a: "acts = acts1 @ acts2"
    by (auto simp: bind_res_Ok_iff)
  from l Cons.prems(4) have d1: "lg_done lg1 = None"
    by (cases reads) (auto split: if_splits)
  note e = logger_read_effect [OF r1 Cons.prems(2) d]
  from e d1 have "lg_socket lg1 \<noteq> Bad_Socket" by simp
  from Cons.IH [OF l this _ Cons.prems(4)] Cons.prems(3) e d1 x a show ?case
    by (auto simp: same_logger_def journal_entry_def input_text_def)
qed (simp add: input_text_def)

lemma concat_message_lines_input:
  assumes "\<forall>s. ll_lines ll s = ref_split newline s"
  shows "concat (concat (map (\<lambda>(le, r). message_lines ll (read_text r)) reads)) =
    filter (\<lambda>c. c \<noteq> newline) (input_text reads)"
  by (induction reads) (auto simp: input_text_def concat_message_lines [OF assms])


text \<open>Two chunks; the second line of the input is cut by the end of the first read.\<close>

definition ll9 :: logger_lib where
  "ll9 = \<lparr>ll_upper = (\<lambda>s. s), ll_basename = (\<lambda>s. s), ll_dirname = (\<lambda>s. s), ll_show = (\<lambda>n. ''7''),
     ll_lines = ref_split newline\<rparr>"

definition fl9 :: logger_flags where
  "fl9 = \<lparr>lf_destination = ''journald+logrotate'', lf_labels = [\<lparr>lb_key = ''K'', lb_value = ''v''\<rparr>], lf_max_size = 9,
     lf_options = None, lf_filename = Some ''/f'', lf_logrotate = ''lr'', lf_user = None,
     lf_fluentbit_ip = Some (V4 0), lf_fluentbit_port = 0\<rparr>"

definition le9 :: logger_env where
  "le9 = \<lparr>le_open = None, le_socket = None, le_connect = None, le_write = (\<lambda>s. None)\<rparr>"

definition reads9 :: "(logger_env \<times> string future) list" where
  "reads9 = [(le9, F_Ready (''ab'' @ [newline] @ ''c'')), (le9, F_Ready (''d'' @ [newline] @ ''efgh''))]"

lemma reads9_run:
  "case logger_loop ll9 reads9 (prepare_labels ll9 (logger_new fl9 (Some ''c''))) of
     Ok (lg, acts) \<Rightarrow> lg_done lg = None \<and>
       journalled acts = [[''K=v'', ''MESSAGE=ab''], [''K=v'', ''MESSAGE=c''], [''K=v'', ''MESSAGE=d''], [''K=v'', ''MESSAGE=efgh'']]
   | _ \<Rightarrow> False"
  by code_simp

lemma reads9_OkE:
  obtains lg acts where "logger_loop ll9 reads9 (prepare_labels ll9 (logger_new fl9 (Some ''c''))) = Ok (lg, acts)"
    "lg_done lg = None"
  using reads9_run by (auto split: res.splits)


subsection \<open>The size of the log file\<close>

fun since_rotation :: "nat \<Rightarrow> sink_action list \<Rightarrow> nat list" where
  \<comment> \<open>after each action, the bytes appended since the last rotation\<close>
  "since_rotation n [] = []"
| "since_rotation n (a # acts) =
     (let n' = (case a of Append s \<Rightarrow> n + length s | Rotate c \<Rightarrow> 0 | _ \<Rightarrow> n) in n' # since_rotation n' acts)"

definition size_after :: "nat \<Rightarrow> sink_action list \<Rightarrow> nat" where
  "size_after n acts = last (n # since_rotation n acts)"

lemma size_after_Nil [simp]: "size_after n [] = n"
  by (simp add: size_after_def)

lemma size_after_Cons:
  "size_after n (a # acts) = size_after (case a of Append s \<Rightarrow> n + length s | Rotate c \<Rightarrow> 0 | _ \<Rightarrow> n) acts"
  by (simp add: size_after_def Let_def)

lemma size_after_append: "size_after n (acts @ acts') = size_after (size_after n acts) acts'"
  by (induction acts arbitrary: n) (simp_all add: size_after_Cons)

lemma since_rotation_append: "since_rotation n (acts @ acts') = since_rotation n acts @ since_rotation (size_after n acts) acts'"
  by (induction acts arbitrary: n) (simp_all add: size_after_Cons Let_def)

definition other_action :: "sink_action \<Rightarrow> bool" where
  "other_action a \<longleftrightarrow> (case a of Append s \<Rightarrow> False | Rotate c \<Rightarrow> False | _ \<Rightarrow> True)"

lemma since_rotation_other:
  "list_all other_action acts \<Longrightarrow> size_after n acts = n \<and> set (since_rotation n acts) \<subseteq> {n}"
  by (induction acts arbitrary: n) (auto simp: other_action_def size_after_Cons Let_def split: sink_action.splits)

lemma other_actions:
  "list_all other_action (write_journald ll s lg)"
  "open_leading ll le lg = Ok (lg', acts, err) \<Longrightarrow> list_all other_action acts \<and> lg_bytes lg' = lg_bytes lg \<and> lg_flags lg' = lg_flags lg"
  "send_lines le lines lg = (lg', acts') \<Longrightarrow> list_all other_action acts'"
proof (goal_cases)
  case 3
  then show ?case
  proof (induction lines arbitrary: lg acts')
    case (Cons line lines)
    then show ?case by (auto simp: Let_def other_action_def split: option.splits prod.splits)
  qed simp
qed (auto simp: write_journald_def other_action_def open_leading_def list_all_iff split: option.splits if_splits)

lemma fluentbit_other_actions:
  assumes "logger_fluentbit ll le s lg = Ok (lg', acts)"
  shows "list_all other_action acts"
proof -
  have "list_all other_action acts1" if "write_fluentbit ll le s lg = Ok (lg1, acts1, err)" for lg1 acts1 err
    using that by (auto simp: write_fluentbit_def other_action_def Let_def bind_res_Ok_iff
        split: if_splits option.splits prod.splits dest: other_actions(3))
  with assms show ?thesis
    by (auto simp: logger_fluentbit_def bind_res_Ok_iff give_up_def split: if_splits option.splits prod.splits)
qed

definition sized :: "nat \<Rightarrow> logger \<Rightarrow> bool" where
  "sized n lg \<longleftrightarrow> n = unat (lg_bytes lg) \<and> lg_bytes lg \<le> lf_max_size (lg_flags lg)"

definition below_limit :: "nat \<Rightarrow> sink_action list \<Rightarrow> logger \<Rightarrow> bool" where
  "below_limit n acts lg \<longleftrightarrow> (\<forall>k\<in>set (since_rotation n acts). k \<le> unat (lf_max_size (lg_flags lg)))"

lemma append_no_wrap:
  fixes b m :: u64
  assumes "b \<le> m" "k \<le> p" "unat m + p < 2 ^ 64"
  shows "unat (b + of_nat k) = unat b + k"
proof -
  from assms have "unat b + k < 2 ^ 64" using word_le_nat_alt [of b m] by linarith
  moreover from assms have "unat (of_nat k :: u64) = k" by (simp add: unat_of_nat)
  ultimately show ?thesis by (simp add: unat_plus_if')
qed

lemma write_logrotate_size:
  assumes w: "write_logrotate ll le s lg = Ok (lg', acts, err)" and n: "sized n lg"
    and p: "length s \<le> p" "p \<le> unat (lf_max_size (lg_flags lg))" "unat (lf_max_size (lg_flags lg)) + p < 2 ^ 64"
  shows "below_limit n acts lg \<and> sized (size_after n acts) lg'"
  using w
proof (rule write_logrotate_OkE)
  fix lg1 acts1 lg2 acts2 err2 acts3
  let ?max = "lf_max_size (lg_flags lg)"
  assume r: "(if lg_bytes lg + of_nat (length s) > ?max then rotate ll lg else Ok (lg, [])) = Ok (lg1, acts1)"
    and o: "open_leading ll le lg1 = Ok (lg2, acts2, err2)"
    and a: "append_leading s (lg2, acts2, err2) = (lg', acts3, err)" "acts = acts1 @ acts3"
  from n p have nw: "unat (lg_bytes lg + of_nat (length s)) = unat (lg_bytes lg) + length s"
    by (intro append_no_wrap) (auto simp: sized_def)
  have l1: "below_limit n acts1 lg \<and> sized (size_after n acts1) lg1 \<and> size_after n acts1 + length s \<le> unat ?max \<and>
      lg_flags lg1 = lg_flags lg"
  proof (cases "lg_bytes lg + of_nat (length s) > ?max")
    case True
    with r n p show ?thesis
      by (auto simp: rotate_def below_limit_def sized_def size_after_Cons word_le_nat_alt split: option.splits if_splits)
  next
    case False
    with r n nw show ?thesis
      by (auto simp: below_limit_def sized_def word_le_nat_alt not_less)
  qed
  note o2 = other_actions(2) [OF o]
  note s2 = since_rotation_other [of acts2 "size_after n acts1"]
  have nw1: "unat (lg_bytes lg2 + of_nat (length s)) = unat (lg_bytes lg2) + length s"
    using l1 o2 p by (intro append_no_wrap) (auto simp: sized_def)
  from l1 o2 s2 nw1 a show ?thesis
    by (auto simp: append_leading_def below_limit_def sized_def since_rotation_append size_after_append size_after_Cons
        word_le_nat_alt split: option.splits)
qed

lemma below_limit_Nil [simp]: "below_limit n [] lg"
  by (simp add: below_limit_def)

lemma below_limit_append:
  "below_limit n (acts @ acts') lg \<longleftrightarrow> below_limit n acts lg \<and> below_limit (size_after n acts) acts' lg"
  by (auto simp: below_limit_def since_rotation_append)

lemma below_limit_other:
  "list_all other_action acts \<Longrightarrow> sized n lg \<Longrightarrow> below_limit n acts lg \<and> size_after n acts = n"
  using since_rotation_other [of acts n] by (auto simp: below_limit_def sized_def word_le_nat_alt)

lemma sized_cong:
  "lg_bytes lg' = lg_bytes lg \<Longrightarrow> lg_flags lg' = lg_flags lg \<Longrightarrow> sized n lg' \<longleftrightarrow> sized n lg"
  by (simp add: sized_def)

lemma below_limit_cong:
  "lg_flags lg' = lg_flags lg \<Longrightarrow> below_limit n acts lg' \<longleftrightarrow> below_limit n acts lg"
  by (simp add: below_limit_def)

lemma logger_files_size:
  assumes f: "logger_files ll le s lg = Ok (lg', acts)" and n: "sized n lg"
    and p: "length s \<le> p" "p \<le> unat (lf_max_size (lg_flags lg))" "unat (lf_max_size (lg_flags lg)) + p < 2 ^ 64"
  shows "below_limit n acts lg \<and> sized (size_after n acts) lg'"
proof (cases "to_files (lg_flags lg)")
  case True
  with f obtain r where w: "write_logrotate ll le s lg = Ok r" and g: "give_up r = (lg', acts)"
    by (auto simp: logger_files_def bind_res_Ok_iff)
  obtain lg1 acts1 err where r: "r = (lg1, acts1, err)" by (cases r)
  from write_logrotate_size [OF w [unfolded r] n p] give_up_effect [OF g [unfolded r]] show ?thesis
    by (auto simp: same_logger_def sized_def)
qed (use f n in \<open>auto simp: logger_files_def below_limit_def\<close>)

lemma logger_read_size:
  assumes r: "logger_read ll le r lg = Ok (lg', acts)" and n: "sized n lg" and b: "lg_socket lg \<noteq> Bad_Socket"
    and p: "length (read_text r) \<le> p" "p \<le> unat (lf_max_size (lg_flags lg))" "unat (lf_max_size (lg_flags lg)) + p < 2 ^ 64"
  shows "below_limit n acts lg \<and> sized (size_after n acts) lg'"
proof (cases "\<exists>s. r = F_Ready s \<and> s \<noteq> []")
  case True
  then obtain s where s: "r = F_Ready s" "s \<noteq> []" by auto
  from r [unfolded s(1)] s(2) show ?thesis
  proof (rule logger_read_OkE)
    fix lg1 acts1 acts2
    assume f: "logger_files ll le s lg = Ok (lg1, acts1)" and g: "logger_fluentbit ll le s lg1 = Ok (lg', acts2)"
      and a: "acts = (if to_journald (lg_flags lg) then write_journald ll s lg else []) @ acts1 @ acts2"
    from p s have "length s \<le> p" by (simp add: read_text_def)
    note z1 = logger_files_size [OF f n this p(2,3)]
    from logger_files_effect [OF f] b have e: "lg_socket lg1 \<noteq> Bad_Socket" "lg_flags lg1 = lg_flags lg"
      by (auto simp: same_logger_def)
    from z1 have "sized (size_after n acts1) lg1" by simp
    note z2 = below_limit_other [OF fluentbit_other_actions [OF g] this]
    note z0 = below_limit_other [OF other_actions(1) n]
    from logger_fluentbit_effect [OF g e(1)] have "sized (size_after n acts1) lg' = sized (size_after n acts1) lg1"
      by (intro sized_cong) (auto simp: same_logger_def)
    with z0 z1 z2 a below_limit_cong [OF e(2)] show ?thesis
      by (simp add: below_limit_append size_after_append)
  qed
next
  case False
  with r n show ?thesis
    by (cases r) (auto simp: logger_read_def below_limit_def sized_def)
qed

lemma logger_loop_size:
  assumes "logger_loop ll reads lg = Ok (lg', acts)" and "sized n lg" and "lg_socket lg \<noteq> Bad_Socket"
    and "\<forall>(le, r)\<in>set reads. length (read_text r) \<le> p"
    and "p \<le> unat (lf_max_size (lg_flags lg))" "unat (lf_max_size (lg_flags lg)) + p < 2 ^ 64"
  shows "below_limit n acts lg \<and> sized (size_after n acts) lg'"
  using assms
proof (induction reads arbitrary: lg acts n)
  case (Cons x reads)
  obtain le r where x: "x = (le, r)" by (cases x)
  show ?case
  proof (cases "lg_done lg = None")
    case True
    with Cons.prems(1) x obtain lg1 acts1 where r1: "logger_read ll le r lg = Ok (lg1, acts1)"
      and r2: "(if r = F_Discarded then Ok (lg1, acts1)
          else bind_res (logger_loop ll reads lg1) (\<lambda>(lg2, acts2). Ok (lg2, acts1 @ acts2))) = Ok (lg', acts)"
      by (auto simp: bind_res_Ok_iff)
    from Cons.prems(4) x have lr: "length (read_text r) \<le> p" by simp
    note z1 = logger_read_size [OF r1 Cons.prems(2,3) lr Cons.prems(5,6)]
    note e = logger_read_effect [OF r1 Cons.prems(3) True]
    show ?thesis
    proof (cases "r = F_Discarded \<or> lg_socket lg1 = Bad_Socket")
      case True
      with r2 e have "lg' = lg1 \<and> acts = acts1" by (cases reads) (auto split: if_splits)
      with z1 show ?thesis by simp
    next
      case False
      with r2 obtain acts2 where l: "logger_loop ll reads lg1 = Ok (lg', acts2)" and a: "acts = acts1 @ acts2"
        by (auto simp: bind_res_Ok_iff)
      from e have fl: "lg_flags lg1 = lg_flags lg" by (simp add: same_logger_def)
      from False Cons.prems(4) Cons.IH [OF l, of "size_after n acts1"] z1 Cons.prems(5,6) fl a
        below_limit_cong [OF fl] show ?thesis
        by (simp add: below_limit_append size_after_append)
    qed
  qed (use Cons.prems x in \<open>auto simp: below_limit_def\<close>)
qed (auto simp: below_limit_def)

text \<open>
  C22: With the size limit the flags validate (at least a page, and so far from the end of its type
  that adding a page does not wrap), what is appended to the leading log file between two rotations
  never exceeds the limit, whatever fails in between, and the size written into the configuration of
  \<open>logrotate\<close> is the limit less a page.
\<close>

theorem log_file_bounded:
  assumes "flags_valid page absolute runs fl" and "unat (lf_max_size fl) + unat page < 2 ^ 64"
    and "\<forall>(le, r)\<in>set reads. length (read_text r) \<le> unat page"
    and "logger_loop ll reads (prepare_labels ll (logger_new fl config)) = Ok (lg, acts)"
  shows "(\<forall>k\<in>set (since_rotation 0 acts). k \<le> unat (lf_max_size fl)) \<and>
    uint (lf_max_size fl - page) = uint (lf_max_size fl) - uint page"
proof
  from assms(1) have p: "page \<le> lf_max_size fl" by (simp add: flags_valid_def valid_max_size_def not_less)
  then show "uint (lf_max_size fl - page) = uint (lf_max_size fl) - uint page"
    by (simp add: uint_minus_simple_alt)
  have "sized 0 (prepare_labels ll (logger_new fl config))"
    by (simp add: sized_def prepare_labels_def logger_new_def)
  from logger_loop_size [OF assms(4) this _ assms(3)] p assms(2)
  show "\<forall>k\<in>set (since_rotation 0 acts). k \<le> unat (lf_max_size fl)"
    by (simp add: below_limit_def prepare_labels_def logger_new_def word_le_nat_alt)
qed

theorem log_file_bounded_witness:
  "\<exists>lg acts. logger_loop ll9 reads9 (prepare_labels ll9 (logger_new fl9 (Some ''c''))) = Ok (lg, acts) \<and>
     (\<forall>k\<in>set (since_rotation 0 acts). k \<le> 9) \<and> since_rotation 0 acts \<noteq> []"
proof -
  obtain lg acts where l: "logger_loop ll9 reads9 (prepare_labels ll9 (logger_new fl9 (Some ''c''))) = Ok (lg, acts)"
    "lg_done lg = None" by (rule reads9_OkE)
  have v: "flags_valid 8 (\<lambda>f. True) (\<lambda>c. True) fl9"
    by (simp add: flags_valid_def fl9_def valid_destination_def valid_max_size_def valid_filename_def
        valid_logrotate_def valid_fluentbit_ip_def)
  from log_file_bounded [OF v _ _ l(1)] have "\<forall>k\<in>set (since_rotation 0 acts). k \<le> 9"
    by (simp add: fl9_def reads9_def read_text_def)
  moreover from reads9_run l(1) have "acts \<noteq> []" by (auto simp: journalled_def)
  then have "since_rotation 0 acts \<noteq> []" by (cases acts) (auto simp: Let_def)
  ultimately show ?thesis using l(1) by blast
qed

subsection \<open>No abort, no leaked descriptor\<close>

definition supplied :: "logger \<Rightarrow> bool" where
  "supplied lg \<longleftrightarrow> lf_filename (lg_flags lg) \<noteq> None \<and> lf_fluentbit_ip (lg_flags lg) \<noteq> None \<and>
     (to_files (lg_flags lg) \<longrightarrow> lg_config lg \<noteq> None)"

lemma supplied_same: "same_logger lg lg' \<Longrightarrow> supplied lg \<Longrightarrow> supplied lg'"
  by (simp add: supplied_def same_logger_def)

lemma open_leading_total: "supplied lg \<Longrightarrow> \<exists>r. open_leading ll le lg = Ok r"
  by (auto simp: open_leading_def supplied_def split: option.splits)

lemma write_logrotate_total:
  assumes "supplied lg" "to_files (lg_flags lg)"
  shows "\<exists>r. write_logrotate ll le s lg = Ok r"
proof -
  have "\<exists>lg1 acts1. (if lg_bytes lg + of_nat (length s) > lf_max_size (lg_flags lg) then rotate ll lg else Ok (lg, [])) =
      Ok (lg1, acts1) \<and> supplied lg1"
    using assms by (auto simp: rotate_def supplied_def)
  then obtain lg1 acts1 where r: "(if lg_bytes lg + of_nat (length s) > lf_max_size (lg_flags lg) then rotate ll lg else Ok (lg, [])) =
      Ok (lg1, acts1)" "supplied lg1" by blast
  from open_leading_total [OF r(2)] obtain o1 where "open_leading ll le lg1 = Ok o1" by blast
  with r(1) show ?thesis by (auto simp: write_logrotate_def split: prod.splits)
qed

lemma logger_files_total: "supplied lg \<Longrightarrow> \<exists>lg1 acts. logger_files ll le s lg = Ok (lg1, acts)"
  using write_logrotate_total [of lg ll le s] by (cases "to_files (lg_flags lg)") (auto simp: logger_files_def)

lemma logger_fluentbit_total: "supplied lg \<Longrightarrow> \<exists>lg1 acts. logger_fluentbit ll le s lg = Ok (lg1, acts)"
  by (auto simp: logger_fluentbit_def write_fluentbit_def supplied_def Let_def split: option.splits prod.splits)

lemma logger_read_total:
  assumes "supplied lg"
  shows "\<exists>lg1 acts. logger_read ll le r lg = Ok (lg1, acts)"
proof (cases "\<exists>s. r = F_Ready s \<and> s \<noteq> []")
  case True
  then obtain s where s: "r = F_Ready s" "s \<noteq> []" by blast
  from logger_files_total [OF assms] obtain lg1 acts1 where f: "logger_files ll le s lg = Ok (lg1, acts1)" by blast
  from logger_files_effect [OF f] assms have "supplied lg1" by (blast intro: supplied_same)
  from logger_fluentbit_total [OF this] obtain lg2 acts2 where "logger_fluentbit ll le s lg1 = Ok (lg2, acts2)" by blast
  with f s show ?thesis by (simp add: logger_read_def Let_def)
next
  case False
  then show ?thesis by (cases r) (auto simp: logger_read_def)
qed

lemma logger_loop_total:
  "supplied lg \<Longrightarrow> lg_socket lg \<noteq> Bad_Socket \<Longrightarrow> \<exists>lg1 acts. logger_loop ll reads lg = Ok (lg1, acts)"
proof (induction reads arbitrary: lg)
  case (Cons x reads)
  obtain le r where x: "x = (le, r)" by (cases x)
  show ?case
  proof (cases "lg_done lg = None")
    case True
    from logger_read_total [OF Cons.prems(1)] obtain lg1 acts1 where r1: "logger_read ll le r lg = Ok (lg1, acts1)" by blast
    note e = logger_read_effect [OF r1 Cons.prems(2) True]
    then have sup: "supplied lg1" using Cons.prems(1) by (blast intro: supplied_same)
    show ?thesis
    proof (cases "lg_socket lg1 = Bad_Socket")
      case True
      with e have "logger_loop ll reads lg1 = Ok (lg1, [])" by (cases reads) auto
      with r1 x \<open>lg_done lg = None\<close> show ?thesis by simp
    next
      case False
      from Cons.IH [OF sup False] r1 x True show ?thesis by auto
    qed
  qed (use x in simp)
qed simp

definition on_linux :: "config_file \<Rightarrow> bool" where
  "on_linux f \<longleftrightarrow> (case f of Anonymous a b c \<Rightarrow> True | Plain e \<Rightarrow> False)"

lemma closed_config:
  "set closed \<subseteq> {Close_Config} \<Longrightarrow> files_open closed = 0 \<and> sockets_open closed = 0"
  by (induction closed) (auto simp: sink_defs)

lemma logger_create_linux:
  assumes "\<forall>s. on_linux (file s)" and "lf_filename fl \<noteq> None"
  shows "(\<exists>e closed. logger_create ll file page fl = Ok (Inl (e, closed)) \<and> set closed \<subseteq> {Close_Config}) \<or>
    (\<exists>config. logger_create ll file page fl = Ok (Inr (logger_new fl config)) \<and> (to_files fl \<longrightarrow> config \<noteq> None))"
proof (cases "to_files fl")
  case True
  from assms(2) obtain f where "lf_filename fl = Some f" by blast
  with True assms(1) [rule_format, of "logrotate_config ll page f fl"] show ?thesis
    by (auto simp: logger_create_def on_linux_def split: config_file.splits sum.splits option.splits)
qed (rule disjI2, rule exI [where x = None], simp add: logger_create_def)

lemma logger_main_clean:
  assumes "flags_valid page absolute runs fl" and "\<forall>s. on_linux (su_file su s)"
    and "\<forall>(le, r)\<in>set reads. le_socket le = None"
  shows "\<exists>st acts. logger_main ll page su (Some fl) reads = Ok (st, acts) \<and>
    (st \<noteq> None \<longrightarrow> files_open acts = 0 \<and> sockets_open acts = 0)"
proof -
  from assms(1) obtain f where f: "lf_filename fl = Some f" and ip: "lf_fluentbit_ip fl \<noteq> None"
    by (auto simp: flags_valid_def valid_filename_def valid_fluentbit_ip_def split: option.splits)
  show ?thesis
  proof (cases "su_chdir su (ll_dirname ll f) \<and> (case lf_user fl of None \<Rightarrow> True | Some u \<Rightarrow> su_user su u)")
    case False
    with f show ?thesis by (auto simp: logger_main_def split: option.splits)
  next
    case go: True
    from f logger_create_linux [OF assms(2), of fl ll page]
    consider e closed where "logger_create ll (su_file su) page fl = Ok (Inl (e, closed))" "set closed \<subseteq> {Close_Config}"
      | config where "logger_create ll (su_file su) page fl = Ok (Inr (logger_new fl config))" "to_files fl \<longrightarrow> config \<noteq> None"
      by auto
    then show ?thesis
    proof cases
      case 1
      from closed_config [OF 1(2)] have "files_open closed = 0 \<and> sockets_open closed = 0" .
      with 1 f go show ?thesis by (auto simp: logger_main_def split: option.splits)
    next
      case 2
      let ?lg = "prepare_labels ll (logger_new fl config)"
      from 2 f ip have sup: "supplied ?lg" and ns: "lg_socket ?lg = No_Socket" "lg_leading ?lg = False"
        by (simp_all add: supplied_def prepare_labels_def logger_new_def)
      then obtain lg1 acts where l: "logger_loop ll reads ?lg = Ok (lg1, acts)"
        using logger_loop_total [of ?lg ll reads] by auto
      with logger_loop_effect [OF l] ns assms(3)
      have e: "files_open acts = leading_count lg1" "sockets_open acts = socket_count lg1" "lg_socket lg1 \<noteq> Bad_Socket"
        by (auto simp: leading_count_def socket_count_def)
      have "\<exists>closed. logger_destroy lg = Ok closed \<and> files_open closed = - leading_count lg \<and>
          sockets_open closed = - socket_count lg" if "lg_socket lg \<noteq> Bad_Socket" for lg
        using that by (cases "lg_socket lg") (auto simp: logger_destroy_def sink_defs leading_count_def socket_count_def)
      from this [OF e(3)] this [of ?lg] e l 2 f go ns show ?thesis
        by (auto simp: logger_main_def logger_run_def Let_def leading_count_def socket_count_def split: option.splits)
    qed
  qed
qed

text \<open>
  C23: On Linux, with flags that pass validation and as long as sockets can be created, the process
  never aborts: it waits for input or exits with a status, whatever the files, the configuration,
  the connection and the input do; and when it exits every log file and every socket it opened has
  been closed.
\<close>

theorem logger_exits_cleanly:
  assumes "flags_valid page absolute runs fl" and "\<forall>s. on_linux (su_file su s)"
    and "\<forall>(le, r)\<in>set reads. le_socket le = None"
  shows "\<exists>st acts. logger_main ll page su (Some fl) reads = Ok (st, acts) \<and>
    (st \<noteq> None \<longrightarrow> files_open acts = 0 \<and> sockets_open acts = 0)"
  using assms by (rule logger_main_clean)

definition su9 :: startup where
  "su9 = \<lparr>su_chdir = (\<lambda>d. True), su_user = (\<lambda>u. True), su_file = (\<lambda>c. Anonymous (Inr 5) None None), su_async = None\<rparr>"

definition no_space9 :: logger_env where
  "no_space9 = \<lparr>le_open = Some ''ENOSPC'', le_socket = None, le_connect = None, le_write = (\<lambda>s. None)\<rparr>"

lemma no_space9_run:
  "case logger_main ll9 8 su9 (Some fl9) (reads9 @ [(no_space9, F_Ready ''ijkl'')]) of
     Ok (st, acts) \<Rightarrow> st = Some False \<and> Open_File ''/f'' \<in> set acts | _ \<Rightarrow> False"
  by code_simp

theorem logger_exits_cleanly_witness:
  "\<exists>acts. logger_main ll9 8 su9 (Some fl9) (reads9 @ [(no_space9, F_Ready ''ijkl'')]) = Ok (Some False, acts) \<and>
     Open_File ''/f'' \<in> set acts \<and> files_open acts = 0"
proof -
  have v: "flags_valid 8 (\<lambda>f. True) (\<lambda>c. True) fl9"
    by (simp add: flags_valid_def fl9_def valid_destination_def valid_max_size_def valid_filename_def
        valid_logrotate_def valid_fluentbit_ip_def)
  have "\<forall>s. on_linux (su_file su9 s)" by (simp add: su9_def on_linux_def)
  from logger_exits_cleanly [OF v this, of "reads9 @ [(no_space9, F_Ready ''ijkl'')]" ll9] no_space9_run show ?thesis
    by (auto simp: reads9_def le9_def no_space9_def split: res.splits)
qed

text \<open>
  The two ways to abort that the assumptions exclude: a socket that could not be created is kept as
  an error, which the destructor dereferences; and off Linux the path of the configuration file is
  never set, so the first rotation dereferences an empty option.
\<close>

lemma socket_failure_aborts:
  "logger_main ll9 8 su9 (Some (fl9\<lparr>lf_destination := ''fluentbit''\<rparr>))
     [(le9\<lparr>le_socket := Some ''EMFILE''\<rparr>, F_Ready ''ab'')] = Crash Option_None"
  by code_simp

lemma rotation_aborts_off_linux:
  "logger_main ll9 8 (su9\<lparr>su_file := (\<lambda>c. Plain None)\<rparr>) (Some fl9) (reads9 @ reads9) = Crash Option_None"
  by code_simp

end
