(* ===== verification/JournaldLib.thy ===== *)
theory JournaldLib
  imports JournaldLogger "HOL-Library.Sublist"
begin

text \<open>
  The container logger module (\<open>journald/lib_journald.cpp\<close>, \<open>journald/lib_journald.hpp\<close>): for each
  container it collects labels, creates two pipes and starts two companion processes, one for each
  output stream, whose flags and environment it computes. The model is of the Linux build.
\<close>

section \<open>Flags\<close>

record log_settings =            \<comment> \<open>\<open>LoggerFlags\<close>: what a container may override\<close>
  ls_destination :: string
  ls_max_stdout :: u64
  ls_stdout_options :: "string option"
  ls_max_stderr :: u64
  ls_stderr_options :: "string option"
  ls_extra :: "(string \<times> string option) list"   \<comment> \<open>the values, where they are strings\<close>

record module_flags = log_settings +   \<comment> \<open>\<open>Flags\<close>\<close>
  mf_prefix :: string
  mf_companion_dir :: string
  mf_logrotate :: string
  mf_max_payload :: u64
  mf_threads :: u64
  mf_fluentbit_ip :: "ip option"
  mf_fluentbit_port :: int

definition valid_size :: "u64 \<Rightarrow> u64 \<Rightarrow> bool" where
  "valid_size page v \<longleftrightarrow> \<not> v < page"

definition settings_valid :: "u64 \<Rightarrow> 'a log_settings_scheme \<Rightarrow> bool" where
  "settings_valid page ls \<longleftrightarrow>
     valid_destination (ls_destination ls) \<and> valid_size page (ls_max_stdout ls) \<and> valid_size page (ls_max_stderr ls)"

definition NAME :: string where "NAME = ''mesos-journald-logger''"

definition valid_companion_dir :: "(string \<Rightarrow> string \<Rightarrow> string) \<Rightarrow> (string \<Rightarrow> bool) \<Rightarrow> string \<Rightarrow> bool" where
  \<comment> \<open>the first two arguments are \<open>path::join\<close> and \<open>os::exists\<close>\<close>
  "valid_companion_dir join exists v = exists (join v NAME)"

definition valid_payload :: "u64 \<Rightarrow> bool" where
  "valid_payload v \<longleftrightarrow> \<not> v > 1024 * 1024"

definition valid_threads :: "u64 \<Rightarrow> bool" where
  "valid_threads v \<longleftrightarrow> \<not> v < 1"

definition module_valid ::
  "u64 \<Rightarrow> (string \<Rightarrow> string \<Rightarrow> string) \<Rightarrow> (string \<Rightarrow> bool) \<Rightarrow> (string \<Rightarrow> bool) \<Rightarrow> module_flags \<Rightarrow> bool" where
  "module_valid page join exists runs mf \<longleftrightarrow>
     settings_valid page mf \<and> valid_companion_dir join exists (mf_companion_dir mf) \<and>
     valid_logrotate runs (mf_logrotate mf) \<and> valid_payload (mf_max_payload mf) \<and>
     valid_threads (mf_threads mf) \<and> valid_fluentbit_ip (mf_fluentbit_ip mf)"

section \<open>Containers\<close>

record executor_info =
  ei_labels :: "label list"       \<comment> \<open>none if the message has no labels\<close>
  ei_framework :: "string option"
  ei_executor :: string
  ei_name :: "string option"

datatype container_class = DEFAULT | DEBUG

record container_config =
  cc_class :: "container_class option"
  cc_directory :: string
  cc_environment :: "(string \<times> string) list option"
  cc_executor :: "executor_info option"
  cc_user :: "string option"

datatype io = IO_Path string | IO_FD nat

record container_io =
  io_out :: io
  io_err :: io

text \<open>What the module uses of stout: the flags are loaded over their defaults from a map.\<close>

record container_lib =
  cl_join :: "string \<Rightarrow> string \<Rightarrow> string"
  cl_starts :: "string \<Rightarrow> string \<Rightarrow> bool"         \<comment> \<open>\<open>strings::startsWith\<close>: the string, the prefix\<close>
  cl_unprefix :: "string \<Rightarrow> string \<Rightarrow> string"     \<comment> \<open>\<open>strings::remove\<close> of a prefix\<close>
  cl_lower :: "string \<Rightarrow> string"
  cl_tokens :: "string \<Rightarrow> string list"
  cl_show :: "u64 \<Rightarrow> string"
  cl_json :: "label list \<Rightarrow> string"
  cl_load :: "log_settings \<Rightarrow> (string \<times> string) list \<Rightarrow> string + log_settings"

section \<open>The environment of a companion\<close>

definition inherit :: "container_lib \<Rightarrow> string \<times> string \<Rightarrow> (string \<times> string) list \<Rightarrow> (string \<times> string) list" where
  "inherit cl x e =
     (case x of (k, v) \<Rightarrow>
        if \<not> cl_starts cl k ''LIBPROCESS_'' \<and> \<not> cl_starts cl k ''MESOS_'' then hm_emplace e k v else e)"

definition companion_environment ::
  "container_lib \<Rightarrow> module_flags \<Rightarrow> (string \<times> string) list \<Rightarrow> (string \<times> string) list res" where
  \<comment> \<open>the third argument is \<open>os::environment\<close>\<close>
  "companion_environment cl mf env =
     (let inherited = fold (inherit cl) env [];
          e1 = hm_emplace inherited ''LIBPROCESS_IP'' ''127.0.0.1'' in
      if \<not> mf_threads mf > 0 then Crash Check_Failed
      else Ok (hm_put e1 ''LIBPROCESS_NUM_WORKER_THREADS'' (cl_show cl (mf_threads mf))))"

section \<open>Overrides\<close>

definition container_environment :: "container_lib \<Rightarrow> string \<Rightarrow> (string \<times> string) list \<Rightarrow> (string \<times> string) list" where
  "container_environment cl pre vars =
     fold (\<lambda>(name, v) e. if cl_starts cl name pre then hm_put e (cl_lower cl (cl_unprefix cl pre name)) v else e) vars []"

definition overridden :: "container_lib \<Rightarrow> module_flags \<Rightarrow> container_config \<Rightarrow> string + log_settings" where
  "overridden cl mf cc =
     (let ls = \<lparr>ls_destination = ls_destination mf, ls_max_stdout = ls_max_stdout mf, ls_stdout_options = None,
                ls_max_stderr = ls_max_stderr mf, ls_stderr_options = None, ls_extra = ls_extra mf\<rparr>;
          r = (case cc_environment cc of
                 None \<Rightarrow> Inr ls
               | Some vars \<Rightarrow> cl_load cl ls (container_environment cl (mf_prefix mf) vars)) in
      case r of
        Inl e \<Rightarrow> Inl (''Failed to load container logger settings: '' @ e)
      | Inr ls' \<Rightarrow> Inr (ls'\<lparr>ls_stdout_options := ls_stdout_options mf, ls_stderr_options := ls_stderr_options mf\<rparr>))"

section \<open>Labels\<close>

definition LABEL_PADDING_SIZE :: u64 where
  "LABEL_PADDING_SIZE = of_nat (length ([CHR 0x7B, dquote] @ ''key'' @ [dquote, CHR 0x3A, dquote, dquote, CHR 0x2C, dquote] @
     ''value'' @ [dquote, CHR 0x3A, dquote, dquote, CHR 0x7D, CHR 0x2C]))"

definition label_size :: "label \<Rightarrow> u64" where
  "label_size lb = LABEL_PADDING_SIZE + of_nat (length (lb_key lb)) + of_nat (length (lb_value lb))"

fun copy_labels :: "u64 \<Rightarrow> u64 \<Rightarrow> label list \<Rightarrow> label list \<times> u64" where
  \<comment> \<open>the loop over the labels of the executor: the limit, \<open>totalSize\<close>\<close>
  "copy_labels limit size0 [] = ([], size0)"
| "copy_labels limit size0 (lb # lbs) =
     (let size' = size0 + label_size lb in
      if size' > limit then ([], size')
      else (case copy_labels limit size' lbs of (copied, t) \<Rightarrow> (lb # copied, t)))"

fun copy_extra :: "u64 \<Rightarrow> u64 \<Rightarrow> (string \<times> string option) list \<Rightarrow> label list" where
  "copy_extra limit size0 [] = []"
| "copy_extra limit size0 ((k, v) # kvs) =
     (case v of
        None \<Rightarrow> copy_extra limit size0 kvs
      | Some s \<Rightarrow>
          (let size' = size0 + LABEL_PADDING_SIZE + of_nat (length k) + of_nat (length s) in
           if size' > limit then [] else \<lparr>lb_key = k, lb_value = s\<rparr> # copy_extra limit size' kvs))"

definition arbitrary_labels :: "u64 \<Rightarrow> executor_info option \<Rightarrow> (string \<times> string option) list \<Rightarrow> label list" where
  "arbitrary_labels limit ex extra =
     (case copy_labels limit 0 (case ex of None \<Rightarrow> [] | Some ei \<Rightarrow> ei_labels ei) of
        (copied, size0) \<Rightarrow> copied @ copy_extra limit size0 extra)"

fun scan_agent :: "string list \<Rightarrow> nat \<Rightarrow> string option \<Rightarrow> string option" where
  \<comment> \<open>the loop over the tokens of the sandbox directory; \<open>i\<close> is the index plus two\<close>
  "scan_agent tokens 0 found = found"
| "scan_agent tokens (Suc 0) found = found"
| "scan_agent tokens (Suc (Suc i)) found =
     scan_agent tokens i (if tokens ! i = ''slaves'' then Some (tokens ! (i + 1)) else found)"

definition agent_id :: "string list \<Rightarrow> string option" where
  "agent_id tokens = scan_agent tokens (length tokens) None"

definition mk_label :: "string \<Rightarrow> string \<Rightarrow> label" where
  "mk_label k v = \<lparr>lb_key = k, lb_value = v\<rparr>"

definition opt_label :: "string \<Rightarrow> string option \<Rightarrow> label list" where
  "opt_label k v = (case v of None \<Rightarrow> [] | Some s \<Rightarrow> [mk_label k s])"

definition identity_labels :: "container_lib \<Rightarrow> string \<Rightarrow> container_config \<Rightarrow> label list" where
  "identity_labels cl containerId cc =
     (let ex = cc_executor cc in
      opt_label ''FRAMEWORK_ID'' (case ex of None \<Rightarrow> None | Some ei \<Rightarrow> ei_framework ei) @
      opt_label ''EXECUTOR_ID'' (case ex of None \<Rightarrow> None | Some ei \<Rightarrow> Some (ei_executor ei)) @
      opt_label ''AGENT_ID'' (agent_id (cl_tokens cl (cc_directory cc))) @
      [mk_label ''CONTAINER_ID'' containerId,
       mk_label ''SYSLOG_IDENTIFIER''
         (case ex of
            None \<Rightarrow> ''mesos-container''
          | Some ei \<Rightarrow> (case ei_name ei of None \<Rightarrow> ei_executor ei | Some n \<Rightarrow> n))])"

definition container_labels :: "container_lib \<Rightarrow> module_flags \<Rightarrow> log_settings \<Rightarrow> string \<Rightarrow> container_config \<Rightarrow> label list" where
  "container_labels cl mf ls containerId cc =
     arbitrary_labels (mf_max_payload mf) (cc_executor cc) (ls_extra ls) @ identity_labels cl containerId cc"

section \<open>The companions\<close>

record companion_flags =
  cf_destination :: string
  cf_labels :: string
  cf_max_size :: u64
  cf_options :: "string option"
  cf_filename :: string
  cf_logrotate :: string
  cf_user :: "string option"
  cf_fluentbit_ip :: "ip option"
  cf_fluentbit_port :: int

definition out_flags :: "container_lib \<Rightarrow> module_flags \<Rightarrow> log_settings \<Rightarrow> label list \<Rightarrow> container_config \<Rightarrow> companion_flags" where
  "out_flags cl mf ls labels cc =
     \<lparr>cf_destination = ls_destination ls, cf_labels = cl_json cl labels, cf_max_size = ls_max_stdout ls,
      cf_options = ls_stdout_options ls, cf_filename = cl_join cl (cc_directory cc) ''stdout'',
      cf_logrotate = mf_logrotate mf, cf_user = cc_user cc,
      cf_fluentbit_ip = mf_fluentbit_ip mf, cf_fluentbit_port = mf_fluentbit_port mf\<rparr>"

definition err_flags :: "container_lib \<Rightarrow> module_flags \<Rightarrow> log_settings \<Rightarrow> label list \<Rightarrow> container_config \<Rightarrow> companion_flags" where
  "err_flags cl mf ls labels cc =
     \<lparr>cf_destination = ls_destination ls, cf_labels = cl_json cl labels, cf_max_size = ls_max_stderr ls,
      cf_options = ls_stderr_options ls, cf_filename = cl_join cl (cc_directory cc) ''stderr'',
      cf_logrotate = mf_logrotate mf, cf_user = cc_user cc,
      cf_fluentbit_ip = mf_fluentbit_ip mf, cf_fluentbit_port = mf_fluentbit_port mf\<rparr>"

text \<open>
  What the system answers: each pipe gives its two ends or an error, each subprocess its process id
  or an error. A subprocess takes the end it reads from over, also when it is not created.
\<close>

record prepare_env =
  pe_environment :: "(string \<times> string) list"
  pe_pipe1 :: "string + nat \<times> nat"
  pe_spawn1 :: "string + nat"
  pe_pipe2 :: "string + nat \<times> nat"
  pe_spawn2 :: "string + nat"

datatype prepare_action =
    P_Pipe nat nat
  | P_Spawn string nat companion_flags "(string \<times> string) list" "nat option"
  | P_Close nat
  | P_Kill nat

definition spawned :: "string + nat \<Rightarrow> nat option" where
  "spawned r = (case r of Inl e \<Rightarrow> None | Inr pid \<Rightarrow> Some pid)"

definition prepare_err ::
  "container_lib \<Rightarrow> prepare_env \<Rightarrow> module_flags \<Rightarrow> log_settings \<Rightarrow> label list \<Rightarrow> container_config \<Rightarrow>
   (string \<times> string) list \<Rightarrow> nat \<Rightarrow> nat \<Rightarrow> prepare_action list \<times> container_io future" where
  \<comment> \<open>the second half: the labels with the \<open>STREAM\<close> of standard output, its write end and its companion\<close>
  "prepare_err cl pe mf ls labels cc environment outfd outpid =
     (case pe_pipe2 pe of
        Inl e \<Rightarrow> ([P_Close outfd, P_Kill outpid], F_Failed (''Failed to create pipe: '' @ e))
      | Inr (r, w) \<Rightarrow>
          (let labels' = butlast labels @ [mk_label ''STREAM'' ''STDERR''];
               spawn = P_Spawn (cl_join cl (mf_companion_dir mf) NAME) r (err_flags cl mf ls labels' cc) environment
                         (spawned (pe_spawn2 pe)) in
           case pe_spawn2 pe of
             Inl e \<Rightarrow>
               ([P_Pipe r w, spawn, P_Close outfd, P_Close w, P_Kill outpid],
                F_Failed (''Failed to create logger process: '' @ e))
           | Inr pid \<Rightarrow> ([P_Pipe r w, spawn], F_Ready \<lparr>io_out = IO_FD outfd, io_err = IO_FD w\<rparr>)))"

definition prepare_out ::
  "container_lib \<Rightarrow> prepare_env \<Rightarrow> module_flags \<Rightarrow> log_settings \<Rightarrow> label list \<Rightarrow> container_config \<Rightarrow>
   (string \<times> string) list \<Rightarrow> prepare_action list \<times> container_io future" where
  "prepare_out cl pe mf ls labels0 cc environment =
     (case pe_pipe1 pe of
        Inl e \<Rightarrow> ([], F_Failed (''Failed to create pipe: '' @ e))
      | Inr (r, w) \<Rightarrow>
          (let labels = labels0 @ [mk_label ''STREAM'' ''STDOUT''];
               spawn = P_Spawn (cl_join cl (mf_companion_dir mf) NAME) r (out_flags cl mf ls labels cc) environment
                         (spawned (pe_spawn1 pe)) in
           case pe_spawn1 pe of
             Inl e \<Rightarrow> ([P_Pipe r w, spawn, P_Close w], F_Failed (''Failed to create logger process: '' @ e))
           | Inr pid \<Rightarrow>
               (case prepare_err cl pe mf ls labels cc environment w pid of
                  (acts, io) \<Rightarrow> (P_Pipe r w # spawn # acts, io))))"

definition prepare ::
  "container_lib \<Rightarrow> prepare_env \<Rightarrow> module_flags \<Rightarrow> string \<Rightarrow> container_config \<Rightarrow>
   (prepare_action list \<times> container_io future) res" where
  "prepare cl pe mf containerId cc =
     (if cc_class cc = Some DEBUG then
        Ok ([], F_Ready \<lparr>io_out = IO_Path (cl_join cl (cc_directory cc) ''stdout''),
                         io_err = IO_Path (cl_join cl (cc_directory cc) ''stderr'')\<rparr>)
      else
        bind_res (companion_environment cl mf (pe_environment pe)) (\<lambda>environment.
          case overridden cl mf cc of
            Inl e \<Rightarrow> Ok ([], F_Failed e)
          | Inr ls \<Rightarrow>
              Ok (prepare_out cl pe mf ls (container_labels cl mf ls containerId cc) cc environment)))"

section \<open>The module\<close>

definition create_container_logger ::
  "((string \<times> string) list \<Rightarrow> string + module_flags) \<Rightarrow> (string \<times> string) list \<Rightarrow> module_flags option" where
  \<comment> \<open>the creation function of the module: \<open>None\<close> is a null pointer\<close>
  "create_container_logger load parameters =
     (case load (fold (\<lambda>(k, v) m. hm_put m k v) parameters []) of
        Inl e \<Rightarrow> None
      | Inr mf \<Rightarrow> Some mf)"

section \<open>The payload of the labels\<close>

text \<open>The reference: as many labels as fit, in order, counted in natural numbers.\<close>

definition label_bytes :: "label \<Rightarrow> nat" where
  "label_bytes lb = 22 + length (lb_key lb) + length (lb_value lb)"

definition payload :: "label list \<Rightarrow> nat" where
  "payload lbs = sum_list (map label_bytes lbs)"

fun fitting :: "nat \<Rightarrow> label list \<Rightarrow> label list" where
  "fitting budget [] = []"
| "fitting budget (lb # lbs) =
     (if label_bytes lb > budget then [] else lb # fitting (budget - label_bytes lb) lbs)"

definition extra_candidates :: "(string \<times> string option) list \<Rightarrow> label list" where
  "extra_candidates kvs = concat (map (\<lambda>(k, v). opt_label k v) kvs)"

definition candidates :: "executor_info option \<Rightarrow> (string \<times> string option) list \<Rightarrow> label list" where
  "candidates ex extra = (case ex of None \<Rightarrow> [] | Some ei \<Rightarrow> ei_labels ei) @ extra_candidates extra"

lemma fitting_prefix: "prefix (fitting b lbs) lbs"
  by (induction b lbs rule: fitting.induct) auto

lemma fitting_payload: "payload (fitting b lbs) \<le> b"
  by (induction b lbs rule: fitting.induct) (auto simp: payload_def)

lemma fitting_maximal: "fitting b lbs \<noteq> lbs \<Longrightarrow> b < payload (take (Suc (length (fitting b lbs))) lbs)"
  by (induction b lbs rule: fitting.induct) (auto simp: payload_def split: if_splits)

lemma padding: "LABEL_PADDING_SIZE = 22"
  by (simp add: LABEL_PADDING_SIZE_def)

lemma label_size_no_wrap:
  assumes "unat t < 2 ^ 63" and "label_bytes lb < 2 ^ 62"
  shows "unat (t + label_size lb) = unat t + label_bytes lb"
proof -
  have l: "unat (of_nat (length (lb_key lb)) :: u64) = length (lb_key lb)"
    "unat (of_nat (length (lb_value lb)) :: u64) = length (lb_value lb)"
    using assms(2) by (simp_all add: label_bytes_def unat_of_nat)
  have p: "unat (22 + of_nat (length (lb_key lb)) :: u64) = 22 + length (lb_key lb)"
    using assms(2) l by (simp add: label_bytes_def unat_plus_if')
  have "unat (label_size lb) = label_bytes lb"
    using assms(2) l p by (simp add: label_size_def padding label_bytes_def unat_plus_if')
  with assms show ?thesis by (simp add: unat_plus_if')
qed

lemma label_size_mk: "t + LABEL_PADDING_SIZE + of_nat (length k) + of_nat (length s) = t + label_size (mk_label k s)"
  by (simp add: label_size_def mk_label_def add_ac)

lemma copy_extra_over:
  assumes "unat limit < unat t" "unat t < 2 ^ 63" "\<forall>lb\<in>set (extra_candidates kvs). label_bytes lb < 2 ^ 62"
  shows "copy_extra limit t kvs = []"
  using assms
proof (induction kvs)
  case (Cons kv kvs)
  obtain k v where kv: "kv = (k, v)" by (cases kv)
  show ?case
  proof (cases v)
    case None
    with Cons kv show ?thesis by (simp add: extra_candidates_def opt_label_def)
  next
    case (Some s)
    with Cons.prems(3) kv have "label_bytes (mk_label k s) < 2 ^ 62" by (simp add: extra_candidates_def opt_label_def)
    from label_size_no_wrap [OF Cons.prems(2) this] Cons.prems(1) Some kv show ?thesis
      by (simp add: Let_def label_size_mk word_less_nat_alt)
  qed
qed simp

lemma copy_extra_fitting:
  assumes "unat t \<le> unat limit" "unat limit < 2 ^ 62" "\<forall>lb\<in>set (extra_candidates kvs). label_bytes lb < 2 ^ 62"
  shows "copy_extra limit t kvs = fitting (unat limit - unat t) (extra_candidates kvs)"
  using assms
proof (induction kvs arbitrary: t)
  case (Cons kv kvs)
  obtain k v where kv: "kv = (k, v)" by (cases kv)
  show ?case
  proof (cases v)
    case None
    with Cons kv show ?thesis by (simp add: extra_candidates_def opt_label_def)
  next
    case (Some s)
    with Cons.prems(3) kv have b: "label_bytes (mk_label k s) < 2 ^ 62" by (simp add: extra_candidates_def opt_label_def)
    have n: "unat (t + label_size (mk_label k s)) = unat t + label_bytes (mk_label k s)"
      using Cons.prems by (intro label_size_no_wrap b) simp
    show ?thesis
      using n Cons.prems Cons.IH [of "t + label_size (mk_label k s)"] Some kv
      by (auto simp: Let_def label_size_mk word_less_nat_alt extra_candidates_def opt_label_def mk_label_def)
  qed
qed (simp add: extra_candidates_def)

lemma copy_labels_fitting:
  assumes "unat t \<le> unat limit" "unat limit < 2 ^ 62"
    and "\<forall>lb\<in>set (lbs @ extra_candidates kvs). label_bytes lb < 2 ^ 62"
  shows "(case copy_labels limit t lbs of (copied, t') \<Rightarrow> copied @ copy_extra limit t' kvs) =
    fitting (unat limit - unat t) (lbs @ extra_candidates kvs)"
  using assms
proof (induction lbs arbitrary: t)
  case Nil
  then show ?case by (simp add: copy_extra_fitting)
next
  case (Cons lb lbs)
  from Cons.prems have n: "unat (t + label_size lb) = unat t + label_bytes lb"
    by (intro label_size_no_wrap) auto
  show ?case
  proof (cases "t + label_size lb > limit")
    case True
    moreover have "copy_extra limit (t + label_size lb) kvs = []"
      using True n Cons.prems by (intro copy_extra_over) (auto simp: word_less_nat_alt)
    ultimately show ?thesis using n Cons.prems(1) by (auto simp: Let_def word_less_nat_alt)
  next
    case False
    with n Cons.prems Cons.IH [of "t + label_size lb"] show ?thesis
      by (auto simp: Let_def word_less_nat_alt split: prod.splits)
  qed
qed

text \<open>
  C20: The two loops with their 64-bit sum copy exactly the longest run of labels, first those of the
  executor and then the extra ones with a string value, whose serialized size stays within the
  limit: nothing after the first label that does not fit is copied, and the payload is at most the
  limit, so at most a megabyte.
\<close>

theorem labels_fit:
  assumes "valid_payload limit" and "\<forall>lb\<in>set (candidates ex extra). label_bytes lb < 2 ^ 62"
  shows "arbitrary_labels limit ex extra = fitting (unat limit) (candidates ex extra) \<and>
    prefix (arbitrary_labels limit ex extra) (candidates ex extra) \<and>
    payload (arbitrary_labels limit ex extra) \<le> unat limit \<and>
    (arbitrary_labels limit ex extra \<noteq> candidates ex extra \<longrightarrow>
       unat limit < payload (take (Suc (length (arbitrary_labels limit ex extra))) (candidates ex extra))) \<and>
    unat limit \<le> 2 ^ 20"
proof -
  from assms(1) have l: "unat limit \<le> 2 ^ 20" by (simp add: valid_payload_def not_less word_le_nat_alt)
  have "arbitrary_labels limit ex extra = fitting (unat limit) (candidates ex extra)"
    using copy_labels_fitting [of 0 limit "case ex of None \<Rightarrow> [] | Some ei \<Rightarrow> ei_labels ei" extra] l assms(2)
    by (simp add: arbitrary_labels_def candidates_def)
  with l fitting_prefix fitting_payload fitting_maximal show ?thesis by metis
qed

definition ei9 :: executor_info where
  "ei9 = \<lparr>ei_labels = [mk_label ''a'' ''b'', mk_label ''cc'' ''dd''], ei_framework = None, ei_executor = ''e'', ei_name = None\<rparr>"

theorem labels_fit_witness:
  "valid_payload 60 \<and>
   arbitrary_labels 60 (Some ei9) [(''n'', None), (''x'', Some ''y''), (''z'', Some [])] = ei_labels ei9"
proof -
  have v: "valid_payload 60" by (simp add: valid_payload_def)
  have "\<forall>lb\<in>set (candidates (Some ei9) [(''n'', None), (''x'', Some ''y''), (''z'', Some [])]). label_bytes lb < 2 ^ 62"
    by (simp add: candidates_def extra_candidates_def ei9_def opt_label_def mk_label_def label_bytes_def)
  from labels_fit [OF v this] v show ?thesis
    by (simp add: candidates_def extra_candidates_def ei9_def opt_label_def mk_label_def label_bytes_def)
qed

section \<open>Descriptors and processes\<close>

definition pipe_reads :: "prepare_action list \<Rightarrow> nat list" where
  "pipe_reads acts = concat (map (\<lambda>a. case a of P_Pipe r w \<Rightarrow> [r] | _ \<Rightarrow> []) acts)"

definition pipe_writes :: "prepare_action list \<Rightarrow> nat list" where
  "pipe_writes acts = concat (map (\<lambda>a. case a of P_Pipe r w \<Rightarrow> [w] | _ \<Rightarrow> []) acts)"

definition handed :: "prepare_action list \<Rightarrow> nat list" where
  "handed acts = concat (map (\<lambda>a. case a of P_Spawn p r cf env pid \<Rightarrow> [r] | _ \<Rightarrow> []) acts)"

definition started :: "prepare_action list \<Rightarrow> nat list" where
  "started acts = concat (map (\<lambda>a. case a of P_Spawn p r cf env (Some pid) \<Rightarrow> [pid] | _ \<Rightarrow> []) acts)"

definition closed :: "prepare_action list \<Rightarrow> nat list" where
  "closed acts = concat (map (\<lambda>a. case a of P_Close fd \<Rightarrow> [fd] | _ \<Rightarrow> []) acts)"

definition killed :: "prepare_action list \<Rightarrow> nat list" where
  "killed acts = concat (map (\<lambda>a. case a of P_Kill pid \<Rightarrow> [pid] | _ \<Rightarrow> []) acts)"

lemmas resource_defs = pipe_reads_def pipe_writes_def handed_def started_def closed_def killed_def

lemma companion_environment_total:
  "valid_threads (mf_threads mf) \<Longrightarrow> \<exists>e. companion_environment cl mf env = Ok e"
  by (auto simp: companion_environment_def valid_threads_def Let_def word_less_nat_alt unat_gt_0 not_less linorder_not_less)

definition nothing_leaks :: "prepare_action list \<Rightarrow> container_io future \<Rightarrow> bool" where
  "nothing_leaks acts io \<longleftrightarrow> handed acts = pipe_reads acts \<and>
     (case io of
        F_Ready x \<Rightarrow> closed acts = [] \<and> killed acts = [] \<and>
          (acts = [] \<or> length (started acts) = 2 \<and> (\<exists>w w'. x = \<lparr>io_out = IO_FD w, io_err = IO_FD w'\<rparr> \<and> pipe_writes acts = [w, w']))
      | _ \<Rightarrow> closed acts = pipe_writes acts \<and> killed acts = started acts)"

lemma prepare_out_leaks:
  "nothing_leaks (fst (prepare_out cl pe mf ls labels cc environment)) (snd (prepare_out cl pe mf ls labels cc environment))"
  by (auto simp: nothing_leaks_def prepare_out_def prepare_err_def resource_defs spawned_def Let_def split: sum.splits prod.splits)

text \<open>
  C19: Preparing a container never aborts, and leaks nothing whatever fails: the read end of every
  pipe is handed to a subprocess; if it succeeds with companions both run, nothing was closed or
  killed and the write ends of the two pipes are the output and the error stream in that order; if it
  fails every write end has been closed and every companion that was started has been killed.
\<close>

theorem prepare_leaks_nothing:
  assumes "valid_threads (mf_threads mf)"
  shows "\<exists>acts io. prepare cl pe mf containerId cc = Ok (acts, io) \<and> nothing_leaks acts io"
proof -
  obtain e where "companion_environment cl mf (pe_environment pe) = Ok e"
    using companion_environment_total [OF assms] by blast
  moreover have "nothing_leaks [] (F_Failed m)" "nothing_leaks [] (F_Ready x)" for m x
    by (simp_all add: nothing_leaks_def resource_defs)
  moreover have "\<exists>acts io. prepare_out cl pe mf ls labels cc e = (acts, io) \<and> nothing_leaks acts io" for ls labels
    using prepare_out_leaks [of cl pe mf ls labels cc e] by (cases "prepare_out cl pe mf ls labels cc e") auto
  ultimately show ?thesis
    by (simp add: prepare_def split: sum.split)
qed

section \<open>What a companion is given\<close>

definition companion_loaded :: "(string \<Rightarrow> label list option) \<Rightarrow> companion_flags \<Rightarrow> logger_flags option" where
  \<comment> \<open>the companion's own flags, as it loads them from its command line\<close>
  "companion_loaded parse cf =
     map_option (\<lambda>lbs. \<lparr>lf_destination = cf_destination cf, lf_labels = lbs, lf_max_size = cf_max_size cf,
         lf_options = cf_options cf, lf_filename = Some (cf_filename cf), lf_logrotate = cf_logrotate cf,
         lf_user = cf_user cf, lf_fluentbit_ip = cf_fluentbit_ip cf, lf_fluentbit_port = cf_fluentbit_port cf\<rparr>)
       (parse_labels parse (Some (cf_labels cf)))"

definition reserved_name :: "string \<Rightarrow> bool" where
  "reserved_name k \<longleftrightarrow> prefix ''LIBPROCESS_'' k \<or> prefix ''MESOS_'' k"

text \<open>
  What the module relies on, as stout documents it: flags that load have passed their validators,
  prefixes are recognised, paths below an absolute directory are absolute, and labels survive their
  serialization.
\<close>

locale container_module =
  fixes cl :: container_lib and page :: u64 and absolute :: "string \<Rightarrow> bool" and parse :: "string \<Rightarrow> label list option"
  assumes load_valid: "cl_load cl ls vars = Inr ls' \<Longrightarrow> settings_valid page ls'"
    and starts_prefix: "cl_starts cl s p = prefix p s"
    and join_absolute: "absolute d \<Longrightarrow> absolute (cl_join cl d f)"
    and parse_json: "parse (cl_json cl lbs) = Some lbs"
begin

lemma fold_inherited:
  assumes "\<forall>k v. map_of e0 k = Some v \<longrightarrow> \<not> reserved_name k"
  shows "\<forall>k v. map_of (fold (inherit cl) env e0) k = Some v \<longrightarrow> \<not> reserved_name k"
  using assms
proof (induction env arbitrary: e0)
  case (Cons x env)
  have "\<forall>k v. map_of (inherit cl x e0) k = Some v \<longrightarrow> \<not> reserved_name k"
    using Cons.prems by (auto simp: inherit_def reserved_name_def starts_prefix hm_simps split: prod.splits if_splits)
  from Cons.IH [OF this] show ?case by simp
qed simp

lemma environment_reserved:
  assumes "companion_environment cl mf env = Ok e" and "map_of e k = Some v" and "reserved_name k"
  shows "k = ''LIBPROCESS_IP'' \<and> v = ''127.0.0.1'' \<or> k = ''LIBPROCESS_NUM_WORKER_THREADS'' \<and> v = cl_show cl (mf_threads mf)"
  using assms fold_inherited [of "[]" env]
  by (auto simp: companion_environment_def Let_def hm_simps split: if_splits)

lemma overridden_valid:
  assumes "settings_valid page mf" and "overridden cl mf cc = Inr ls"
  shows "settings_valid page ls \<and> ls_stdout_options ls = ls_stdout_options mf \<and> ls_stderr_options ls = ls_stderr_options mf"
  using assms
  by (auto simp: overridden_def Let_def settings_valid_def dest: load_valid split: option.splits sum.splits)

lemma companion_valid:
  assumes "module_valid page join exists runs mf" and "absolute (cc_directory cc)" and "overridden cl mf cc = Inr ls"
    and "cf = out_flags cl mf ls labels cc \<or> cf = err_flags cl mf ls labels cc"
  shows "\<exists>fl. companion_loaded parse cf = Some fl \<and> flags_valid page absolute runs fl \<and>
    lf_options fl \<in> {ls_stdout_options mf, ls_stderr_options mf} \<and> lf_logrotate fl = mf_logrotate mf \<and> lf_labels fl = labels"
proof -
  from assms(1) have mv: "settings_valid page mf" "valid_logrotate runs (mf_logrotate mf)" "valid_fluentbit_ip (mf_fluentbit_ip mf)"
    by (simp_all add: module_valid_def)
  from assms(4) overridden_valid [OF mv(1) assms(3)] mv(2,3) assms(2) join_absolute show ?thesis
    by (auto simp: out_flags_def err_flags_def companion_loaded_def parse_labels_def flags_valid_def parse_json
        settings_valid_def valid_filename_def valid_max_size_def valid_size_def)
qed

end

definition stream_label :: "string \<Rightarrow> label" where
  "stream_label s = mk_label ''STREAM'' s"

lemma prepare_out_spawns:
  assumes "P_Spawn path r cf env pid \<in> set (fst (prepare_out cl pe mf ls labels cc environment))"
  shows "env = environment \<and> path = cl_join cl (mf_companion_dir mf) NAME \<and>
    (cf = out_flags cl mf ls (labels @ [stream_label ''STDOUT'']) cc \<or>
     cf = err_flags cl mf ls (labels @ [stream_label ''STDERR'']) cc)"
  using assms
  by (auto simp: prepare_out_def prepare_err_def Let_def stream_label_def split: sum.splits prod.splits)

lemma prepare_spawns:
  assumes "prepare cl pe mf containerId cc = Ok (acts, io)" and "P_Spawn path r cf env pid \<in> set acts"
  obtains ls where "companion_environment cl mf (pe_environment pe) = Ok env" "overridden cl mf cc = Inr ls"
    "path = cl_join cl (mf_companion_dir mf) NAME"
    "cf = out_flags cl mf ls (container_labels cl mf ls containerId cc @ [stream_label ''STDOUT'']) cc \<or>
     cf = err_flags cl mf ls (container_labels cl mf ls containerId cc @ [stream_label ''STDERR'']) cc"
proof -
  from assms obtain e ls where e: "companion_environment cl mf (pe_environment pe) = Ok e" "overridden cl mf cc = Inr ls"
    and p: "prepare_out cl pe mf ls (container_labels cl mf ls containerId cc) cc e = (acts, io)"
    by (cases "overridden cl mf cc") (auto simp: prepare_def bind_res_Ok_iff split: if_splits)
  from assms(2) p have "P_Spawn path r cf env pid \<in>
      set (fst (prepare_out cl pe mf ls (container_labels cl mf ls containerId cc) cc e))" by simp
  from prepare_out_spawns [OF this] e that show thesis by auto
qed

text \<open>
  C18: Every companion that is started gets well-formed flags, which its own validation accepts,
  whatever the environment of the task overrides: the options inserted into the configuration of
  \<open>logrotate\<close> and the path of \<open>logrotate\<close> are those of the module, never the task's; the labels are
  those of the container and end with the stream; and of the variables reserved for Mesos and
  libprocess its environment has only the two that the module sets. So the companion never aborts on
  Linux as long as it can create sockets.
\<close>

theorem companions_well_formed:
  assumes "module_valid page join exists runs mf" and "container_module cl page absolute parse"
    and "absolute (cc_directory cc)"
    and "prepare cl pe mf containerId cc = Ok (acts, io)" and "P_Spawn path r cf env pid \<in> set acts"
  shows "\<exists>fl ls. overridden cl mf cc = Inr ls \<and> companion_loaded parse cf = Some fl \<and> flags_valid page absolute runs fl \<and>
    lf_options fl \<in> {ls_stdout_options mf, ls_stderr_options mf} \<and> lf_logrotate fl = mf_logrotate mf \<and>
    lf_labels fl \<in> {container_labels cl mf ls containerId cc @ [stream_label s] |s. s \<in> {''STDOUT'', ''STDERR''}} \<and>
    (\<forall>k v. map_of env k = Some v \<and> reserved_name k \<longrightarrow>
       k = ''LIBPROCESS_IP'' \<and> v = ''127.0.0.1'' \<or> k = ''LIBPROCESS_NUM_WORKER_THREADS'' \<and> v = cl_show cl (mf_threads mf)) \<and>
    (\<forall>ll su reads. (\<forall>s. on_linux (su_file su s)) \<and> (\<forall>(le, r)\<in>set reads. le_socket le = None) \<longrightarrow>
       (\<exists>st acts. logger_main ll page su (Some fl) reads = Ok (st, acts)))"
  using assms(4,5)
proof (rule prepare_spawns)
  fix ls
  assume e: "companion_environment cl mf (pe_environment pe) = Ok env" and o: "overridden cl mf cc = Inr ls"
    and f: "cf = out_flags cl mf ls (container_labels cl mf ls containerId cc @ [stream_label ''STDOUT'']) cc \<or>
     cf = err_flags cl mf ls (container_labels cl mf ls containerId cc @ [stream_label ''STDERR'']) cc"
  from f container_module.companion_valid [OF assms(2,1,3) o] obtain s fl where
    "companion_loaded parse cf = Some fl" "flags_valid page absolute runs fl"
    "lf_options fl \<in> {ls_stdout_options mf, ls_stderr_options mf}" "lf_logrotate fl = mf_logrotate mf"
    "lf_labels fl = container_labels cl mf ls containerId cc @ [stream_label s]" "s \<in> {''STDOUT'', ''STDERR''}" by blast
  with o container_module.environment_reserved [OF assms(2) e] logger_main_clean [OF \<open>flags_valid page absolute runs fl\<close>]
  show ?thesis by (intro exI [where x = fl] exI [where x = ls]) blast
qed

text \<open>A container whose environment overrides the destination and tries to set options of \<open>logrotate\<close>.\<close>

definition enc_str :: "string \<Rightarrow> string" where
  "enc_str s = concat (map (\<lambda>c. [CHR ''c'', c]) s) @ ''e''"

definition enc_labels :: "label list \<Rightarrow> string" where
  "enc_labels lbs = concat (map (\<lambda>lb. CHR ''l'' # enc_str (lb_key lb) @ enc_str (lb_value lb)) lbs)"

fun dec_str :: "string \<Rightarrow> string \<times> string" where
  "dec_str (a # c # r) = (if a = CHR ''e'' then ([], c # r) else (case dec_str r of (s, t) \<Rightarrow> (c # s, t)))"
| "dec_str _ = ([], [])"

fun dec_labels :: "nat \<Rightarrow> string \<Rightarrow> label list" where
  "dec_labels (Suc n) (x # s) =
     (case dec_str s of (k, r) \<Rightarrow> case dec_str r of (v, r') \<Rightarrow> \<lparr>lb_key = k, lb_value = v\<rparr> # dec_labels n r')"
| "dec_labels _ _ = []"

lemma dec_enc_str: "dec_str (enc_str s @ r) = (s, r)"
  by (induction s) (auto simp: enc_str_def, cases r, auto)

lemma dec_enc_labels: "length lbs \<le> n \<Longrightarrow> dec_labels n (enc_labels lbs) = lbs"
proof (induction lbs arbitrary: n)
  case (Cons lb lbs)
  then obtain m where "n = Suc m" "length lbs \<le> m" by (cases n) auto
  with Cons.IH show ?case by (simp add: enc_labels_def dec_enc_str)
qed (simp add: enc_labels_def)

lemma length_enc_labels: "length lbs \<le> length (enc_labels lbs)"
  by (induction lbs) (auto simp: enc_labels_def)

definition parse9 :: "string \<Rightarrow> label list option" where
  "parse9 s = Some (dec_labels (length s) s)"

definition absolute9 :: "string \<Rightarrow> bool" where
  "absolute9 f = (case f of [] \<Rightarrow> False | c # _ \<Rightarrow> c = CHR ''/'')"

definition cl9 :: container_lib where
  "cl9 = \<lparr>cl_join = (\<lambda>d f. d @ ''/'' @ f), cl_starts = (\<lambda>s p. prefix p s), cl_unprefix = (\<lambda>p s. drop (length p) s),
     cl_lower = (\<lambda>s. s), cl_tokens = ref_split CHR ''/'', cl_show = (\<lambda>n. ''8''), cl_json = enc_labels,
     cl_load = (\<lambda>ls vars.
       let ls1 = (case map_of vars ''destination_type'' of None \<Rightarrow> ls | Some d \<Rightarrow> ls\<lparr>ls_destination := d\<rparr>);
           ls2 = ls1\<lparr>ls_stdout_options := map_of vars ''logrotate_stdout_options''\<rparr>
       in if settings_valid 8 ls2 then Inr ls2 else Inl ''invalid'')\<rparr>"

definition mf9 :: module_flags where
  "mf9 = \<lparr>ls_destination = ''journald'', ls_max_stdout = 16, ls_stdout_options = Some ''rotate 9'', ls_max_stderr = 16,
     ls_stderr_options = None, ls_extra = [(''x'', Some ''y'')], mf_prefix = ''CL_'', mf_companion_dir = ''/bin'',
     mf_logrotate = ''logrotate'', mf_max_payload = 60, mf_threads = 8, mf_fluentbit_ip = Some (V4 0), mf_fluentbit_port = 24\<rparr>"

definition cc9 :: container_config where
  "cc9 = \<lparr>cc_class = None, cc_directory = ''/slaves/S1/a/b'',
     cc_environment = Some [(''CL_destination_type'', ''logrotate''), (''CL_logrotate_stdout_options'', ''postrotate evil'')],
     cc_executor = Some ei9, cc_user = None\<rparr>"

definition pe9 :: prepare_env where
  "pe9 = \<lparr>pe_environment = [(''PATH'', ''/bin''), (''MESOS_X'', ''1''), (''LIBPROCESS_IP'', ''10.0.0.1'')],
     pe_pipe1 = Inr (3, 4), pe_spawn1 = Inr 100, pe_pipe2 = Inr (5, 6), pe_spawn2 = Inr 101\<rparr>"

interpretation cl9: container_module cl9 8 absolute9 parse9
proof
  show "absolute9 (cl_join cl9 d f)" if "absolute9 d" for d f
    using that by (cases d) (auto simp: absolute9_def cl9_def)
  show "parse9 (cl_json cl9 lbs) = Some lbs" for lbs
    by (simp add: cl9_def parse9_def dec_enc_labels length_enc_labels)
qed (auto simp: cl9_def Let_def split: if_splits)

lemma prepare9_run:
  "case prepare cl9 pe9 mf9 ''c1'' cc9 of
     Ok (acts, io) \<Rightarrow> list_ex (\<lambda>a. case a of P_Spawn path r cf env pid \<Rightarrow> r = 3 \<and> cf_destination cf = ''logrotate'' | _ \<Rightarrow> False) acts
   | _ \<Rightarrow> False"
  by code_simp

lemma prepare9_OkE:
  obtains acts io path cf env pid where "prepare cl9 pe9 mf9 ''c1'' cc9 = Ok (acts, io)"
    "P_Spawn path 3 cf env pid \<in> set acts" "cf_destination cf = ''logrotate''"
proof -
  obtain acts io where p: "prepare cl9 pe9 mf9 ''c1'' cc9 = Ok (acts, io)"
    and e: "list_ex (\<lambda>a. case a of P_Spawn path r cf env pid \<Rightarrow> r = 3 \<and> cf_destination cf = ''logrotate'' | _ \<Rightarrow> False) acts"
    using prepare9_run by (auto split: res.splits)
  from e obtain a where "a \<in> set acts" "case a of P_Spawn path r cf env pid \<Rightarrow> r = 3 \<and> cf_destination cf = ''logrotate'' | _ \<Rightarrow> False"
    by (auto simp: list_ex_iff)
  with p that show thesis by (cases a) auto
qed

theorem companions_well_formed_witness:
  "\<exists>acts io path cf env pid. prepare cl9 pe9 mf9 ''c1'' cc9 = Ok (acts, io) \<and> P_Spawn path 3 cf env pid \<in> set acts \<and>
     (\<exists>fl. companion_loaded parse9 cf = Some fl \<and> lf_destination fl = ''logrotate'' \<and>
        lf_options fl \<in> {Some ''rotate 9'', None})"
proof -
  obtain acts io path cf env pid where p: "prepare cl9 pe9 mf9 ''c1'' cc9 = Ok (acts, io)"
    "P_Spawn path 3 cf env pid \<in> set acts" and d: "cf_destination cf = ''logrotate''" by (rule prepare9_OkE)
  have v: "module_valid 8 (\<lambda>d f. d @ f) (\<lambda>p. True) (\<lambda>c. True) mf9"
    by (simp add: module_valid_def mf9_def settings_valid_def valid_destination_def valid_size_def valid_companion_dir_def
        valid_logrotate_def valid_payload_def valid_threads_def valid_fluentbit_ip_def)
  have "absolute9 (cc_directory cc9)" by (simp add: absolute9_def cc9_def)
  from companions_well_formed [OF v cl9.container_module_axioms this p] obtain fl where
    "companion_loaded parse9 cf = Some fl" "lf_options fl \<in> {Some ''rotate 9'', None}"
    by (auto simp: mf9_def)
  with p d show ?thesis by (fastforce simp: companion_loaded_def)
qed

theorem prepare_leaks_nothing_witness:
  "valid_threads (mf_threads mf9) \<and>
   (\<exists>acts io. prepare cl9 (pe9\<lparr>pe_spawn2 := Inl ''ENOMEM''\<rparr>) mf9 ''c1'' cc9 = Ok (acts, io) \<and> nothing_leaks acts io)"
proof -
  have "valid_threads (mf_threads mf9)" by (simp add: valid_threads_def mf9_def)
  with prepare_leaks_nothing [OF this] show ?thesis by blast
qed

section \<open>The agent in the sandbox path\<close>

lemma scan_agent_none: "\<forall>i<n. tokens ! i \<noteq> ''slaves'' \<Longrightarrow> scan_agent tokens n found = found"
  by (induction tokens n found rule: scan_agent.induct) auto

lemma scan_agent_first:
  assumes "''slaves'' \<notin> set pre"
  shows "scan_agent (pre @ ''slaves'' # a # post) (length pre + 2 + 2 * k) found = Some a"
proof (induction k arbitrary: found)
  case 0
  have "(pre @ ''slaves'' # a # post) ! i \<noteq> ''slaves''" if "i < length pre" for i
    using assms that nth_mem [of i pre] by (metis nth_append)
  then show ?case by (simp add: nth_append scan_agent_none)
qed simp

text \<open>
  The id of the agent is the component after the first \<open>slaves\<close>, provided an even number of
  components follows, as in every sandbox path.
\<close>

lemma agent_id_after_slaves:
  assumes "''slaves'' \<notin> set pre" and "even (length post)"
  shows "agent_id (pre @ ''slaves'' # a # post) = Some a"
proof -
  from assms(2) obtain k where "length post = 2 * k" by (rule evenE)
  with scan_agent_first [OF assms(1), of a post k None] show ?thesis by (simp add: agent_id_def)
qed

end
