(* ===== verification/MetricsIsolator.thy ===== *)
theory MetricsIsolator
  imports NetworkAddr CommandRunner
begin

text \<open>
  The metrics isolator (\<open>metrics/isolator.cpp\<close>, \<open>metrics/isolator.hpp\<close>): for each container it posts
  a request to the metrics service and injects the StatsD address of the answer into the environment
  of the container; when a container ends it sends a request to delete it. Containers of class
  \<open>DEBUG\<close> are remembered and left alone. The model is of builds other than Windows; whether the
  build has SSL and whether \<open>ASSERT\<close> is compiled in are parameters.
\<close>

section \<open>Flags\<close>

record isolator_flags =
  if_scheme :: "string option"
  if_network :: "string option"
  if_address :: "string option"
  if_endpoint :: "string option"

text \<open>The validators: the error, if any.\<close>

definition check_scheme :: "string option \<Rightarrow> string option" where
  "check_scheme v = (case v of
     None \<Rightarrow> Some ''Missing required option --dcos_metrics_service_scheme''
   | Some s \<Rightarrow> if s \<noteq> ''http'' \<and> s \<noteq> ''https''
       then Some (''Expected --dcos_metrics_service_scheme to be either '' @ [CHR 0x22] @ ''http'' @ [CHR 0x22] @
                  '' or '' @ [CHR 0x22] @ ''https'' @ [CHR 0x22])
       else None)"

definition check_network :: "string option \<Rightarrow> string option" where
  "check_network v = (case v of
     None \<Rightarrow> Some ''Missing required option --dcos_metrics_service_network''
   | Some s \<Rightarrow> if s \<noteq> ''inet'' \<and> s \<noteq> ''unix''
       then Some (''Expected --dcos_metrics_service_network to be either '' @ [CHR 0x22] @ ''inet'' @ [CHR 0x22] @
                  '' or '' @ [CHR 0x22] @ ''unix'' @ [CHR 0x22])
       else None)"

definition check_address :: "string option \<Rightarrow> string option" where
  "check_address v =
     (case v of None \<Rightarrow> Some ''Missing required option --dcos_metrics_service_address'' | Some s \<Rightarrow> None)"

definition check_endpoint :: "string option \<Rightarrow> string option" where
  "check_endpoint v =
     (case v of None \<Rightarrow> Some ''Missing required option --dcos_metrics_service_endpoint'' | Some s \<Rightarrow> None)"

definition isolator_flags_valid :: "isolator_flags \<Rightarrow> bool" where
  "isolator_flags_valid fl \<longleftrightarrow> check_scheme (if_scheme fl) = None \<and> check_network (if_network fl) = None \<and>
     check_address (if_address fl) = None \<and> check_endpoint (if_endpoint fl) = None"

section \<open>The process\<close>

datatype container_id = Container_Id string "container_id option"    \<comment> \<open>the value and the parent\<close>

fun container_value :: "container_id \<Rightarrow> string" where
  "container_value (Container_Id v p) = v"

record isolator =
  is_scheme :: string
  is_endpoint :: string
  is_inet :: "(ip \<times> 16 word) option"
  is_unix :: "string option"
  is_debug :: "container_id list"       \<comment> \<open>\<open>debugContainers\<close>, without repetitions\<close>

text \<open>What the process uses of stout and libprocess: parsers and printers.\<close>

record isolator_lib =
  il_split :: "string \<Rightarrow> string list"          \<comment> \<open>\<open>strings::split\<close> at colons\<close>
  il_ip :: "string \<Rightarrow> ip option"
  il_port :: "string \<Rightarrow> 16 word option"
  il_unix :: "string \<Rightarrow> string option"
  il_show :: "int \<Rightarrow> string"
  il_json :: "string \<Rightarrow> string"               \<comment> \<open>the request for a container as JSON\<close>
  il_object :: "string \<Rightarrow> string + string"     \<comment> \<open>\<open>JSON::parse\<close>: an error or the object\<close>
  il_message :: "string \<Rightarrow> string + (string option \<times> int option)"   \<comment> \<open>\<open>protobuf::parse\<close>\<close>

record build =
  bd_ssl :: bool
  bd_asserts :: bool

definition assert_that :: "build \<Rightarrow> bool \<Rightarrow> unit res" where
  "assert_that bd b = (if bd_asserts bd \<and> \<not> b then Crash Check_Failed else Ok ())"

definition inet_address :: "isolator_lib \<Rightarrow> string \<Rightarrow> (ip \<times> 16 word) res" where
  \<comment> \<open>\<open>LOG(FATAL)\<close> ends the process\<close>
  "inet_address il address =
     (let hostport = il_split il address in
      if length hostport \<noteq> 2 then Crash Exit_Failure
      else
        (case il_ip il (hostport ! 0) of
           None \<Rightarrow> Crash Exit_Failure
         | Some ip \<Rightarrow>
             (case il_port il (hostport ! 1) of
                None \<Rightarrow> Crash Exit_Failure
              | Some port \<Rightarrow> Ok (ip, port))))"

definition isolator_new :: "isolator_lib \<Rightarrow> build \<Rightarrow> isolator_flags \<Rightarrow> isolator res" where
  "isolator_new il bd fl =
     bind_res (assert_that bd (if_scheme fl \<noteq> None)) (\<lambda>_.
     bind_res (opt_get (if_scheme fl)) (\<lambda>scheme.
     bind_res (assert_that bd (scheme = ''http'' \<or> bd_ssl bd \<and> scheme = ''https'')) (\<lambda>_.
     bind_res (assert_that bd (if_address fl \<noteq> None)) (\<lambda>_.
     bind_res (assert_that bd (if_network fl \<noteq> None)) (\<lambda>_.
     bind_res (opt_get (if_network fl)) (\<lambda>network.
     bind_res (assert_that bd (network = ''inet'' \<or> network = ''unix'')) (\<lambda>_.
     bind_res (if network = ''inet''
         then bind_res (opt_get (if_address fl)) (\<lambda>a. bind_res (inet_address il a) (\<lambda>x. Ok (Some x)))
         else Ok None) (\<lambda>inet.
     bind_res (if network = ''unix''
         then bind_res (opt_get (if_address fl)) (\<lambda>a.
           case il_unix il a of None \<Rightarrow> Crash Exit_Failure | Some u \<Rightarrow> Ok (Some u))
         else Ok None) (\<lambda>unix.
     bind_res (assert_that bd (if_endpoint fl \<noteq> None)) (\<lambda>_.
     bind_res (opt_get (if_endpoint fl)) (\<lambda>endpoint.
       Ok \<lparr>is_scheme = scheme, is_endpoint = endpoint, is_inet = inet, is_unix = unix, is_debug = []\<rparr>)))))))))))"

section \<open>Requests\<close>

datatype target = Inet_Target ip "16 word" | Unix_Target string

record request =
  rq_method :: string
  rq_scheme :: string
  rq_target :: target
  rq_path :: string
  rq_headers :: "(string \<times> string) list"
  rq_body :: "string option"

record http_response =
  rs_code :: nat
  rs_body :: string

text \<open>What becomes of a request: the connection, the response, and whether the time limit passes first.\<close>

record http_env =
  he_connect :: "unit future"
  he_response :: "http_response future"
  he_late :: bool

definition connect :: "build \<Rightarrow> isolator \<Rightarrow> (target \<times> string) future res" where
  \<comment> \<open>the address and scheme to connect to\<close>
  "connect bd mi =
     (let over = (\<lambda>target.
            if is_scheme mi = ''http'' then F_Ready (target, ''HTTP'')
            else if bd_ssl bd then F_Ready (target, ''HTTPS'')
            else F_Failed ''HTTPS is not supported by this build'') in
      case is_inet mi of
        Some (ip, port) \<Rightarrow> Ok (over (Inet_Target ip port))
      | None \<Rightarrow>
          (case is_unix mi of
             Some u \<Rightarrow> Ok (over (Unix_Target u))
           | None \<Rightarrow> Crash Unreachable))"

definition mk_request :: "isolator \<Rightarrow> target \<Rightarrow> string \<Rightarrow> string option \<Rightarrow> string \<Rightarrow> request" where
  "mk_request mi target endpoint body method =
     \<lparr>rq_method = method, rq_scheme = is_scheme mi, rq_target = target, rq_path = endpoint,
      rq_headers = [(''Accept'', ''application/json''), (''Content-Type'', ''application/json'')], rq_body = body\<rparr>"

definition send ::
  "build \<Rightarrow> http_env \<Rightarrow> string \<Rightarrow> string option \<Rightarrow> string \<Rightarrow> isolator \<Rightarrow> (request list \<times> http_response future) res" where
  "send bd he endpoint body method mi =
     bind_res (connect bd mi) (\<lambda>c.
       let connection = f_then c (\<lambda>(target, scheme). f_then (he_connect he) (\<lambda>_. F_Ready target));
           sent = (case connection of F_Ready target \<Rightarrow> [mk_request mi target endpoint body method] | _ \<Rightarrow> []) in
       Ok (sent, if he_late he then F_Failed ''Request timed out''
                 else f_then connection (\<lambda>_. he_response he)))"

definition send_start :: "isolator_lib \<Rightarrow> build \<Rightarrow> http_env \<Rightarrow> container_id \<Rightarrow> isolator \<Rightarrow> (request list \<times> http_response future) res" where
  "send_start il bd he c mi = send bd he (is_endpoint mi) (Some (il_json il (container_value c))) ''POST'' mi"

definition send_stop :: "build \<Rightarrow> http_env \<Rightarrow> container_id \<Rightarrow> isolator \<Rightarrow> (request list \<times> http_response future) res" where
  "send_stop bd he c mi = send bd he (is_endpoint mi @ ''/'' @ container_value c) None ''DELETE'' mi"

section \<open>Preparing and cleaning up containers\<close>

definition parse_response :: "isolator_lib \<Rightarrow> string \<Rightarrow> string + (string option \<times> int option)" where
  \<comment> \<open>the template \<open>parse\<close>, at the response\<close>
  "parse_response il body =
     (case il_object il body of
        Inl e \<Rightarrow> Inl (''Error parsing input as JSON: '' @ e)
      | Inr json \<Rightarrow>
          (case il_message il json of
             Inl e \<Rightarrow> Inl (''Error parsing JSON into protobuf: '' @ e)
           | Inr r \<Rightarrow> Inr r))"

definition launch_info :: "isolator_lib \<Rightarrow> container_id \<Rightarrow> http_response \<Rightarrow> (string \<times> string) list option future" where
  \<comment> \<open>the continuation of \<open>prepare\<close>: the variables to add, if any\<close>
  "launch_info il c response =
     (if rs_code response = 204 then F_Ready None
      else if rs_code response \<noteq> 201 then
        F_Failed (''Received unexpected response code  '' @ quoted (il_show il (int (rs_code response))) @
          '' when posting 'ContainerStartRequest' for container '' @ quoted (container_value c))
      else
        (case parse_response il (rs_body response) of
           Inl e \<Rightarrow> F_Failed (''Error parsing the 'ContainerStartResponse' body for container '' @
                      quoted (container_value c) @ '': '' @ e)
         | Inr (Some host, Some port) \<Rightarrow>
             F_Ready (Some [(''STATSD_UDP_HOST'', host), (''STATSD_UDP_PORT'', il_show il port)])
         | Inr _ \<Rightarrow>
             F_Failed (''Missing 'statsd_host' or 'statsd_port' field in 'ContainerStartResponse' for container '' @
               quoted (container_value c))))"

definition iso_prepare ::
  "isolator_lib \<Rightarrow> build \<Rightarrow> http_env \<Rightarrow> container_id \<Rightarrow> bool \<Rightarrow> isolator \<Rightarrow>
   (isolator \<times> request list \<times> (string \<times> string) list option future) res" where
  \<comment> \<open>the flag says whether the container is of class \<open>DEBUG\<close>; \<open>onAny\<close> drops the result of its callback\<close>
  "iso_prepare il bd he c debug mi =
     (if debug then Ok (mi\<lparr>is_debug := List.insert c (is_debug mi)\<rparr>, [], F_Ready None)
      else
        bind_res (send_start il bd he c mi) (\<lambda>(sent, response).
          Ok (mi, sent, f_then response (launch_info il c))))"

definition iso_cleanup ::
  "build \<Rightarrow> http_env \<Rightarrow> container_id \<Rightarrow> isolator \<Rightarrow> (isolator \<times> request list \<times> unit future) res" where
  \<comment> \<open>\<open>await\<close> is ready whatever the response ends in; what is only logged is left out\<close>
  "iso_cleanup bd he c mi =
     (if List.member (is_debug mi) c then Ok (mi\<lparr>is_debug := removeAll c (is_debug mi)\<rparr>, [], F_Ready ())
      else
        bind_res (send_stop bd he c mi) (\<lambda>(sent, response).
          Ok (mi, sent, f_then (F_Ready response) (\<lambda>_. F_Ready ()))))"

definition create_isolator ::
  "((string \<times> string) list \<Rightarrow> string + isolator_flags) \<Rightarrow> isolator_lib \<Rightarrow> build \<Rightarrow> (string \<times> string) list \<Rightarrow>
   isolator option res" where
  \<comment> \<open>the creation function of the module; \<open>None\<close> is a null pointer\<close>
  "create_isolator load il bd parameters =
     (case load (fold (\<lambda>(k, v) m. hm_put m k v) parameters []) of
        Inl e \<Rightarrow> Ok None
      | Inr fl \<Rightarrow> bind_res (isolator_new il bd fl) (\<lambda>mi. Ok (Some mi)))"

section \<open>Runs\<close>

datatype iso_event = I_Prepare container_id bool http_env | I_Cleanup container_id http_env

datatype iso_answer = Prepared "(string \<times> string) list option future" | Cleaned "unit future"

definition iso_handle ::
  "isolator_lib \<Rightarrow> build \<Rightarrow> iso_event \<Rightarrow> isolator \<Rightarrow> (isolator \<times> request list \<times> iso_answer) res" where
  "iso_handle il bd ev mi =
     (case ev of
        I_Prepare c debug he \<Rightarrow>
          bind_res (iso_prepare il bd he c debug mi) (\<lambda>(mi', sent, a). Ok (mi', sent, Prepared a))
      | I_Cleanup c he \<Rightarrow>
          bind_res (iso_cleanup bd he c mi) (\<lambda>(mi', sent, a). Ok (mi', sent, Cleaned a)))"

fun iso_run ::
  "isolator_lib \<Rightarrow> build \<Rightarrow> iso_event list \<Rightarrow> isolator \<Rightarrow> (isolator \<times> (request list \<times> iso_answer) list) res" where
  "iso_run il bd [] mi = Ok (mi, [])"
| "iso_run il bd (ev # evs) mi =
     bind_res (iso_handle il bd ev mi) (\<lambda>(iso1, sent, a).
     bind_res (iso_run il bd evs iso1) (\<lambda>(iso2, outs). Ok (iso2, (sent, a) # outs)))"

section \<open>Specification\<close>

definition iso_wf :: "isolator \<Rightarrow> bool" where
  "iso_wf mi \<longleftrightarrow> is_inet mi \<noteq> None \<or> is_unix mi \<noteq> None"

lemma isolator_new_wf:
  assumes "isolator_flags_valid fl" and "isolator_new il bd fl = Ok mi"
  shows "iso_wf mi \<and> is_debug mi = []"
  using assms
  by (auto simp: isolator_new_def isolator_flags_valid_def check_network_def iso_wf_def res_simps
      split: option.splits if_splits)

text \<open>The containers known as \<open>DEBUG\<close> after a sequence of events.\<close>

definition pending_debug :: "container_id \<Rightarrow> iso_event list \<Rightarrow> bool" where
  "pending_debug c evs = fold (\<lambda>ev b. case ev of
      I_Prepare c' d he \<Rightarrow> b \<or> (c' = c \<and> d)
    | I_Cleanup c' he \<Rightarrow> b \<and> c' \<noteq> c) evs False"

lemma pending_debug_snoc:
  "pending_debug c (evs @ [ev]) = (case ev of
      I_Prepare c' d he \<Rightarrow> pending_debug c evs \<or> (c' = c \<and> d)
    | I_Cleanup c' he \<Rightarrow> pending_debug c evs \<and> c' \<noteq> c)"
  by (cases ev) (simp_all add: pending_debug_def)

definition connects :: "build \<Rightarrow> isolator \<Rightarrow> http_env \<Rightarrow> bool" where
  "connects bd mi he \<longleftrightarrow> (is_scheme mi = ''http'' \<or> bd_ssl bd) \<and> he_connect he = F_Ready ()"

definition answers :: "build \<Rightarrow> isolator \<Rightarrow> http_env \<Rightarrow> http_response \<Rightarrow> bool" where
  "answers bd mi he rs \<longleftrightarrow> connects bd mi he \<and> \<not> he_late he \<and> he_response he = F_Ready rs"

definition posted :: "isolator_lib \<Rightarrow> isolator \<Rightarrow> container_id \<Rightarrow> request \<Rightarrow> bool" where
  "posted il mi c rq \<longleftrightarrow> rq_method rq = ''POST'' \<and> rq_path rq = is_endpoint mi \<and> rq_body rq = Some (il_json il (container_value c))"

definition deleted :: "isolator \<Rightarrow> container_id \<Rightarrow> request \<Rightarrow> bool" where
  "deleted mi c rq \<longleftrightarrow> rq_method rq = ''DELETE'' \<and> rq_path rq = is_endpoint mi @ ''/'' @ container_value c \<and> rq_body rq = None"

text \<open>What one event must do, from the events before it alone.\<close>

definition iso_spec :: "isolator_lib \<Rightarrow> build \<Rightarrow> isolator \<Rightarrow> iso_event list \<Rightarrow> iso_event \<Rightarrow> request list \<times> iso_answer \<Rightarrow> bool" where
  "iso_spec il bd mi before ev out =
     (case out of (sent, a) \<Rightarrow>
        (case ev of
           I_Cleanup c he \<Rightarrow>
             a = Cleaned (F_Ready ()) \<and>
             (if pending_debug c before \<or> \<not> connects bd mi he then sent = [] else (\<exists>rq. sent = [rq] \<and> deleted mi c rq))
         | I_Prepare c debug he \<Rightarrow>
             (if debug then sent = [] \<and> a = Prepared (F_Ready None)
              else (if connects bd mi he then \<exists>rq. sent = [rq] \<and> posted il mi c rq else sent = []) \<and>
                (\<exists>r. a = Prepared r \<and>
                   (\<forall>vars. r = F_Ready vars \<longleftrightarrow>
                      (\<exists>rs. answers bd mi he rs \<and>
                         (rs_code rs = 204 \<and> vars = None \<or>
                          (\<exists>host port. rs_code rs = 201 \<and> parse_response il (rs_body rs) = Inr (Some host, Some port) \<and>
                             vars = Some [(''STATSD_UDP_HOST'', host), (''STATSD_UDP_PORT'', il_show il port)]))))))))"

lemma send_effect:
  assumes "iso_wf mi"
  shows "\<exists>sent r. send bd he path body method mi = Ok (sent, r) \<and>
    (if connects bd mi he then \<exists>rq. sent = [rq] \<and> rq_method rq = method \<and> rq_path rq = path \<and> rq_body rq = body else sent = []) \<and>
    (\<forall>rs. r = F_Ready rs \<longleftrightarrow> answers bd mi he rs)"
  using assms
  by (cases "he_connect he"; cases "bd_ssl bd"; cases "is_scheme mi = ''http''")
    (auto simp: send_def connect_def iso_wf_def connects_def answers_def mk_request_def Let_def split: option.splits)

lemma send_start_effect:
  assumes "iso_wf mi"
  shows "\<exists>sent r. send_start il bd he c mi = Ok (sent, r) \<and>
    (if connects bd mi he then \<exists>rq. sent = [rq] \<and> posted il mi c rq else sent = []) \<and>
    (\<forall>rs. r = F_Ready rs \<longleftrightarrow> answers bd mi he rs)"
  unfolding send_start_def posted_def by (rule send_effect [OF assms])

lemma send_stop_effect:
  assumes "iso_wf mi"
  shows "\<exists>sent r. send_stop bd he c mi = Ok (sent, r) \<and>
    (if connects bd mi he then \<exists>rq. sent = [rq] \<and> deleted mi c rq else sent = []) \<and>
    (\<forall>rs. r = F_Ready rs \<longleftrightarrow> answers bd mi he rs)"
  unfolding send_stop_def deleted_def by (rule send_effect [OF assms])

lemma launch_info_ready:
  "launch_info il c rs = F_Ready vars \<longleftrightarrow>
     rs_code rs = 204 \<and> vars = None \<or>
     (\<exists>host port. rs_code rs = 201 \<and> parse_response il (rs_body rs) = Inr (Some host, Some port) \<and>
        vars = Some [(''STATSD_UDP_HOST'', host), (''STATSD_UDP_PORT'', il_show il port)])"
  by (auto simp: launch_info_def split: sum.splits prod.splits option.splits)

definition same_service :: "isolator \<Rightarrow> isolator \<Rightarrow> bool" where
  "same_service mi mi' \<longleftrightarrow> (\<exists>ds. mi' = mi\<lparr>is_debug := ds\<rparr>)"

lemma same_service_refl [simp]: "same_service mi mi"
  by (auto simp: same_service_def intro: exI [where x = "is_debug mi"])

lemma same_service_update: "same_service mi mi' \<Longrightarrow> same_service mi (mi'\<lparr>is_debug := ds\<rparr>)"
  by (auto simp: same_service_def)

lemma iso_handle_spec:
  assumes "iso_wf mi" and "same_service mi m" and "\<forall>c. c \<in> set (is_debug m) \<longleftrightarrow> pending_debug c before"
  shows "\<exists>m' out. iso_handle il bd ev m = Ok (m', out) \<and> same_service mi m' \<and> iso_spec il bd mi before ev out \<and>
    (\<forall>c. c \<in> set (is_debug m') \<longleftrightarrow> pending_debug c (before @ [ev]))"
proof -
  from assms(1,2) have wf: "iso_wf m" by (auto simp: iso_wf_def same_service_def)
  from assms(2) have eqs: "connects bd m he = connects bd mi he" "answers bd m he rs = answers bd mi he rs"
    "posted il m = posted il mi" "deleted m = deleted mi" for he rs
    by (auto simp: same_service_def connects_def answers_def posted_def deleted_def fun_eq_iff)
  show ?thesis
  proof (cases ev)
    case (I_Prepare c debug he)
    show ?thesis
    proof (cases debug)
      case True
      with I_Prepare assms(2,3) show ?thesis
        by (auto simp: iso_handle_def iso_prepare_def iso_spec_def pending_debug_snoc same_service_update)
    next
      case False
      from send_start_effect [OF wf, of il bd he c, unfolded eqs]
      obtain sent r where s: "send_start il bd he c m = Ok (sent, r)"
        and q: "if connects bd mi he then \<exists>rq. sent = [rq] \<and> posted il mi c rq else sent = []"
        and r: "\<forall>rs. r = F_Ready rs \<longleftrightarrow> answers bd mi he rs"
        by blast
      have "iso_handle il bd ev m = Ok (m, sent, Prepared (f_then r (launch_info il c)))"
        using I_Prepare False s by (simp add: iso_handle_def iso_prepare_def)
      moreover have "iso_spec il bd mi before ev (sent, Prepared (f_then r (launch_info il c)))"
        using I_Prepare False q r by (auto simp: iso_spec_def launch_info_ready split: if_splits)
      ultimately show ?thesis using I_Prepare False assms(2,3) by (simp add: pending_debug_snoc)
    qed
  next
    case (I_Cleanup c he)
    show ?thesis
    proof (cases "c \<in> set (is_debug m)")
      case True
      with I_Cleanup assms(2,3) show ?thesis
        by (auto simp: iso_handle_def iso_cleanup_def iso_spec_def pending_debug_snoc same_service_update)
    next
      case False
      from send_stop_effect [OF wf, of bd he c, unfolded eqs]
      obtain sent r where s: "send_stop bd he c m = Ok (sent, r)"
        and q: "if connects bd mi he then \<exists>rq. sent = [rq] \<and> deleted mi c rq else sent = []"
        by blast
      have "iso_handle il bd ev m = Ok (m, sent, Cleaned (F_Ready ()))"
        using I_Cleanup False s by (simp add: iso_handle_def iso_cleanup_def)
      moreover have "iso_spec il bd mi before ev (sent, Cleaned (F_Ready ()))"
        using I_Cleanup False q assms(3) by (auto simp: iso_spec_def)
      ultimately show ?thesis using I_Cleanup False assms(2,3) by (auto simp: pending_debug_snoc)
    qed
  qed
qed

lemma iso_run_spec:
  assumes "iso_wf mi"
  shows "same_service mi m \<Longrightarrow> (\<forall>c. c \<in> set (is_debug m) \<longleftrightarrow> pending_debug c before) \<Longrightarrow>
    \<exists>m' outs. iso_run il bd evs m = Ok (m', outs) \<and> length outs = length evs \<and>
      (\<forall>i<length evs. iso_spec il bd mi (before @ take i evs) (evs ! i) (outs ! i))"
proof (induction evs arbitrary: m before)
  case (Cons ev evs)
  from iso_handle_spec [OF assms Cons.prems, of il bd ev] obtain m1 out where
    h: "iso_handle il bd ev m = Ok (m1, out)" and s: "iso_spec il bd mi before ev out"
    and i: "same_service mi m1" "\<forall>c. c \<in> set (is_debug m1) \<longleftrightarrow> pending_debug c (before @ [ev])" by blast
  from Cons.IH [OF i] obtain m' outs where r: "iso_run il bd evs m1 = Ok (m', outs)" "length outs = length evs"
    "\<forall>i<length evs. iso_spec il bd mi ((before @ [ev]) @ take i evs) (evs ! i) (outs ! i)" by blast
  obtain sent a where out: "out = (sent, a)" by (cases out)
  have "iso_spec il bd mi (before @ take i (ev # evs)) ((ev # evs) ! i) (((sent, a) # outs) ! i)"
    if "i < length (ev # evs)" for i
    using that s r(3) out by (cases i) auto
  with h r(1,2) out show ?case by auto
qed simp

text \<open>
  C24: An isolator created from flags that passed validation never aborts afterwards, in any sequence
  of preparations and clean-ups and whatever becomes of its requests: every clean-up ends ready; a
  preparation is ready exactly if the service answered in time with 204 (nothing to add) or with 201
  and both fields (the two variables); each container that is not \<open>DEBUG\<close> has one request to start
  and one to delete it when the service can be reached, and \<open>DEBUG\<close> containers have none.
\<close>

theorem isolator_serves_containers:
  assumes "isolator_flags_valid fl" and "isolator_new il bd fl = Ok mi"
  shows "\<exists>mi' outs. iso_run il bd evs mi = Ok (mi', outs) \<and> length outs = length evs \<and>
    (\<forall>i<length evs. iso_spec il bd mi (take i evs) (evs ! i) (outs ! i))"
proof -
  from isolator_new_wf [OF assms] have "iso_wf mi" "\<forall>c. c \<in> set (is_debug mi) \<longleftrightarrow> pending_debug c []"
    by (simp_all add: pending_debug_def)
  from iso_run_spec [OF this(1) _ this(2), of il bd evs] show ?thesis by simp
qed

definition il9 :: isolator_lib where
  "il9 = \<lparr>il_split = (\<lambda>s. [s, s]), il_ip = (\<lambda>s. Some (V4 1)), il_port = (\<lambda>s. Some 80), il_unix = (\<lambda>s. Some s),
     il_show = (\<lambda>n. ''8125''), il_json = (\<lambda>s. s), il_object = (\<lambda>s. Inr s), il_message = (\<lambda>s. Inr (Some s, Some 8125))\<rparr>"

definition if9 :: isolator_flags where
  "if9 = \<lparr>if_scheme = Some ''http'', if_network = Some ''inet'', if_address = Some ''a'', if_endpoint = Some ''/c''\<rparr>"

definition he9 :: "nat \<Rightarrow> http_env" where
  "he9 code = \<lparr>he_connect = F_Ready (), he_response = F_Ready \<lparr>rs_code = code, rs_body = ''h''\<rparr>, he_late = False\<rparr>"

definition evs9 :: "iso_event list" where
  "evs9 = [I_Prepare (Container_Id ''x'' None) True (he9 201), I_Prepare (Container_Id ''y'' None) False (he9 201),
     I_Cleanup (Container_Id ''x'' None) (he9 202), I_Cleanup (Container_Id ''y'' None) (he9 500)]"

lemma isolator9: "case isolator_new il9 \<lparr>bd_ssl = False, bd_asserts = True\<rparr> if9 of Ok mi \<Rightarrow> True | _ \<Rightarrow> False"
  by code_simp

theorem isolator_serves_containers_witness:
  "\<exists>mi mi' outs. isolator_new il9 \<lparr>bd_ssl = False, bd_asserts = True\<rparr> if9 = Ok mi \<and>
     iso_run il9 \<lparr>bd_ssl = False, bd_asserts = True\<rparr> evs9 mi = Ok (mi', outs) \<and> length outs = 4 \<and>
     fst (outs ! 2) = [] \<and> snd (outs ! 3) = Cleaned (F_Ready ())"
proof -
  let ?bd = "\<lparr>bd_ssl = False, bd_asserts = True\<rparr>"
  from isolator9 obtain mi where n: "isolator_new il9 ?bd if9 = Ok mi" by (auto split: res.splits)
  have "isolator_flags_valid if9"
    by (simp add: isolator_flags_valid_def if9_def check_scheme_def check_network_def check_address_def check_endpoint_def)
  from isolator_serves_containers [OF this n, of evs9] obtain mi' outs where
    r: "iso_run il9 ?bd evs9 mi = Ok (mi', outs)" "length outs = length evs9"
    and s: "\<forall>i<length evs9. iso_spec il9 ?bd mi (take i evs9) (evs9 ! i) (outs ! i)" by blast
  from s [rule_format, of 2] s [rule_format, of 3] have "fst (outs ! 2) = [] \<and> snd (outs ! 3) = Cleaned (F_Ready ())"
    by (auto simp: evs9_def iso_spec_def pending_debug_def split: prod.splits)
  with n r show ?thesis by (auto simp: evs9_def)
qed

text \<open>
  The combination the flags accept and a build without SSL does not support: with \<open>ASSERT\<close> the
  agent aborts when it loads the module, without it every preparation fails.
\<close>

lemma https_without_ssl:
  "isolator_new il9 \<lparr>bd_ssl = False, bd_asserts = True\<rparr> (if9\<lparr>if_scheme := Some ''https''\<rparr>) = Crash Check_Failed"
  "case isolator_new il9 \<lparr>bd_ssl = False, bd_asserts = False\<rparr> (if9\<lparr>if_scheme := Some ''https''\<rparr>) of
     Ok mi \<Rightarrow> (case iso_run il9 \<lparr>bd_ssl = False, bd_asserts = False\<rparr> [I_Prepare (Container_Id ''y'' None) False (he9 201)] mi of
        Ok (mi', [(sent, Prepared a)]) \<Rightarrow> sent = [] \<and> a = F_Failed ''HTTPS is not supported by this build'' | _ \<Rightarrow> False)
   | _ \<Rightarrow> False"
  by code_simp+

end
