(* ===== verification/SmallModules.thy ===== *)
theory SmallModules
  imports CommandRunner
begin

text \<open>
  The two smallest modules: the log sink (\<open>logsink/logsink.cpp\<close>), which appends what glog logs to a
  file, and the hook that removes the Docker credentials from a sandbox (\<open>dockercfg/remover.hpp\<close>).
\<close>

section \<open>The log sink\<close>

text \<open>
  The files of the system as a map from paths to contents. What can fail is the creation of the
  directory, the opening of the file and each write.
\<close>

type_synonym files = "string \<Rightarrow> string option"

definition file_sink :: "(string \<Rightarrow> bool) \<Rightarrow> (string \<Rightarrow> bool) \<Rightarrow> string \<Rightarrow> files \<Rightarrow> files res" where
  \<comment> \<open>the constructor of \<open>FileSink\<close>: whether \<open>mkdir\<close> of the directory of a path and \<open>open\<close> succeed\<close>
  "file_sink mkdir opens output fs =
     (if fs output = None \<and> \<not> mkdir output then Crash Check_Failed
      else if \<not> opens output then Crash Check_Failed
      else Ok (if fs output = None then fs(output \<mapsto> []) else fs))"

record severity_line =
  sl_severity :: int
  sl_file :: string
  sl_line :: int
  sl_time :: int
  sl_message :: string         \<comment> \<open>the buffer, which goes on after the message\<close>
  sl_length :: nat
  sl_usecs :: int

definition sink_text :: "(int \<Rightarrow> string \<Rightarrow> int \<Rightarrow> int \<Rightarrow> string \<Rightarrow> int \<Rightarrow> string) \<Rightarrow> severity_line \<Rightarrow> string" where
  \<comment> \<open>the first argument is \<open>ToString\<close> of glog\<close>
  "sink_text to_string m =
     to_string (sl_severity m) (sl_file m) (sl_line m) (sl_time m) (take (sl_length m + 1) (sl_message m)) (sl_usecs m)"

definition sink_send ::
  "(int \<Rightarrow> string \<Rightarrow> int \<Rightarrow> int \<Rightarrow> string \<Rightarrow> int \<Rightarrow> string) \<Rightarrow> bool \<Rightarrow> string \<Rightarrow> severity_line \<Rightarrow> files \<Rightarrow> files" where
  \<comment> \<open>the flag says whether the write succeeds; its error is ignored\<close>
  "sink_send to_string written output m fs =
     (if written then fs(output := map_option (\<lambda>s. s @ sink_text to_string m) (fs output)) else fs)"

definition sink_send_old ::
  "(int \<Rightarrow> string \<Rightarrow> int \<Rightarrow> int \<Rightarrow> string \<Rightarrow> int \<Rightarrow> string) \<Rightarrow> bool \<Rightarrow> string \<Rightarrow> severity_line \<Rightarrow> files \<Rightarrow> files" where
  "sink_send_old to_string written output m fs = sink_send to_string written output (m\<lparr>sl_usecs := 0\<rparr>) fs"

definition create_log_sink ::
  "((string \<times> string) list \<Rightarrow> string + string) \<Rightarrow> (string \<Rightarrow> bool) \<Rightarrow> (string \<Rightarrow> bool) \<Rightarrow> (string \<times> string) list \<Rightarrow>
   files \<Rightarrow> (string option \<times> files) res" where
  \<comment> \<open>the creation function of the module: loading the flags gives the path or an error; \<open>None\<close> is a null pointer\<close>
  "create_log_sink load mkdir opens parameters fs =
     (case load (fold (\<lambda>(k, v) m. hm_put m k v) parameters []) of
        Inl e \<Rightarrow> Ok (None, fs)
      | Inr output \<Rightarrow> bind_res (file_sink mkdir opens output fs) (\<lambda>fs'. Ok (Some output, fs')))"

lemma file_sink_keeps:
  assumes "file_sink mkdir opens output fs = Ok fs'"
  shows "fs' output = Some (case fs output of None \<Rightarrow> [] | Some s \<Rightarrow> s) \<and> (\<forall>f. f \<noteq> output \<longrightarrow> fs' f = fs f)"
  using assms by (auto simp: file_sink_def split: if_splits option.splits)

text \<open>The file grows by exactly the messages, in order, and no other file is touched.\<close>

lemma sink_appends:
  assumes "fs output = Some s"
  shows "fold (sink_send ts True output) ms fs = fs(output \<mapsto> s @ concat (map (sink_text ts) ms))"
  using assms
proof (induction ms arbitrary: fs s)
  case Nil
  then show ?case by (auto simp: fun_eq_iff)
next
  case (Cons m ms)
  have "sink_send ts True output m fs = fs(output \<mapsto> s @ sink_text ts m)"
    using Cons.prems by (simp add: sink_send_def)
  moreover have "fold (sink_send ts True output) ms (fs(output \<mapsto> s @ sink_text ts m)) =
      (fs(output \<mapsto> s @ sink_text ts m))(output \<mapsto> (s @ sink_text ts m) @ concat (map (sink_text ts) ms))"
    by (rule Cons.IH) simp
  ultimately show ?case by (simp only: fold_Cons comp_apply fun_upd_upd append_assoc list.map concat.simps)
qed

section \<open>The Docker configuration remover\<close>

definition slavePostFetchHook ::
  "(string \<Rightarrow> string \<Rightarrow> string) \<Rightarrow> (string \<Rightarrow> string option) \<Rightarrow> string \<Rightarrow> files \<Rightarrow> string option \<times> files" where
  \<comment> \<open>\<open>path::join\<close>; what removing a file answers (\<open>Some\<close> an error); the error returned and the files\<close>
  "slavePostFetchHook join rm sandbox fs =
     (let location = join sandbox ''.dockercfg'' in
      if fs location \<noteq> None then
        (case rm location of
           Some e \<Rightarrow> (Some e, fs)
         | None \<Rightarrow> (None, fs(location := None)))
      else (None, fs))"

lemma hook_removes:
  assumes "slavePostFetchHook join rm sandbox fs = (None, fs')"
  shows "fs' (join sandbox ''.dockercfg'') = None \<and> (\<forall>f. f \<noteq> join sandbox ''.dockercfg'' \<longrightarrow> fs' f = fs f)"
  using assms by (auto simp: slavePostFetchHook_def Let_def split: if_splits option.splits)

lemma hook_error:
  assumes "slavePostFetchHook join rm sandbox fs = (Some e, fs')"
  shows "fs' = fs \<and> fs (join sandbox ''.dockercfg'') \<noteq> None"
  using assms by (auto simp: slavePostFetchHook_def Let_def split: if_splits option.splits)

end
