(* ===== verification/Spec2Isabelle.thy ===== *)
theory Spec2Isabelle
  imports Handshake SupervisedMaster Announcements Counters JournaldLib MetricsIsolator SmallModules
begin

text \<open>
  A verification development for the Mesos modules of DC/OS.

  \<^bold>\<open>The program.\<close> The repository builds modules that Mesos masters and agents load. The largest is the
  overlay network: a master module (\<open>overlay/master.cpp\<close>) that divides the address space of each
  overlay into subnets and hands every agent one subnet for each overlay and one VTEP address, keeps these
  allocations in a replicated log, and recovers them after a failover; and an agent module
  (\<open>overlay/agent.cpp\<close>) that registers with the leading master, configures a Mesos and a Docker network
  for each overlay by running commands, and reports how that ended. The master process runs below a
  supervisor (\<open>overlay/supervisor.hpp\<close>) that starts it again when it has demoted itself. Beside it there are a
  container logger with its companion process (\<open>journald/\<close>), an isolator that asks the metrics service
  for the StatsD address of each container (\<open>metrics/\<close>), a log sink (\<open>logsink/\<close>) and a hook that
  removes Docker credentials (\<open>dockercfg/\<close>).

  \<^bold>\<open>Conventions.\<close> An operation that can fail or abort returns \<open>'a res\<close>: \<open>Ok\<close>, \<open>Error\<close> for the error of a
  \<open>Try\<close>, or \<open>Crash\<close> for what ends the process (a failed \<open>CHECK\<close>, \<open>get\<close> of an empty option, \<open>at\<close> of a
  missing key, undefined behaviour); errors whose text matters are strings in a sum. Fields of a
  class are fields of a record, which operations take and return; a handler of a libprocess actor
  maps an event and the state to a state and the list of actions it causes, and runs are sequences of
  handlers, in any order the environment chooses. Machine integers are words. What is not in the
  repository is an argument: stout and the parsers (\<open>stout\<close>, \<open>agent_lib\<close>, \<open>logger_lib\<close>, \<open>container_lib\<close>,
  \<open>isolator_lib\<close>), the operating system, the replicated log, the network. Its laws are assumptions of
  the locales \<open>interval_set\<close>, \<open>stout_lib\<close> and \<open>container_module\<close>, and concrete instances satisfy them.

  \<^bold>\<open>Theories.\<close>
  \<^item> \<open>Base\<close>: results, faults, hash maps, machine types. \<open>IntervalSet\<close>, \<open>Stout\<close>: the interval sets, parsers
    and printers the overlay code uses, as locales, with reference implementations that satisfy them.
  \<^item> \<open>NetworkAddr\<close>, \<open>NetworkFacts\<close>: \<open>overlay/network.hpp\<close>. Addresses, networks, their orders and step
    operators; IPv4 networks as blocks of addresses.
  \<^item> \<open>FreePool\<close>: the contract of an allocator as a locale. \<open>VtepPool\<close> (\<open>struct Vtep\<close>, MAC addresses) and
    \<open>OverlayPool\<close> (\<open>struct Overlay\<close>) provide it: everything is handed out exactly once, release restores.
  \<^item> \<open>ProtoMessages\<close>: the messages. \<open>AgentDB\<close>: \<open>class Agent\<close> of the master. \<open>StateOps\<close>: \<open>class Operation\<close>.
  \<^item> \<open>MasterSetup\<close>, \<open>MasterProcess\<close>: construction and handlers of \<open>class ManagerProcess\<close> of the master.
    \<open>MasterInvariant\<close>, \<open>MasterRecovery\<close>, \<open>MasterRuns\<close>, \<open>MasterSafety\<close>: what agents hold never overlaps, in
    every reachable state. \<open>MasterOrder\<close>: the queue of operations loses and reorders nothing.
    \<open>MasterFailover\<close>: one process after another over one log. \<open>Announcements\<close>: what was told to the
    agents, the log and the process as one system; the log after all operations under way is the
    database of the process, and what was told is in the log, with the run in which it is not.
  \<^item> \<open>Supervisor\<close>: \<open>class ProcessSupervisor\<close>. \<open>SupervisedMaster\<close>: the module function, and the supervisor
    with its master processes and the log as one system. \<open>Counters\<close>: the counters of the overlay modules,
    registered and removed with the processes that own them.
  \<^item> \<open>CommandRunner\<close>: \<open>common/shell.hpp\<close> and futures. \<open>OverlayAgent\<close>, \<open>AgentProcess\<close>: the agent process,
    with the configuration of an overlay as a job that waits for commands. \<open>AgentSafety\<close>: its
    invariant, the refinement of the life cycle of an overlay, termination of configurations, the
    situations in which it aborts. \<open>Handshake\<close>: agent and master together.
  \<^item> \<open>JournaldLogger\<close>: the companion (\<open>journald/journald.cpp\<close>): no byte is lost, files stay below their
    limit, no abort and no leak. \<open>JournaldLib\<close>: the module (\<open>journald/lib_journald.cpp\<close>) and what it hands
    to its companions, whose flags satisfy the assumptions of \<open>JournaldLogger\<close>.
  \<^item> \<open>MetricsIsolator\<close>: \<open>metrics/isolator.cpp\<close>, with a specification of each event by the events before it.
    \<open>SmallModules\<close>: the log sink and the Docker hook.

  \<^bold>\<open>Bounds and fuel.\<close> No definition uses fuel: every loop of the code is a recursion over a list, a
  number or the bytes of an address. Assumptions on sizes appear in the statements: overlay prefixes in
  the range the pools can divide (\<open>well_configured\<close>), a log size limit that does not wrap when a page is
  added, labels shorter than \<open>2 ^ 62\<close> bytes. What is told is shown to be durable for agents with IPv4
  addresses, as long as none is deleted.

  \<^bold>\<open>Not modelled.\<close> Registration of routes with libprocess, help texts and log messages; the
  forwarding wrappers that dispatch to a process; glog's side of the log sink; the Windows variants of the
  loggers and of the isolator; timing (delays and back-off are events that may come at any time); the order of
  iteration over hash maps, which is taken to be insertion order.
\<close>

end
